(* ===== verification/Jlos_Prelude.thy ===== *)
theory Jlos_Prelude
  imports Main "HOL-Library.Word" "HOL-Library.Multiset" "HOL-Library.Sublist"
begin

text \<open>
  Shared material of the development: the machine integer types of
  \<^verbatim>\<open>common/types.h\<close>, the rounding macros, the theorem collections the
  component theories extend, and generic facts on lists and words.
\<close>

unbundle bit_operations_syntax

section \<open>Machine integers\<close>

type_synonym u8 = "8 word"
type_synonym u16 = "16 word"
type_synonym u32 = "32 word"
type_synonym u64 = "64 word"

text \<open>
  \<open>JLOS_EXCEPT_CEIL\<close> rounds a quotient up, on the width of its arguments.
  \<open>JLOS_ALIGN_UP\<close> and \<open>JLOS_ALIGN_DOWN\<close> mask low bits away.
\<close>

definition JLOS_EXCEPT_CEIL :: "'a::len word \<Rightarrow> 'a word \<Rightarrow> 'a word" where
  "JLOS_EXCEPT_CEIL a b = (a + b - 1) div b"

definition JLOS_ALIGN_UP :: "'a::len word \<Rightarrow> 'a word \<Rightarrow> 'a word" where
  "JLOS_ALIGN_UP addr align = (addr + align - 1) AND NOT (align - 1)"

definition JLOS_ALIGN_DOWN :: "'a::len word \<Rightarrow> 'a word \<Rightarrow> 'a word" where
  "JLOS_ALIGN_DOWN addr align = addr AND NOT (align - 1)"

section \<open>Theorem collections\<close>

named_theorems model_defs \<open>definitions of the program model that proofs unfold\<close>
named_theorems inv_intros \<open>preservation lemmas: one per operation and invariant\<close>
named_theorems frame_simps \<open>what an operation leaves unchanged\<close>

section \<open>Lists\<close>

lemma distinct_append_Cons_mid:
  "distinct (xs @ y # ys) \<longleftrightarrow> distinct (xs @ ys) \<and> y \<notin> set xs \<and> y \<notin> set ys"
  by auto

lemma remove1_split_distinct:
  "distinct (ys @ x # zs) \<Longrightarrow> remove1 x (ys @ x # zs) = ys @ zs"
  by (simp add: remove1_append)

lemma in_set_split:
  assumes "x \<in> set xs"
  obtains ys zs where "xs = ys @ x # zs"
  using assms by (meson split_list)

section \<open>Words\<close>

lemma unat_lt_pow2 [simp]: "unat (w :: 'a::len word) < 2 ^ LENGTH('a)"
  by (rule unsigned_less)

lemma unat_u32_lt [simp]: "unat (w :: u32) < 4294967296"
  using unsigned_less [of w] by simp

lemma unat_u8_lt [simp]: "unat (w :: u8) < 256"
  using unsigned_less [of w] by simp

lemma unat_plus_noov:
  fixes a b :: "'a::len word"
  shows "unat a + unat b < 2 ^ LENGTH('a) \<Longrightarrow> unat (a + b) = unat a + unat b"
  by (simp add: unat_word_ariths)

lemma unat_minus_noov:
  fixes a b :: "'a::len word"
  shows "b \<le> a \<Longrightarrow> unat (a - b) = unat a - unat b"
  by (rule unat_sub)


lemma unat_of_nat_u32: "n < 2 ^ 32 \<Longrightarrow> unat (of_nat n :: u32) = n"
  by (simp add: unsigned_of_nat take_bit_nat_eq_self)

lemma unat_2p: "k < LENGTH('a) \<Longrightarrow> unat (2 ^ k :: 'a::len word) = 2 ^ k"
proof -
  assume "k < LENGTH('a)"
  then have "(2::nat) ^ k < 2 ^ LENGTH('a)" by simp
  then have "unat (of_nat (2 ^ k) :: 'a word) = 2 ^ k"
    by (simp only: unsigned_of_nat take_bit_nat_eq_self of_nat_id)
  then show ?thesis by simp
qed

lemma unat_and_mask: "k < LENGTH('a) \<Longrightarrow> unat ((w :: 'a::len word) AND (2 ^ k - 1)) = unat w mod 2 ^ k"
  by (simp only: mask_eq_decr_exp [symmetric] take_bit_eq_mask [symmetric] unsigned_take_bit_eq take_bit_eq_mod
      [where 'a = nat])

lemma bit_top_unat: "bit (w :: 'a::len word) (LENGTH('a) - Suc 0) \<longleftrightarrow> 2 ^ (LENGTH('a) - Suc 0) \<le> unat w"
proof -
  let ?n = "LENGTH('a) - Suc 0"
  have "bit w ?n \<longleftrightarrow> bit (unat w) ?n" by (simp add: bit_unsigned_iff)
  also have "\<dots> \<longleftrightarrow> odd (unat w div 2 ^ ?n)" by (rule bit_iff_odd)
  also have "\<dots> \<longleftrightarrow> 2 ^ ?n \<le> unat w"
  proof -
    have "unat w < 2 * 2 ^ ?n"
      using unat_lt_pow2 [of w] by (simp flip: power_Suc)
    then have "unat w div 2 ^ ?n < 2" by (simp add: div_less_iff_less_mult)
    then have "unat w div 2 ^ ?n = 0 \<or> unat w div 2 ^ ?n = 1" by arith
    then show ?thesis by (auto simp: div_eq_0_iff not_less [symmetric])
  qed
  finally show ?thesis .
qed

lemma sint_negative_iff: "sint (w :: 'a::len word) < 0 \<longleftrightarrow> 2 ^ (LENGTH('a) - Suc 0) \<le> unat w"
  using bit_last_iff [of w] bit_top_unat [of w] by simp

lemma unat_diff_mod: "unat e mod 2 ^ k = (unat j + unat (e - j)) mod 2 ^ k" if "k \<le> LENGTH('a)" for e j :: "'a::len word"
proof -
  have "unat e = (unat j + unat (e - j)) mod 2 ^ LENGTH('a)"
    using unat_word_ariths(1) [of j "e - j"] by simp
  then show ?thesis using that by (metis le_imp_power_dvd mod_mod_cancel)
qed

lemma unat_drop_bit: "unat (drop_bit n (w :: 'a::len word)) = unat w div 2 ^ n"
  by (simp only: unat_drop_bit_eq drop_bit_eq_div [of n "unat w"])

lemma unat_ucast64: "unat (ucast x :: u64) = unat x" for x :: u32
proof -
  have "unat x < 2 ^ 64" using less_trans [OF unat_lt_pow2 [of x], of "2 ^ 64"] by simp
  then show ?thesis by (simp add: unsigned_ucast_eq take_bit_nat_eq_self)
qed

lemma unat_ucast32: "unat x < 2 ^ 32 \<Longrightarrow> unat (ucast x :: u32) = unat x" for x :: u64
  by (simp add: unsigned_ucast_eq take_bit_nat_eq_self)

section \<open>Compiler builtins\<close>

text \<open>
  \<open>__builtin_ctz\<close> and \<open>__builtin_clz\<close> count the zero bits below the lowest and above
  the highest set bit of a 32-bit value; both are undefined on 0, where the model
  gives 32 and the callers never look.
\<close>

definition builtin_ctz :: "u32 \<Rightarrow> nat" where
  "builtin_ctz w = length (takeWhile (\<lambda>i. \<not> bit w i) [0..<32])"

definition builtin_clz :: "u32 \<Rightarrow> nat" where
  "builtin_clz w = length (takeWhile (\<lambda>i. \<not> bit w i) (rev [0..<32]))"

lemma word_nonzero_bit: "w \<noteq> 0 \<Longrightarrow> \<exists>i<32. bit (w :: u32) i"
proof (rule ccontr)
  assume "w \<noteq> 0" and "\<not> (\<exists>i<32. bit w i)"
  then have "w = 0" by (intro bit_word_eqI) auto
  with \<open>w \<noteq> 0\<close> show False by simp
qed

lemma takeWhile_upt_least:
  assumes "P k" and "k < n"
  shows "let m = length (takeWhile (\<lambda>i. \<not> P i) [0..<n]) in m \<le> k \<and> P m \<and> (\<forall>j<m. \<not> P j)"
proof -
  let ?tw = "takeWhile (\<lambda>i. \<not> P i) [0..<n]"
  have le: "length ?tw \<le> n"
    using length_takeWhile_le [of "\<lambda>i. \<not> P i" "[0..<n]"] by simp
  have below: "\<not> P j" if "j < length ?tw" for j
    using that nth_length_takeWhile set_takeWhileD [of j "\<lambda>i. \<not> P i" "[0..<n]"]
      takeWhile_nth [OF that] nth_mem [OF that] le by simp
  then have k: "length ?tw \<le> k"
    using assms(1) not_less by blast
  then have "P (length ?tw)"
    using nth_length_takeWhile [of "\<lambda>i. \<not> P i" "[0..<n]"] assms(2) by simp
  with k below show ?thesis by (simp add: Let_def)
qed

lemma builtin_ctz_props:
  assumes "w \<noteq> 0"
  shows "builtin_ctz w < 32" and "bit w (builtin_ctz w)" and "\<And>j. j < builtin_ctz w \<Longrightarrow> \<not> bit w j"
proof -
  obtain k where "k < 32" "bit w k"
    using word_nonzero_bit [OF assms] by blast
  then have "builtin_ctz w \<le> k \<and> bit w (builtin_ctz w) \<and> (\<forall>j<builtin_ctz w. \<not> bit w j)"
    using takeWhile_upt_least [of "bit w" k 32] by (simp add: builtin_ctz_def Let_def)
  with \<open>k < 32\<close> show "builtin_ctz w < 32" "bit w (builtin_ctz w)"
    "\<And>j. j < builtin_ctz w \<Longrightarrow> \<not> bit w j"
    by auto
qed

lemma builtin_ctz_le: "bit w j \<Longrightarrow> builtin_ctz w \<le> j"
  by (metis builtin_ctz_props(3) bit_0_eq bot_apply bot_bool_def not_less)

end
