(* ===== verification/Intrusive_List.thy ===== *)
theory Intrusive_List
  imports Jlos_Prelude
begin

text \<open>
  \<^verbatim>\<open>dsa/list.h\<close> and \<^verbatim>\<open>dsa/list_lru.h\<close>: circular doubly linked lists whose
  nodes are embedded in other structures. The store maps the address of every
  \<open>jlos_list_head_t\<close> to its two pointers; an operation is the sequence of its pointer
  assignments. The predicate \<open>dll\<close> relates a head and the store to a list of
  addresses, and every operation refines one operation on that list.
\<close>

section \<open>Model\<close>

record 'a list_store =
  nxt :: "'a \<Rightarrow> 'a"
  prv :: "'a \<Rightarrow> 'a"

definition set_next :: "'a \<Rightarrow> 'a \<Rightarrow> 'a list_store \<Rightarrow> 'a list_store" where
  "set_next p v s = s\<lparr>nxt := (nxt s)(p := v)\<rparr>"

definition set_prev :: "'a \<Rightarrow> 'a \<Rightarrow> 'a list_store \<Rightarrow> 'a list_store" where
  "set_prev p v s = s\<lparr>prv := (prv s)(p := v)\<rparr>"

definition jlos_list_init :: "'a \<Rightarrow> 'a list_store \<Rightarrow> 'a list_store" where
  "jlos_list_init h s = set_prev h h (set_next h h s)"

definition jlos_list_empty :: "'a list_store \<Rightarrow> 'a \<Rightarrow> bool" where
  "jlos_list_empty s h \<longleftrightarrow> nxt s h = h"

definition jlos_list_add_1 :: "'a \<Rightarrow> 'a \<Rightarrow> 'a \<Rightarrow> 'a list_store \<Rightarrow> 'a list_store" where
  "jlos_list_add_1 add prev next s =
     (let s = set_prev next add s;
          s = set_next add next s;
          s = set_prev add prev s
      in set_next prev add s)"

definition jlos_list_add :: "'a \<Rightarrow> 'a \<Rightarrow> 'a list_store \<Rightarrow> 'a list_store" where
  "jlos_list_add add head s = jlos_list_add_1 add head (nxt s head) s"

definition jlos_list_add_tail :: "'a \<Rightarrow> 'a \<Rightarrow> 'a list_store \<Rightarrow> 'a list_store" where
  "jlos_list_add_tail add head s = jlos_list_add_1 add (prv s head) head s"

definition jlos_list_del_1 :: "'a \<Rightarrow> 'a \<Rightarrow> 'a list_store \<Rightarrow> 'a list_store" where
  "jlos_list_del_1 prev next s = set_next prev next (set_prev next prev s)"

definition jlos_list_del :: "'a \<Rightarrow> 'a list_store \<Rightarrow> 'a list_store" where
  "jlos_list_del entry s =
     (let s = jlos_list_del_1 (prv s entry) (nxt s entry) s;
          s = set_next entry entry s
      in set_prev entry entry s)"

definition jlos_list_del_init :: "'a \<Rightarrow> 'a list_store \<Rightarrow> 'a list_store" where
  "jlos_list_del_init entry s =
     jlos_list_init entry (jlos_list_del_1 (prv s entry) (nxt s entry) s)"

definition jlos_list_move :: "'a \<Rightarrow> 'a \<Rightarrow> 'a list_store \<Rightarrow> 'a list_store" where
  "jlos_list_move entry head s =
     jlos_list_add entry head (jlos_list_del_1 (prv s entry) (nxt s entry) s)"

definition jlos_list_move_tail :: "'a \<Rightarrow> 'a \<Rightarrow> 'a list_store \<Rightarrow> 'a list_store" where
  "jlos_list_move_tail entry head s =
     jlos_list_add_tail entry head (jlos_list_del_1 (prv s entry) (nxt s entry) s)"

definition jlos_list_is_first :: "'a list_store \<Rightarrow> 'a \<Rightarrow> 'a \<Rightarrow> bool" where
  "jlos_list_is_first s entry head \<longleftrightarrow> prv s entry = head"

definition jlos_list_is_last :: "'a list_store \<Rightarrow> 'a \<Rightarrow> 'a \<Rightarrow> bool" where
  "jlos_list_is_last s entry head \<longleftrightarrow> nxt s entry = head"

text \<open>
  The iteration macros visit the nodes from \<open>head->next\<close> (or \<open>head->prev\<close>) until
  they meet the head again; on a store that is no ring they never do, so the walk
  is a partial function and \<open>None\<close> is the walk that does not end.
\<close>

partial_function (option) list_for_each_from ::
  "('a \<Rightarrow> 'a) \<Rightarrow> 'a \<Rightarrow> 'a \<Rightarrow> 'a list option" where
  "list_for_each_from step head pos =
     (if pos = head then Some []
      else Option.bind (list_for_each_from step head (step pos)) (\<lambda>ps. Some (pos # ps)))"

definition jlos_list_for_each :: "'a list_store \<Rightarrow> 'a \<Rightarrow> 'a list option" where
  "jlos_list_for_each s head = list_for_each_from (nxt s) head (nxt s head)"

definition jlos_list_for_each_prev :: "'a list_store \<Rightarrow> 'a \<Rightarrow> 'a list option" where
  "jlos_list_for_each_prev s head = list_for_each_from (prv s) head (prv s head)"

text \<open>
  \<open>jlos_list_for_each_safe\<close> reads \<open>n = pos->next\<close> before the body runs, so the body
  may unlink \<open>pos\<close>. The body is a function on a larger state that contains the
  store; \<open>lst\<close> projects the store out of it. The fuel bounds the number of rounds.
\<close>

fun list_for_each_safe ::
  "nat \<Rightarrow> ('s \<Rightarrow> 'a list_store) \<Rightarrow> ('a \<Rightarrow> 's \<Rightarrow> 's) \<Rightarrow> 'a \<Rightarrow> 'a \<Rightarrow> 'a \<Rightarrow> 's \<Rightarrow> 's option" where
  "list_for_each_safe fuel lst body head pos n st =
     (if pos = head then Some st
      else case fuel of 0 \<Rightarrow> None
      | Suc fuel' \<Rightarrow>
          (let st' = body pos st
           in list_for_each_safe fuel' lst body head n (nxt (lst st') n) st'))"

declare list_for_each_safe.simps [simp del]

section \<open>Rings as lists\<close>

text \<open>
  \<open>seg s a xs b\<close>: the forward pointers lead from \<open>a\<close> through \<open>xs\<close> to \<open>b\<close> and the
  backward pointers lead back.
\<close>

fun seg :: "'a list_store \<Rightarrow> 'a \<Rightarrow> 'a list \<Rightarrow> 'a \<Rightarrow> bool" where
  "seg s a [] b \<longleftrightarrow> nxt s a = b \<and> prv s b = a"
| "seg s a (x # xs) b \<longleftrightarrow> nxt s a = x \<and> prv s x = a \<and> seg s x xs b"

definition dll :: "'a list_store \<Rightarrow> 'a \<Rightarrow> 'a list \<Rightarrow> bool" where
  "dll s h xs \<longleftrightarrow> distinct (h # xs) \<and> seg s h xs h"

definition agree_on :: "'a set \<Rightarrow> 'a list_store \<Rightarrow> 'a list_store \<Rightarrow> bool" where
  "agree_on A s s' \<longleftrightarrow> (\<forall>a\<in>A. nxt s' a = nxt s a \<and> prv s' a = prv s a)"

lemmas list_op_defs = jlos_list_init_def jlos_list_add_1_def jlos_list_add_def
  jlos_list_add_tail_def jlos_list_del_1_def jlos_list_del_def jlos_list_del_init_def
  jlos_list_move_def jlos_list_move_tail_def set_next_def set_prev_def Let_def

lemma seg_append:
  "seg s a (xs @ y # ys) b \<longleftrightarrow> seg s a xs y \<and> seg s y ys b"
  by (induction xs arbitrary: a) auto

lemma seg_cong:
  assumes "\<And>z. z \<in> insert a (set xs) \<Longrightarrow> nxt s' z = nxt s z"
    and "\<And>z. z \<in> insert b (set xs) \<Longrightarrow> prv s' z = prv s z"
  shows "seg s' a xs b \<longleftrightarrow> seg s a xs b"
  using assms by (induction xs arbitrary: a) auto

lemma dll_cong: "agree_on (set (h # xs)) s s' \<Longrightarrow> dll s' h xs \<longleftrightarrow> dll s h xs"
  unfolding dll_def agree_on_def by (intro conj_cong refl seg_cong) auto

lemma seg_next_set: "seg s a xs b \<Longrightarrow> nxt s a \<in> insert b (set xs)"
  by (cases xs) auto

lemma seg_prev_set: "seg s a xs b \<Longrightarrow> prv s b \<in> insert a (set xs)"
  by (induction xs arbitrary: a) auto

lemma seg_last: "seg s a xs b \<Longrightarrow> prv s b = (if xs = [] then a else last xs)"
  by (induction xs arbitrary: a) auto

lemma dll_first: "dll s h xs \<Longrightarrow> nxt s h = (if xs = [] then h else hd xs)"
  by (cases xs) (auto simp: dll_def)

lemma dll_last: "dll s h xs \<Longrightarrow> prv s h = (if xs = [] then h else last xs)"
  by (auto simp: dll_def dest: seg_last)

lemma dll_neighbours:
  assumes "dll s h xs" and "x \<in> set xs"
  shows "nxt s x \<in> set (h # xs)" and "prv s x \<in> set (h # xs)"
proof -
  obtain ys zs where xs: "xs = ys @ x # zs"
    using assms(2) by (rule in_set_split)
  have "seg s h ys x" "seg s x zs h"
    using assms(1) by (auto simp: dll_def xs seg_append)
  then show "nxt s x \<in> set (h # xs)" "prv s x \<in> set (h # xs)"
    using seg_next_set seg_prev_set by (force simp: xs)+
qed


section \<open>The operations refine list operations\<close>

lemma dll_init [inv_intros]: "dll (jlos_list_init h s) h []"
  by (simp add: dll_def list_op_defs)

lemma dll_empty_iff: "dll s h xs \<Longrightarrow> jlos_list_empty s h \<longleftrightarrow> xs = []"
  by (cases xs) (auto simp: dll_def jlos_list_empty_def)

lemma dll_add [inv_intros]:
  assumes "dll s h xs" and "x \<notin> set (h # xs)"
  shows "dll (jlos_list_add x h s) h (x # xs)"
proof (cases xs)
  case Nil
  with assms show ?thesis by (auto simp: dll_def list_op_defs)
next
  case (Cons y ys)
  with assms have "nxt s h = y" "seg s y ys h" "distinct (h # y # ys)" "x \<notin> set (h # y # ys)"
    by (auto simp: dll_def)
  moreover from this have "seg (jlos_list_add x h s) y ys h"
    by (subst seg_cong [of y ys _ s h]) (auto simp: list_op_defs)
  ultimately show ?thesis
    by (auto simp: dll_def Cons list_op_defs)
qed

lemma dll_add_tail [inv_intros]:
  assumes "dll s h xs" and "x \<notin> set (h # xs)"
  shows "dll (jlos_list_add_tail x h s) h (xs @ [x])"
proof (cases xs rule: rev_cases)
  case Nil
  with assms show ?thesis by (auto simp: dll_def list_op_defs)
next
  case (snoc ys y)
  with assms have a: "prv s h = y" "seg s h ys y" "distinct (h # y # ys)" "x \<notin> set (h # y # ys)"
    by (auto simp: dll_def seg_append)
  then have "seg (jlos_list_add_tail x h s) h ys y"
    by (subst seg_cong [of h ys _ s y]) (auto simp: list_op_defs)
  with a show ?thesis
    by (auto simp: dll_def snoc seg_append list_op_defs)
qed

text \<open>Unlinking is the core of every removal.\<close>

lemma dll_del_1:
  assumes "dll s h (ys @ x # zs)"
  shows "dll (jlos_list_del_1 (prv s x) (nxt s x) s) h (ys @ zs)"
proof -
  let ?s = "jlos_list_del_1 (prv s x) (nxt s x) s"
  have d: "distinct (h # ys @ x # zs)" and a: "seg s h ys x" and b: "seg s x zs h"
    using assms by (auto simp: dll_def seg_append)
  show ?thesis
  proof (cases zs)
    case Nil
    then have n: "nxt s x = h" using b by simp
    show ?thesis
    proof (cases ys rule: rev_cases)
      case Nil
      with a n d \<open>zs = []\<close> show ?thesis by (auto simp: dll_def list_op_defs)
    next
      case (snoc us u)
      with a have p: "prv s x = u" "seg s h us u" by (auto simp: seg_append)
      then have "seg ?s h us u"
        using d snoc n by (subst seg_cong [of h us _ s u]) (auto simp: list_op_defs)
      with p n d \<open>zs = []\<close> snoc show ?thesis
        by (auto simp: dll_def seg_append list_op_defs)
    qed
  next
    case (Cons v vs)
    then have n: "nxt s x = v" "seg s v vs h" using b by auto
    show ?thesis
    proof (cases ys rule: rev_cases)
      case Nil
      with a have p: "prv s x = h" by simp
      have "seg ?s v vs h"
        using n d Nil p Cons by (subst seg_cong [of v vs _ s h]) (auto simp: list_op_defs)
      with n p d Nil Cons show ?thesis by (auto simp: dll_def list_op_defs)
    next
      case (snoc us u)
      with a have p: "prv s x = u" "seg s h us u" by (auto simp: seg_append)
      have "seg ?s v vs h"
        using n d snoc p Cons by (subst seg_cong [of v vs _ s h]) (auto simp: list_op_defs)
      moreover have "seg ?s h us u"
        using n d snoc p Cons by (subst seg_cong [of h us _ s u]) (auto simp: list_op_defs)
      ultimately show ?thesis
        using n p d snoc Cons by (auto simp: dll_def seg_append list_op_defs)
    qed
  qed
qed

lemma del_eq_del_init: "jlos_list_del x s = jlos_list_del_init x s"
  by (simp add: jlos_list_del_def jlos_list_del_init_def jlos_list_init_def Let_def)

lemma dll_del_init [inv_intros]:
  assumes "dll s h xs" and "x \<in> set xs"
  shows "dll (jlos_list_del_init x s) h (remove1 x xs)"
    and "dll (jlos_list_del_init x s) x []"
proof -
  obtain ys zs where xs: "xs = ys @ x # zs"
    using assms(2) by (rule in_set_split)
  let ?s = "jlos_list_del_1 (prv s x) (nxt s x) s"
  have d: "distinct (h # ys @ x # zs)"
    using assms(1) by (simp add: dll_def xs)
  have "dll ?s h (ys @ zs)"
    using assms(1) by (simp add: xs dll_del_1)
  then have "dll (jlos_list_init x ?s) h (ys @ zs)"
    using d by (subst dll_cong [of h "ys @ zs" ?s]) (auto simp: agree_on_def list_op_defs)
  moreover have "remove1 x xs = ys @ zs"
    using d by (simp add: xs remove1_append)
  ultimately show "dll (jlos_list_del_init x s) h (remove1 x xs)"
    by (simp add: jlos_list_del_init_def)
  show "dll (jlos_list_del_init x s) x []"
    by (simp add: jlos_list_del_init_def dll_init)
qed

lemmas dll_del [inv_intros] = dll_del_init [folded del_eq_del_init]

lemma dll_move [inv_intros]:
  assumes "dll s h xs" and "x \<in> set xs"
  shows "dll (jlos_list_move x h s) h (x # remove1 x xs)"
proof -
  obtain ys zs where xs: "xs = ys @ x # zs"
    using assms(2) by (rule in_set_split)
  have "dll (jlos_list_del_1 (prv s x) (nxt s x) s) h (ys @ zs)"
    using assms(1) by (simp add: xs dll_del_1)
  moreover have "x \<notin> set (h # ys @ zs)" "remove1 x xs = ys @ zs"
    using assms(1) by (auto simp: dll_def xs remove1_append)
  ultimately show ?thesis
    by (simp add: jlos_list_move_def dll_add)
qed

lemma dll_move_tail [inv_intros]:
  assumes "dll s h xs" and "x \<in> set xs"
  shows "dll (jlos_list_move_tail x h s) h (remove1 x xs @ [x])"
proof -
  obtain ys zs where xs: "xs = ys @ x # zs"
    using assms(2) by (rule in_set_split)
  have "dll (jlos_list_del_1 (prv s x) (nxt s x) s) h (ys @ zs)"
    using assms(1) by (simp add: xs dll_del_1)
  moreover have "x \<notin> set (h # ys @ zs)" "remove1 x xs = ys @ zs"
    using assms(1) by (auto simp: dll_def xs remove1_append)
  ultimately show ?thesis
    using dll_add_tail [of _ h "ys @ zs" x] by (simp add: jlos_list_move_tail_def)
qed

section \<open>Frame: other rings are untouched\<close>

lemma agree_add_1:
  "A \<inter> {x, p, q} = {} \<Longrightarrow> agree_on A s (jlos_list_add_1 x p q s)"
  by (auto simp: agree_on_def list_op_defs)

lemma agree_del_1:
  "A \<inter> {p, q} = {} \<Longrightarrow> agree_on A s (jlos_list_del_1 p q s)"
  by (auto simp: agree_on_def list_op_defs)

lemma agree_trans: "agree_on A s t \<Longrightarrow> agree_on A t u \<Longrightarrow> agree_on A s u"
  by (auto simp: agree_on_def)

lemma agree_add [frame_simps]:
  assumes "dll s h xs" and "A \<inter> insert x (set (h # xs)) = {}"
  shows "agree_on A s (jlos_list_add x h s)"
  using assms dll_first [OF assms(1)]
  by (auto simp: jlos_list_add_def split: if_splits intro!: agree_add_1)

lemma agree_add_tail [frame_simps]:
  assumes "dll s h xs" and "A \<inter> insert x (set (h # xs)) = {}"
  shows "agree_on A s (jlos_list_add_tail x h s)"
  using assms dll_last [OF assms(1)]
  by (auto simp: jlos_list_add_tail_def split: if_splits intro!: agree_add_1)

lemma agree_del_init [frame_simps]:
  assumes "dll s h xs" and "x \<in> set xs" and "A \<inter> set (h # xs) = {}"
  shows "agree_on A s (jlos_list_del_init x s)"
proof -
  have "prv s x \<in> set (h # xs)" "nxt s x \<in> set (h # xs)"
    using dll_neighbours [OF assms(1,2)] by auto
  then have "agree_on A s (jlos_list_del_1 (prv s x) (nxt s x) s)"
    using assms(3) by (intro agree_del_1) blast
  moreover have "agree_on A t (jlos_list_init x t)" for t
    using assms(2,3) by (auto simp: agree_on_def list_op_defs)
  ultimately show ?thesis
    unfolding jlos_list_del_init_def by (rule agree_trans)
qed

section \<open>Iteration\<close>

lemma seg_walk:
  "seg s a xs b \<Longrightarrow> b \<notin> set xs \<Longrightarrow> list_for_each_from (nxt s) b (nxt s a) = Some xs"
proof (induction xs arbitrary: a)
  case Nil
  then show ?case by (simp add: list_for_each_from.simps)
next
  case (Cons x xs)
  then have "list_for_each_from (nxt s) b (nxt s x) = Some xs" by simp
  with Cons.prems show ?case
    by (subst list_for_each_from.simps) auto
qed

lemma seg_walk_prev:
  "seg s a xs b \<Longrightarrow> a \<notin> set xs \<Longrightarrow> list_for_each_from (prv s) a (prv s b) = Some (rev xs)"
proof (induction xs arbitrary: b rule: rev_induct)
  case Nil
  then show ?case by (simp add: list_for_each_from.simps)
next
  case (snoc x xs)
  then have "list_for_each_from (prv s) a (prv s x) = Some (rev xs)"
    by (simp add: seg_append)
  with snoc.prems show ?case
    by (subst list_for_each_from.simps) (auto simp: seg_append)
qed


lemma dll_for_each: "dll s h xs \<Longrightarrow> jlos_list_for_each s h = Some xs"
  by (auto simp: dll_def jlos_list_for_each_def intro: seg_walk)

lemma dll_for_each_prev: "dll s h xs \<Longrightarrow> jlos_list_for_each_prev s h = Some (rev xs)"
  by (auto simp: dll_def jlos_list_for_each_prev_def intro: seg_walk_prev)

text \<open>
  The safe iteration with a body that unlinks the node it is called on: it visits
  every node once, in order, and ends with the ring empty.
\<close>

lemma dll_for_each_safe_drain:
  assumes step: "\<And>p ps st. I st \<Longrightarrow> dll (lst st) h (p # ps) \<Longrightarrow>
      I (body p st) \<and> dll (lst (body p st)) h ps"
    and "I st" and "dll (lst st) h xs" and "length xs \<le> fuel"
  shows "list_for_each_safe fuel lst body h (nxt (lst st) h) (nxt (lst st) (nxt (lst st) h)) st
           = Some (fold body xs st)
         \<and> I (fold body xs st) \<and> dll (lst (fold body xs st)) h []"
  using assms(2-)
proof (induction xs arbitrary: st fuel)
  case Nil
  then have "nxt (lst st) h = h" by (simp add: dll_def)
  with Nil show ?case by (simp add: list_for_each_safe.simps)
next
  case (Cons x xs)
  then obtain fuel' where f: "fuel = Suc fuel'" by (cases fuel) auto
  let ?st = "body x st"
  have st': "I ?st" "dll (lst ?st) h xs"
    using step Cons.prems by blast+
  have pos: "nxt (lst st) h = x" "x \<noteq> h"
    using Cons.prems(2) by (auto simp: dll_def)
  have n: "nxt (lst st) x = nxt (lst ?st) h"
    using Cons.prems(2) dll_first [OF st'(2)] by (cases xs) (auto simp: dll_def)
  show ?case
    using Cons.IH [OF st', of fuel'] Cons.prems(3) pos n f
    by (subst list_for_each_safe.simps) (simp add: Let_def)
qed

section \<open>LRU lists\<close>

record 'a list_lru =
  lru_list :: 'a
  lru_count :: u32

text \<open>
  The \<open>list\<close> field of \<open>jlos_list_lru_t\<close> is its own head, so the field is the address
  of that head; \<open>count\<close> is the 32-bit counter of the structure.
\<close>

definition jlos_list_lru_init ::
  "'a list_lru \<Rightarrow> 'a list_store \<Rightarrow> 'a list_lru \<times> 'a list_store" where
  "jlos_list_lru_init lru s = (lru\<lparr>lru_count := 0\<rparr>, jlos_list_init (lru_list lru) s)"

definition jlos_list_lru_add_tail ::
  "'a list_lru \<Rightarrow> 'a \<Rightarrow> 'a list_store \<Rightarrow> 'a list_lru \<times> 'a list_store" where
  "jlos_list_lru_add_tail lru node s =
     (lru\<lparr>lru_count := lru_count lru + 1\<rparr>, jlos_list_add_tail node (lru_list lru) s)"

definition jlos_list_lru_del ::
  "'a list_lru \<Rightarrow> 'a \<Rightarrow> 'a list_store \<Rightarrow> 'a list_lru \<times> 'a list_store" where
  "jlos_list_lru_del lru node s =
     (lru\<lparr>lru_count := lru_count lru - 1\<rparr>, jlos_list_del_init node s)"

definition jlos_list_lru_is_empty :: "'a list_lru \<Rightarrow> bool" where
  "jlos_list_lru_is_empty lru \<longleftrightarrow> lru_count lru = 0"

definition jlos_list_lru_evict ::
  "'a list_lru \<Rightarrow> 'a list_store \<Rightarrow> 'a option \<times> 'a list_lru \<times> 'a list_store" where
  "jlos_list_lru_evict lru s =
     (if jlos_list_empty s (lru_list lru) then (None, lru, s)
      else let victim = nxt s (lru_list lru)
           in (Some victim, lru\<lparr>lru_count := lru_count lru - 1\<rparr>, jlos_list_del_init victim s))"

definition lru_rep :: "'a list_lru \<Rightarrow> 'a list_store \<Rightarrow> 'a list \<Rightarrow> bool" where
  "lru_rep lru s xs \<longleftrightarrow> dll s (lru_list lru) xs \<and> lru_count lru = of_nat (length xs)
     \<and> length xs < 2 ^ 32"

lemma lru_init_rep: "case jlos_list_lru_init lru s of (l, t) \<Rightarrow> lru_rep l t []"
  by (simp add: jlos_list_lru_init_def lru_rep_def dll_init)

lemma lru_add_tail_rep:
  assumes "lru_rep lru s xs" and "x \<notin> set (lru_list lru # xs)" and "length xs + 1 < 2 ^ 32"
  shows "case jlos_list_lru_add_tail lru x s of (l, t) \<Rightarrow> lru_rep l t (xs @ [x])"
  using assms by (simp add: jlos_list_lru_add_tail_def lru_rep_def dll_add_tail)

lemma lru_del_rep:
  assumes "lru_rep lru s xs" and "x \<in> set xs"
  shows "case jlos_list_lru_del lru x s of (l, t) \<Rightarrow> lru_rep l t (remove1 x xs)"
proof -
  from assms(2) obtain n where "length xs = Suc n"
    by (cases xs) auto
  with assms show ?thesis
    by (simp add: jlos_list_lru_del_def lru_rep_def dll_del_init length_remove1)
qed

lemma lru_is_empty_iff: "lru_rep lru s xs \<Longrightarrow> jlos_list_lru_is_empty lru \<longleftrightarrow> xs = []"
  by (auto simp: lru_rep_def jlos_list_lru_is_empty_def unat_of_nat word_of_nat_eq_0_iff
      dest: dvd_imp_le)

lemma lru_evict_Nil:
  "lru_rep lru s [] \<Longrightarrow> jlos_list_lru_evict lru s = (None, lru, s)"
  using dll_empty_iff by (fastforce simp: lru_rep_def jlos_list_lru_evict_def)

lemma lru_evict_Cons:
  assumes "lru_rep lru s (x # xs)"
  shows "\<exists>l t. jlos_list_lru_evict lru s = (Some x, l, t) \<and> lru_rep l t xs"
proof -
  have d: "dll s (lru_list lru) (x # xs)"
    using assms by (simp add: lru_rep_def)
  then have "\<not> jlos_list_empty s (lru_list lru)" "nxt s (lru_list lru) = x"
    using dll_empty_iff dll_first by fastforce+
  moreover have "dll (jlos_list_del_init x s) (lru_list lru) xs"
    using dll_del_init(1) [OF d, of x] by simp
  ultimately show ?thesis
    using assms by (simp add: jlos_list_lru_evict_def lru_rep_def Let_def)
qed


section \<open>The queue interface\<close>

text \<open>
  Wait queues, run queues and LRU lists all use a list as a first-in first-out
  queue: nodes are linked at the tail and taken from the head. \<open>fifo_queue\<close> states
  that contract; \<open>admit n xs\<close> is what a client must guarantee before it links \<open>n\<close>
  into a queue that holds \<open>xs\<close> (for an intrusive list: the node is in no ring).
\<close>

fun dequeue_many :: "('s \<Rightarrow> 'n option \<times> 's) \<Rightarrow> nat \<Rightarrow> 's \<Rightarrow> 'n list \<times> 's" where
  "dequeue_many deq 0 s = ([], s)"
| "dequeue_many deq (Suc k) s =
     (case deq s of
        (None, s') \<Rightarrow> ([], s')
      | (Some n, s') \<Rightarrow> (case dequeue_many deq k s' of (ns, t) \<Rightarrow> (n # ns, t)))"

fun admits :: "('n \<Rightarrow> 'n list \<Rightarrow> bool) \<Rightarrow> 'n list \<Rightarrow> 'n list \<Rightarrow> bool" where
  "admits admit xs [] \<longleftrightarrow> True"
| "admits admit xs (n # ns) \<longleftrightarrow> admit n xs \<and> admits admit (xs @ [n]) ns"

locale fifo_queue =
  fixes enq :: "'n \<Rightarrow> 's \<Rightarrow> 's"
    and deq :: "'s \<Rightarrow> 'n option \<times> 's"
    and rep :: "'s \<Rightarrow> 'n list \<Rightarrow> bool"
    and admit :: "'n \<Rightarrow> 'n list \<Rightarrow> bool"
  assumes enq_rep: "rep s xs \<Longrightarrow> admit n xs \<Longrightarrow> rep (enq n s) (xs @ [n])"
    and deq_Nil: "rep s [] \<Longrightarrow> deq s = (None, s)"
    and deq_Cons: "rep s (x # xs) \<Longrightarrow> \<exists>t. deq s = (Some x, t) \<and> rep t xs"
begin

lemma enq_all_rep: "rep s xs \<Longrightarrow> admits admit xs ns \<Longrightarrow> rep (fold enq ns s) (xs @ ns)"
proof (induction ns arbitrary: s xs)
  case Nil
  then show ?case by simp
next
  case (Cons n ns)
  then have "rep (enq n s) (xs @ [n])" "admits admit (xs @ [n]) ns"
    by (auto intro: enq_rep)
  then have "rep (fold enq ns (enq n s)) ((xs @ [n]) @ ns)"
    by (rule Cons.IH)
  then show ?case by simp
qed

lemma deq_all_rep: "rep s xs \<Longrightarrow> \<exists>t. dequeue_many deq (length xs) s = (xs, t) \<and> rep t []"
proof (induction xs arbitrary: s)
  case Nil
  then show ?case by simp
next
  case (Cons x xs)
  then obtain t where t: "deq s = (Some x, t)" "rep t xs"
    using deq_Cons by blast
  then show ?case using Cons.IH [of t] by auto
qed

lemma fifo_order:
  assumes "rep s xs" and "admits admit xs ns"
  shows "\<exists>t. dequeue_many deq (length xs + length ns) (fold enq ns s) = (xs @ ns, t) \<and> rep t []"
  using deq_all_rep [OF enq_all_rep [OF assms]] by simp

end

definition lru_push :: "'a \<Rightarrow> 'a list_lru \<times> 'a list_store \<Rightarrow> 'a list_lru \<times> 'a list_store" where
  "lru_push n st = (case st of (l, t) \<Rightarrow> jlos_list_lru_add_tail l n t)"

definition lru_pop ::
  "'a list_lru \<times> 'a list_store \<Rightarrow> 'a option \<times> 'a list_lru \<times> 'a list_store" where
  "lru_pop st = (case st of (l, t) \<Rightarrow> jlos_list_lru_evict l t)"

lemma lru_head_add_tail: "lru_list (fst (jlos_list_lru_add_tail l n t)) = lru_list l"
  by (simp add: jlos_list_lru_add_tail_def)

lemma lru_head_evict: "jlos_list_lru_evict l t = (v, l', t') \<Longrightarrow> lru_list l' = lru_list l"
  by (auto simp: jlos_list_lru_evict_def Let_def split: if_splits)

interpretation lru: fifo_queue lru_push lru_pop
  "\<lambda>st xs. lru_list (fst st) = h \<and> lru_rep (fst st) (snd st) xs"
  "\<lambda>n xs. n \<notin> set (h # xs) \<and> length xs + 1 < 2 ^ 32" for h
proof (unfold_locales, goal_cases)
  case (1 s xs n)
  then show ?case
    using lru_add_tail_rep [of "fst s" "snd s" xs n]
    by (cases s) (auto simp: lru_push_def jlos_list_lru_add_tail_def)
next
  case (2 s)
  then show ?case by (cases s) (simp add: lru_pop_def lru_evict_Nil)
next
  case (3 s x xs)
  then obtain l t where "jlos_list_lru_evict (fst s) (snd s) = (Some x, l, t)" "lru_rep l t xs"
    using lru_evict_Cons [of "fst s" "snd s" x xs] by auto
  with 3 show ?case
    using lru_head_evict by (cases s) (fastforce simp: lru_pop_def)
qed

section \<open>Properties\<close>

text \<open>
  C33: moving a node to the tail of a well-formed circular list keeps every other node in
  its order and puts the node last, and walking the list forwards and backwards ends and
  visits exactly these nodes.
\<close>

theorem list_move_tail_walks:
  assumes "dll s h xs" and "x \<in> set xs"
  shows "jlos_list_for_each (jlos_list_move_tail x h s) h = Some (remove1 x xs @ [x])
     \<and> jlos_list_for_each_prev (jlos_list_move_tail x h s) h = Some (x # rev (remove1 x xs))"
  using dll_for_each [OF dll_move_tail [OF assms]] dll_for_each_prev [OF dll_move_tail [OF assms]] by simp

definition list_demo :: "nat list_store" where
  "list_demo = jlos_list_add_tail 3 0 (jlos_list_add_tail 2 0 (jlos_list_add_tail 1 0
     (jlos_list_init 0 \<lparr>nxt = \<lambda>_. 9, prv = \<lambda>_. 9\<rparr>)))"

lemma dll_list_demo: "dll list_demo 0 [1, 2, 3]"
proof -
  have "dll list_demo 0 ((([] @ [1]) @ [2]) @ [3])"
    unfolding list_demo_def by (intro inv_intros) auto
  then show ?thesis by simp
qed

theorem list_move_tail_walks_witness:
  "jlos_list_for_each (jlos_list_move_tail 2 0 list_demo) 0 = Some [1, 3, 2]
     \<and> jlos_list_for_each_prev (jlos_list_move_tail 2 0 list_demo) 0 = Some [2, 3, 1]"
  using list_move_tail_walks [OF dll_list_demo, of 2] by simp

text \<open>
  C34: an LRU list gives its nodes back in the order in which they were added: after
  adding \<open>ns\<close> to a list that holds \<open>xs\<close>, the evictions return \<open>xs @ ns\<close> and leave it empty.
\<close>

theorem lru_evicts_in_order:
  assumes "lru_rep l t xs" and "admits (\<lambda>n ys. n \<notin> set (lru_list l # ys) \<and> length ys + 1 < 2 ^ 32) xs ns"
  shows "\<exists>l' t'. dequeue_many lru_pop (length xs + length ns) (fold lru_push ns (l, t)) = (xs @ ns, (l', t'))
     \<and> lru_rep l' t' []"
proof -
  have "lru_list (fst (l, t)) = lru_list l \<and> lru_rep (fst (l, t)) (snd (l, t)) xs" using assms(1) by simp
  from lru.fifo_order [OF this assms(2)] show ?thesis by force
qed

theorem lru_evicts_in_order_witness:
  "let (l, t) = jlos_list_lru_init \<lparr>lru_list = 0, lru_count = 5\<rparr> \<lparr>nxt = \<lambda>_. 9, prv = \<lambda>_. 9\<rparr>
   in \<exists>l' t'. dequeue_many lru_pop 3 (fold lru_push [7, 8, 3] (l, t)) = ([7, 8, 3 :: nat], (l', t'))
     \<and> lru_rep l' t' []"
proof -
  obtain l t where lt: "jlos_list_lru_init \<lparr>lru_list = 0 :: nat, lru_count = 5\<rparr> \<lparr>nxt = \<lambda>_. 9, prv = \<lambda>_. 9\<rparr> = (l, t)"
    by (cases "jlos_list_lru_init \<lparr>lru_list = 0 :: nat, lru_count = 5\<rparr> \<lparr>nxt = \<lambda>_. 9, prv = \<lambda>_. 9\<rparr>")
  then have "lru_rep l t []" "lru_list l = 0"
    using lru_init_rep [of "\<lparr>lru_list = 0 :: nat, lru_count = 5\<rparr>" "\<lparr>nxt = \<lambda>_. 9, prv = \<lambda>_. 9\<rparr>"]
    by (auto simp: jlos_list_lru_init_def)
  then show ?thesis
    using lru_evicts_in_order [of l t "[]" "[7, 8, 3]"] by (simp add: lt numeral_3_eq_3)
qed

end
