(* ===== verification/C_Types.thy ===== *)
theory C_Types
  imports Jlos_Prelude
begin

text \<open>
  \<^verbatim>\<open>common/types.c\<close> and \<^verbatim>\<open>common/lib/udivdi3.c\<close>: the freestanding memory and string
  routines, the population count and the 64-bit division the compiler calls on
  32-bit targets. Memory is a function from addresses to bytes; words are stored
  little-endian, as on both supported architectures. A string loop that meets no
  terminator does not return, which is the value \<open>None\<close>.
\<close>

type_synonym mem = "nat \<Rightarrow> u8"

section \<open>Memory fill and copy\<close>

definition load32 :: "mem \<Rightarrow> nat \<Rightarrow> u32" where
  "load32 m p = ucast (m p) OR push_bit 8 (ucast (m (p + 1)))
     OR push_bit 16 (ucast (m (p + 2))) OR push_bit 24 (ucast (m (p + 3)))"

definition store32 :: "mem \<Rightarrow> nat \<Rightarrow> u32 \<Rightarrow> mem" where
  "store32 m p w = m(p := ucast w, p + 1 := ucast (drop_bit 8 w),
     p + 2 := ucast (drop_bit 16 w), p + 3 := ucast (drop_bit 24 w))"

fun memset_head :: "mem \<Rightarrow> nat \<Rightarrow> u8 \<Rightarrow> nat \<Rightarrow> mem \<times> nat \<times> nat" where
  "memset_head m p v sz =
     (if 0 < sz \<and> p mod 4 \<noteq> 0 then memset_head (m(p := v)) (p + 1) v (sz - 1)
      else (m, p, sz))"

fun memset_words :: "mem \<Rightarrow> nat \<Rightarrow> u32 \<Rightarrow> nat \<Rightarrow> mem \<times> nat \<times> nat" where
  "memset_words m p v32 sz =
     (if 4 \<le> sz then memset_words (store32 m p v32) (p + 4) v32 (sz - 4)
      else (m, p, sz))"

fun memset_tail :: "mem \<Rightarrow> nat \<Rightarrow> u8 \<Rightarrow> nat \<Rightarrow> mem" where
  "memset_tail m p v sz =
     (if 0 < sz then memset_tail (m(p := v)) (p + 1) v (sz - 1) else m)"

definition jlos_memset :: "mem \<Rightarrow> nat \<Rightarrow> u8 \<Rightarrow> nat \<Rightarrow> mem" where
  "jlos_memset m ptr v sz =
     (let (m, p, sz) = memset_head m ptr v sz;
          val32 = ucast v OR push_bit 8 (ucast v) OR push_bit 16 (ucast v) OR push_bit 24 (ucast v);
          (m, p, sz) = memset_words m p val32 sz
      in memset_tail m p v sz)"

fun memcpy_head :: "mem \<Rightarrow> nat \<Rightarrow> nat \<Rightarrow> nat \<Rightarrow> mem \<times> nat \<times> nat \<times> nat" where
  "memcpy_head m d s sz =
     (if 0 < sz \<and> d mod 4 \<noteq> 0 then memcpy_head (m(d := m s)) (d + 1) (s + 1) (sz - 1)
      else (m, d, s, sz))"

fun memcpy_words :: "mem \<Rightarrow> nat \<Rightarrow> nat \<Rightarrow> nat \<Rightarrow> mem \<times> nat \<times> nat \<times> nat" where
  "memcpy_words m d s sz =
     (if 4 \<le> sz then memcpy_words (store32 m d (load32 m s)) (d + 4) (s + 4) (sz - 4)
      else (m, d, s, sz))"

fun memcpy_tail :: "mem \<Rightarrow> nat \<Rightarrow> nat \<Rightarrow> nat \<Rightarrow> mem" where
  "memcpy_tail m d s sz =
     (if 0 < sz then memcpy_tail (m(d := m s)) (d + 1) (s + 1) (sz - 1) else m)"

definition jlos_memcpy :: "mem \<Rightarrow> nat \<Rightarrow> nat \<Rightarrow> nat \<Rightarrow> mem" where
  "jlos_memcpy m dst src sz =
     (let (m, d, s, sz) = memcpy_head m dst src sz;
          (m, d, s, sz) = memcpy_words m d s sz
      in memcpy_tail m d s sz)"

fun memmove_back :: "mem \<Rightarrow> nat \<Rightarrow> nat \<Rightarrow> nat \<Rightarrow> mem" where
  "memmove_back m d s n =
     (if 0 < n then memmove_back (m(d - 1 := m (s - 1))) (d - 1) (s - 1) (n - 1) else m)"

definition jlos_memmove :: "mem \<Rightarrow> nat \<Rightarrow> nat \<Rightarrow> nat \<Rightarrow> mem" where
  "jlos_memmove m dst src n =
     (if dst < src then jlos_memcpy m dst src n
      else if src < dst then memmove_back m (dst + n) (src + n) n
      else m)"

fun jlos_memcmp :: "mem \<Rightarrow> nat \<Rightarrow> nat \<Rightarrow> nat \<Rightarrow> int" where
  "jlos_memcmp m pa pb n =
     (if 0 < n then
        (if m pa \<noteq> m pb then uint (m pa) - uint (m pb)
         else jlos_memcmp m (pa + 1) (pb + 1) (n - 1))
      else 0)"

declare memset_head.simps [simp del] memset_words.simps [simp del] memset_tail.simps [simp del]
  memcpy_head.simps [simp del] memcpy_words.simps [simp del] memcpy_tail.simps [simp del]
  memmove_back.simps [simp del] jlos_memcmp.simps [simp del]

section \<open>Strings\<close>

partial_function (option) strlen_loop :: "mem \<Rightarrow> nat \<Rightarrow> nat option" where
  "strlen_loop m p = (if m p \<noteq> 0 then strlen_loop m (p + 1) else Some p)"

definition jlos_strlen :: "mem \<Rightarrow> nat \<Rightarrow> nat option" where
  "jlos_strlen m s = map_option (\<lambda>p. p - s) (strlen_loop m s)"

partial_function (option) jlos_strcmp :: "mem \<Rightarrow> nat \<Rightarrow> nat \<Rightarrow> int option" where
  "jlos_strcmp m a b =
     (if m a \<noteq> 0 \<and> m a = m b then jlos_strcmp m (a + 1) (b + 1)
      else Some (uint (m a) - uint (m b)))"

fun jlos_strncmp :: "mem \<Rightarrow> nat \<Rightarrow> nat \<Rightarrow> nat \<Rightarrow> int" where
  "jlos_strncmp m a b n =
     (if 0 < n \<and> m a \<noteq> 0 \<and> m a = m b then jlos_strncmp m (a + 1) (b + 1) (n - 1)
      else if n = 0 then 0 else uint (m a) - uint (m b))"

declare jlos_strncmp.simps [simp del]

text \<open>The result \<open>Some None\<close> is the null pointer: the character does not occur.\<close>

partial_function (option) jlos_strchr :: "mem \<Rightarrow> nat \<Rightarrow> u8 \<Rightarrow> nat option option" where
  "jlos_strchr m s c =
     (if m s \<noteq> 0 then (if m s = c then Some (Some s) else jlos_strchr m (s + 1) c)
      else if c = 0 then Some (Some s) else Some None)"

text \<open>The copy loop of \<open>strlcpy\<close>: \<open>--nleft\<close> is the loop test, a copied terminator ends it.\<close>

fun strlcpy_loop :: "mem \<Rightarrow> nat \<Rightarrow> nat \<Rightarrow> nat \<Rightarrow> mem \<times> nat \<times> nat \<times> nat" where
  "strlcpy_loop m dst src nleft =
     (let nleft = nleft - 1
      in if nleft = 0 then (m, dst, src, 0)
         else let m' = m(dst := m src)
              in if m src = 0 then (m', dst + 1, src + 1, nleft)
                 else strlcpy_loop m' (dst + 1) (src + 1) nleft)"

declare strlcpy_loop.simps [simp del]

partial_function (option) skip_string :: "mem \<Rightarrow> nat \<Rightarrow> nat option" where
  "skip_string m src = (if m src \<noteq> 0 then skip_string m (src + 1) else Some (src + 1))"

definition jlos_strlcpy :: "mem \<Rightarrow> nat \<Rightarrow> nat \<Rightarrow> nat \<Rightarrow> (mem \<times> nat) option" where
  "jlos_strlcpy m dst src dsize =
     (let (m1, dst1, src1, nleft) =
            (if dsize \<noteq> 0 then strlcpy_loop m dst src dsize else (m, dst, src, 0))
      in if nleft = 0 then
           (let m2 = (if dsize \<noteq> 0 then m1(dst1 := 0) else m1)
            in map_option (\<lambda>e. (m2, e - src - 1)) (skip_string m2 src1))
         else Some (m1, src1 - src - 1))"

section \<open>Arithmetic helpers\<close>

definition jlos_popcount32 :: "u32 \<Rightarrow> u32" where
  "jlos_popcount32 x =
     (let x = x - (drop_bit 1 x AND 0x55555555);
          x = (x AND 0x33333333) + (drop_bit 2 x AND 0x33333333);
          x = (x + drop_bit 4 x) AND 0x0F0F0F0F
      in drop_bit 24 (x * 0x01010101))"

text \<open>
  The alignment loop of the division runs forever on a zero divisor, which the
  callers exclude; the subtraction loop moves \<open>bit\<close> down to zero.
\<close>

partial_function (option) div_align :: "u64 \<Rightarrow> u64 \<Rightarrow> u64 \<Rightarrow> (u64 \<times> u64) option" where
  "div_align dividend divisor b =
     (if divisor < dividend \<and> divisor AND 0x8000000000000000 = 0
      then div_align dividend (push_bit 1 divisor) (push_bit 1 b)
      else Some (divisor, b))"

lemma unat_drop_bit_1: "unat (drop_bit 1 (w :: 'a::len word)) = unat w div 2"
  using unat_drop_bit [of 1 w] by simp

function div_subtract :: "u64 \<Rightarrow> u64 \<Rightarrow> u64 \<Rightarrow> u64 \<Rightarrow> u64 \<times> u64" where
  "div_subtract dividend divisor b quot =
     (if b \<noteq> 0 then
        (if divisor \<le> dividend
         then div_subtract (dividend - divisor) (drop_bit 1 divisor) (drop_bit 1 b) (quot OR b)
         else div_subtract dividend (drop_bit 1 divisor) (drop_bit 1 b) quot)
      else (quot, dividend))"
  by pat_completeness auto

termination
  by (relation "measure (\<lambda>(_, _, b, _). unat b)")
    (simp_all add: unat_drop_bit_1 [simplified] unat_gt_0)

declare div_subtract.simps [simp del]

definition udivdi3_generic :: "u64 \<Rightarrow> u64 \<Rightarrow> u64 option" where
  "udivdi3_generic dividend divisor =
     (if divisor = 0 then Some 0
      else map_option (\<lambda>(d, b). fst (div_subtract dividend d b 0)) (div_align dividend divisor 1))"

text \<open>The remainder is returned beside the quot, in place of the pointer the code fills.\<close>

definition udivmoddi4_generic :: "u64 \<Rightarrow> u64 \<Rightarrow> (u64 \<times> u64) option" where
  "udivmoddi4_generic dividend divisor =
     (if divisor = 0 then Some (0, 0)
      else map_option (\<lambda>(d, b). div_subtract dividend d b 0) (div_align dividend divisor 1))"

section \<open>Fill and copy are byte-wise\<close>

definition fill_range :: "mem \<Rightarrow> nat \<Rightarrow> u8 \<Rightarrow> nat \<Rightarrow> mem" where
  "fill_range m p v n = (\<lambda>a. if p \<le> a \<and> a < p + n then v else m a)"

definition copy_range :: "mem \<Rightarrow> nat \<Rightarrow> nat \<Rightarrow> nat \<Rightarrow> mem" where
  "copy_range m d s n = (\<lambda>a. if d \<le> a \<and> a < d + n then m (s + (a - d)) else m a)"

text \<open>The four bytes of a little-endian word are its eight-bit slices.\<close>

abbreviation word_of_bytes :: "u8 \<Rightarrow> u8 \<Rightarrow> u8 \<Rightarrow> u8 \<Rightarrow> u32" where
  "word_of_bytes a b c d \<equiv> ucast a OR push_bit 8 (ucast b) OR push_bit 16 (ucast c) OR push_bit 24 (ucast d)"

lemma bytes_of_word:
  "ucast (word_of_bytes a b c d) = a" "ucast (drop_bit 8 (word_of_bytes a b c d)) = b"
  "ucast (drop_bit 16 (word_of_bytes a b c d)) = c" "ucast (drop_bit 24 (word_of_bytes a b c d)) = d"
proof -
  have small: "\<not> bit x n" if "8 \<le> n" for x :: u8 and n
    using that by (auto dest: bit_imp_le_length)
  show "ucast (word_of_bytes a b c d) = a" "ucast (drop_bit 8 (word_of_bytes a b c d)) = b"
    "ucast (drop_bit 16 (word_of_bytes a b c d)) = c" "ucast (drop_bit 24 (word_of_bytes a b c d)) = d"
    by (rule bit_word_eqI; auto simp: bit_simps small)+
qed

lemma in_word_range: "p \<le> a \<and> a < p + 4 \<longleftrightarrow> a = p \<or> a = p + 1 \<or> a = p + 2 \<or> a = p + (3::nat)"
  by arith

lemma store32_rep: "store32 m p (word_of_bytes v v v v) = fill_range m p v 4"
  unfolding store32_def bytes_of_word fill_range_def in_word_range by (auto simp: fun_eq_iff)

lemma store32_load32: "store32 m d (load32 m s) = copy_range m d s 4"
  unfolding store32_def load32_def bytes_of_word copy_range_def in_word_range by (auto simp: fun_eq_iff)

lemma fill_range_0 [simp]: "fill_range m p v 0 = m"
  by (auto simp: fill_range_def fun_eq_iff)

lemma fill_range_step: "0 < n \<Longrightarrow> fill_range (m(p := v)) (p + 1) v (n - 1) = fill_range m p v n"
  by (auto simp: fill_range_def fun_eq_iff)

lemma fill_range_word: "4 \<le> n \<Longrightarrow> fill_range (fill_range m p v 4) (p + 4) v (n - 4) = fill_range m p v n"
  by (auto simp: fill_range_def fun_eq_iff)

lemma memset_tail_fill: "memset_tail m p v n = fill_range m p v n"
  by (induction n arbitrary: m p) (simp_all add: memset_tail.simps fill_range_step [of "Suc _", simplified])

lemma memset_words_fill:
  "case memset_words m p (word_of_bytes v v v v) n of (m', p', n') \<Rightarrow> fill_range m' p' v n' = fill_range m p v n"
proof (induction n arbitrary: m p rule: less_induct)
  case (less n)
  show ?case
  proof (cases "4 \<le> n")
    case True
    then show ?thesis
      using less.IH [of "n - 4" "fill_range m p v 4" "p + 4"]
      by (simp add: memset_words.simps [of m p _ n] store32_rep fill_range_word)
  next
    case False
    then show ?thesis by (simp add: memset_words.simps)
  qed
qed

lemma memset_head_fill:
  "case memset_head m p v n of (m', p', n') \<Rightarrow> fill_range m' p' v n' = fill_range m p v n"
proof (induction n arbitrary: m p)
  case (Suc n)
  show ?case
    using Suc.IH [of "m(p := v)" "p + 1"] fill_range_step [of "Suc n" m p v]
    by (simp add: memset_head.simps [of m p v "Suc n"] del: fun_upd_apply)
qed (simp add: memset_head.simps)

lemma jlos_memset_fill: "jlos_memset m p v n = fill_range m p v n"
proof -
  obtain m1 p1 n1 where 1: "memset_head m p v n = (m1, p1, n1)"
    by (metis prod_cases3)
  obtain m2 p2 n2 where 2: "memset_words m1 p1 (word_of_bytes v v v v) n1 = (m2, p2, n2)"
    by (metis prod_cases3)
  have "jlos_memset m p v n = fill_range m2 p2 v n2"
    by (simp add: jlos_memset_def 1 2 memset_tail_fill)
  also have "\<dots> = fill_range m1 p1 v n1"
    using memset_words_fill [where m = m1 and p = p1 and v = v and n = n1] by (simp add: 2)
  also have "\<dots> = fill_range m p v n"
    using memset_head_fill [where m = m and p = p and v = v and n = n] by (simp add: 1)
  finally show ?thesis .
qed

text \<open>Forward copying is safe when no source byte is overwritten before it is read.\<close>

definition forward_safe :: "nat \<Rightarrow> nat \<Rightarrow> nat \<Rightarrow> bool" where
  "forward_safe d s n \<longleftrightarrow> d \<le> s \<or> s + n \<le> d"

lemma copy_range_0 [simp]: "copy_range m d s 0 = m"
  by (auto simp: copy_range_def fun_eq_iff)

lemma copy_range_step:
  "0 < n \<Longrightarrow> forward_safe d s n \<Longrightarrow> copy_range (m(d := m s)) (d + 1) (s + 1) (n - 1) = copy_range m d s n"
  by (auto simp: copy_range_def forward_safe_def fun_eq_iff intro: arg_cong [where f = m])

lemma copy_range_word:
  "4 \<le> n \<Longrightarrow> forward_safe d s n \<Longrightarrow>
     copy_range (copy_range m d s 4) (d + 4) (s + 4) (n - 4) = copy_range m d s n"
  by (auto simp: copy_range_def forward_safe_def fun_eq_iff intro: arg_cong [where f = m])

lemma forward_safe_step: "k \<le> n \<Longrightarrow> forward_safe d s n \<Longrightarrow> forward_safe (d + k) (s + k) (n - k)"
  by (auto simp: forward_safe_def)

lemma memcpy_tail_copy: "forward_safe d s n \<Longrightarrow> memcpy_tail m d s n = copy_range m d s n"
proof (induction n arbitrary: m d s)
  case (Suc n)
  then show ?case
    using copy_range_step [of "Suc n" d s m] forward_safe_step [of 1 "Suc n" d s]
    by (simp add: memcpy_tail.simps [of m d s "Suc n"] del: fun_upd_apply)
qed (simp add: memcpy_tail.simps)

lemma memcpy_words_copy:
  assumes "forward_safe d s n"
  shows "case memcpy_words m d s n of (m', d', s', n') \<Rightarrow>
           forward_safe d' s' n' \<and> copy_range m' d' s' n' = copy_range m d s n"
  using assms
proof (induction n arbitrary: m d s rule: less_induct)
  case (less n)
  show ?case
  proof (cases "4 \<le> n")
    case True
    then show ?thesis
      using less.IH [of "n - 4" "d + 4" "s + 4" "copy_range m d s 4"] less.prems forward_safe_step [of 4 n d s]
      by (simp add: memcpy_words.simps [of m d s n] store32_load32 copy_range_word)
  next
    case False
    then show ?thesis using less.prems by (simp add: memcpy_words.simps)
  qed
qed

lemma memcpy_head_copy:
  assumes "forward_safe d s n"
  shows "case memcpy_head m d s n of (m', d', s', n') \<Rightarrow>
           forward_safe d' s' n' \<and> copy_range m' d' s' n' = copy_range m d s n"
  using assms
proof (induction n arbitrary: m d s)
  case (Suc n)
  show ?case
    using Suc.IH [of "d + 1" "s + 1" "m(d := m s)"] Suc.prems copy_range_step [of "Suc n" d s m]
      forward_safe_step [of 1 "Suc n" d s]
    by (simp add: memcpy_head.simps [of m d s "Suc n"] del: fun_upd_apply)
qed (simp add: memcpy_head.simps)

lemma jlos_memcpy_copy:
  assumes "forward_safe d s n"
  shows "jlos_memcpy m d s n = copy_range m d s n"
proof -
  obtain m1 d1 s1 n1 where 1: "memcpy_head m d s n = (m1, d1, s1, n1)"
    by (metis prod_cases4)
  then have c1: "forward_safe d1 s1 n1" "copy_range m1 d1 s1 n1 = copy_range m d s n"
    using memcpy_head_copy [OF assms, of m] by simp_all
  obtain m2 d2 s2 n2 where 2: "memcpy_words m1 d1 s1 n1 = (m2, d2, s2, n2)"
    by (metis prod_cases4)
  then have c2: "forward_safe d2 s2 n2" "copy_range m2 d2 s2 n2 = copy_range m1 d1 s1 n1"
    using memcpy_words_copy [OF c1(1), of m1] by simp_all
  show ?thesis
    by (simp add: jlos_memcpy_def 1 2 memcpy_tail_copy c2 c1)
qed

lemma memmove_back_copy:
  assumes "s < d"
  shows "memmove_back m (d + n) (s + n) n = copy_range m d s n"
proof (induction n arbitrary: m)
  case (Suc n)
  have "memmove_back m (d + Suc n) (s + Suc n) (Suc n) = copy_range (m(d + n := m (s + n))) d s n"
    using Suc.IH [of "m(d + n := m (s + n))"] by (simp add: memmove_back.simps [of m "Suc (d + n)"] del: fun_upd_apply)
  also have "\<dots> = copy_range m d s (Suc n)"
    using assms by (auto simp: copy_range_def fun_eq_iff)
  finally show ?case .
qed (simp add: memmove_back.simps)

text \<open>
  C30: \<open>jlos_memmove\<close> copies a range correctly whatever the overlap of source and destination,
  although its forward case is the word-wise \<open>jlos_memcpy\<close>.
\<close>

theorem jlos_memmove_correct:
  "jlos_memmove m dst src n = (\<lambda>a. if dst \<le> a \<and> a < dst + n then m (src + (a - dst)) else m a)"
proof -
  have "jlos_memmove m dst src n = copy_range m dst src n"
  proof (cases dst src rule: linorder_cases)
    case equal
    then show ?thesis by (auto simp: jlos_memmove_def copy_range_def fun_eq_iff)
  qed (simp_all add: jlos_memmove_def jlos_memcpy_copy forward_safe_def memmove_back_copy)
  then show ?thesis by (simp add: copy_range_def)
qed

section \<open>Strings\<close>

text \<open>\<open>cstr m p xs\<close>: the bytes \<open>xs\<close> and a terminator stand at address \<open>p\<close>.\<close>

fun cstr :: "mem \<Rightarrow> nat \<Rightarrow> u8 list \<Rightarrow> bool" where
  "cstr m p [] \<longleftrightarrow> m p = 0"
| "cstr m p (x # xs) \<longleftrightarrow> m p = x \<and> x \<noteq> 0 \<and> cstr m (p + 1) xs"

lemma cstr_cong: "(\<And>a. p \<le> a \<Longrightarrow> a \<le> p + length xs \<Longrightarrow> m a = m' a) \<Longrightarrow> cstr m p xs = cstr m' p xs"
proof (induction xs arbitrary: p)
  case (Cons x xs)
  have "cstr m (p + 1) xs = cstr m' (p + 1) xs"
    by (rule Cons.IH) (simp add: Cons.prems)
  then show ?case using Cons.prems [of p] by simp
qed simp

lemma strlen_loop_cstr: "cstr m p xs \<Longrightarrow> strlen_loop m p = Some (p + length xs)"
  by (induction xs arbitrary: p) (simp_all add: strlen_loop.simps)

lemma jlos_strlen_cstr: "cstr m p xs \<Longrightarrow> jlos_strlen m p = Some (length xs)"
  by (simp add: jlos_strlen_def strlen_loop_cstr)

lemma skip_string_cstr: "cstr m p xs \<Longrightarrow> skip_string m p = Some (p + length xs + 1)"
  by (induction xs arbitrary: p) (simp_all add: skip_string.simps)

lemma strchr_cstr:
  "cstr m p xs \<Longrightarrow> c \<noteq> 0 \<Longrightarrow>
     jlos_strchr m p c = Some (if c \<in> set xs then Some (p + length (takeWhile (\<lambda>x. x \<noteq> c) xs)) else None)"
  by (induction xs arbitrary: p) (simp_all add: jlos_strchr.simps)

lemma strchr_cstr_0: "cstr m p xs \<Longrightarrow> jlos_strchr m p 0 = Some (Some (p + length xs))"
  by (induction xs arbitrary: p) (simp_all add: jlos_strchr.simps)

text \<open>The comparison returns the difference at the first differing byte, the terminator included.\<close>

fun str_diff :: "u8 list \<Rightarrow> u8 list \<Rightarrow> int" where
  "str_diff [] [] = 0"
| "str_diff [] (y # ys) = - uint y"
| "str_diff (x # xs) [] = uint x"
| "str_diff (x # xs) (y # ys) = (if x = y then str_diff xs ys else uint x - uint y)"

lemma strcmp_cstr: "cstr m a xs \<Longrightarrow> cstr m b ys \<Longrightarrow> jlos_strcmp m a b = Some (str_diff xs ys)"
  by (induction xs ys arbitrary: a b rule: str_diff.induct) (simp_all add: jlos_strcmp.simps)

lemma strncmp_cstr:
  "cstr m a xs \<Longrightarrow> cstr m b ys \<Longrightarrow> jlos_strncmp m a b n = str_diff (take n xs) (take n ys)"
proof (induction xs ys arbitrary: a b n rule: str_diff.induct)
  case (4 x xs y ys)
  then show ?case by (cases n) (simp_all add: jlos_strncmp.simps [of m a b])
qed (case_tac n; simp add: jlos_strncmp.simps)+

lemma str_diff_nonzero: "0 \<notin> set xs \<Longrightarrow> 0 \<notin> set ys \<Longrightarrow> str_diff xs ys = 0 \<longleftrightarrow> xs = ys"
  by (induction xs ys rule: str_diff.induct) (auto simp: uint_0_iff dest: word_uint_eqI)

lemma str_diff_less:
  "0 \<notin> set xs \<Longrightarrow> 0 \<notin> set ys \<Longrightarrow> str_diff xs ys < 0 \<longleftrightarrow> ord_class.lexordp xs ys"
  by (induction xs ys rule: str_diff.induct) (auto simp: word_less_def word_neq_0_conv dest: word_uint_eqI
    simp: not_less order_le_less)

lemma cstr_nonzero: "cstr m p xs \<Longrightarrow> 0 \<notin> set xs"
  by (induction xs arbitrary: p) auto

text \<open>
  \<open>strlcpy\<close> on a source string that the destination does not overlap: the loop copies
  either the whole string with its terminator, or the first \<open>dsize - 1\<close> bytes.
\<close>

lemma strlcpy_loop_copy:
  assumes "cstr m src xs" and "dst + n \<le> src \<or> src + length xs < dst" and "0 < n"
  shows "strlcpy_loop m dst src n =
    (if length xs < n - 1
     then (copy_range m dst src (length xs + 1), dst + length xs + 1, src + length xs + 1, n - 1 - length xs)
     else (copy_range m dst src (n - 1), dst + (n - 1), src + (n - 1), 0))"
  using assms
proof (induction n arbitrary: m dst src xs)
  case (Suc n)
  show ?case
  proof (cases "n = 0")
    case True
    then show ?thesis by (simp add: strlcpy_loop.simps)
  next
    case n: False
    show ?thesis
    proof (cases xs)
      case Nil
      then show ?thesis
        using Suc.prems n
        by (auto simp: strlcpy_loop.simps [of m dst src "Suc n"] copy_range_def fun_eq_iff)
    next
      case (Cons y ys)
      let ?m = "m(dst := m src)"
      have "cstr ?m (src + 1) ys"
        using Suc.prems Cons cstr_cong [of "src + 1" ys m ?m] by auto
      then have IH: "strlcpy_loop ?m (dst + 1) (src + 1) n =
          (if length ys < n - 1
           then (copy_range ?m (dst + 1) (src + 1) (length ys + 1), dst + 1 + length ys + 1, src + 1 + length ys + 1, n - 1 - length ys)
           else (copy_range ?m (dst + 1) (src + 1) (n - 1), dst + 1 + (n - 1), src + 1 + (n - 1), 0))"
        using Suc.prems Cons n by (intro Suc.IH) (auto simp del: fun_upd_apply)
      have cp: "copy_range ?m (dst + 1) (src + 1) k = copy_range m dst src (k + 1)"
        if "k \<le> length ys + 1" "k < n" for k
        using copy_range_step [of "k + 1" dst src m] that Suc.prems Cons
        by (auto simp: forward_safe_def)
      show ?thesis
        using Suc.prems Cons n cp [of "length ys + 1"] cp [of "n - 1"] IH
        by (auto simp: strlcpy_loop.simps [of m dst src "Suc n"] simp del: fun_upd_apply)
    qed
  qed
qed simp

lemma cstr_copied:
  assumes "\<And>i. i < length xs \<Longrightarrow> m' (dst + i) = xs ! i" and "m' (dst + length xs) = 0" and "0 \<notin> set xs"
  shows "cstr m' dst xs"
  using assms
proof (induction xs arbitrary: dst)
  case (Cons x xs)
  have "cstr m' (dst + 1) xs"
    using Cons.prems(1) [of "Suc _"] Cons.prems(2,3) by (intro Cons.IH) auto
  then show ?case using Cons.prems(1) [of 0] Cons.prems(3) by auto
qed simp

lemma cstr_nth: "cstr m p xs \<Longrightarrow> i < length xs \<Longrightarrow> m (p + i) = xs ! i"
proof (induction xs arbitrary: p i)
  case (Cons x xs)
  then show ?case using Cons.IH [of "p + 1" "i - 1"] by (cases i) auto
qed simp

lemma cstr_end: "cstr m p xs \<Longrightarrow> m (p + length xs) = 0"
proof (induction xs arbitrary: p)
  case (Cons x xs)
  then show ?case using Cons.IH [of "p + 1"] by simp
qed simp

lemma cstr_drop: "cstr m p xs \<Longrightarrow> k \<le> length xs \<Longrightarrow> cstr m (p + k) (drop k xs)"
proof (induction xs arbitrary: p k)
  case (Cons x xs)
  then show ?case using Cons.IH [of "p + 1" "k - 1"] by (cases k) auto
qed simp

text \<open>
  \<open>jlos_strlcpy\<close> returns the length of the source, leaves in the destination the
  longest prefix that fits with its terminator, and writes nothing else.
\<close>

lemma jlos_strlcpy_correct:
  assumes src: "cstr m src xs" and apart: "dst + dsize \<le> src \<or> src + length xs < dst"
  shows "\<exists>m'. jlos_strlcpy m dst src dsize = Some (m', length xs)
     \<and> (0 < dsize \<longrightarrow> cstr m' dst (take (dsize - 1) xs))
     \<and> (\<forall>a. \<not> (dst \<le> a \<and> a < dst + min dsize (length xs + 1)) \<longrightarrow> m' a = m a)"
proof (cases "dsize = 0")
  case True
  then show ?thesis
    using skip_string_cstr [OF src] by (simp add: jlos_strlcpy_def)
next
  case dsize: False
  show ?thesis
  proof (cases "length xs < dsize - 1")
    case True
    let ?m = "copy_range m dst src (length xs + 1)"
    have "cstr ?m dst xs"
      using cstr_nth [OF src] cstr_end [OF src] cstr_nonzero [OF src]
      by (intro cstr_copied) (auto simp: copy_range_def)
    then show ?thesis
      using True dsize strlcpy_loop_copy [OF src apart]
      by (auto simp: jlos_strlcpy_def copy_range_def)
  next
    case False
    define m' where "m' = (copy_range m dst src (dsize - 1))(dst + (dsize - 1) := 0)"
    have m'_eq: "(copy_range m dst src (dsize - Suc 0))(dst + dsize - Suc 0 := 0) = m'"
      using dsize by (simp add: m'_def)
    have "cstr m (src + (dsize - 1)) (drop (dsize - 1) xs)"
      using cstr_drop [OF src] False by simp
    then have "cstr m' (src + (dsize - 1)) (drop (dsize - 1) xs)"
      using apart dsize False
      by (subst cstr_cong [where m' = m]) (auto simp: m'_def copy_range_def)
    from skip_string_cstr [OF this]
    have skip: "skip_string m' (src + (dsize - 1)) = Some (src + length xs + 1)"
      using False by simp
    have "cstr m' dst (take (dsize - 1) xs)"
      using cstr_nth [OF src] cstr_nonzero [OF src] False
      by (intro cstr_copied) (auto simp: m'_def copy_range_def dest: in_set_takeD)
    moreover have "jlos_strlcpy m dst src dsize = Some (m', length xs)"
      using False dsize strlcpy_loop_copy [OF src apart] skip
      by (simp add: jlos_strlcpy_def Let_def m'_eq)
    ultimately show ?thesis
      using dsize False by (auto simp: m'_def copy_range_def)
  qed
qed

section \<open>Division\<close>

lemma top_bit_clear_64: "(d :: u64) AND 0x8000000000000000 = 0 \<longleftrightarrow> unat d < 2 ^ 63"
proof -
  have top: "(0x8000000000000000 :: u64) = 2 ^ 63" by simp
  have "d AND 2 ^ 63 = 0 \<longleftrightarrow> \<not> bit d 63"
    by (rule and_exp_eq_0_iff_not_bit)
  also have "\<dots> \<longleftrightarrow> unat d < 2 ^ 63"
    using bit_top_unat [of d] by (simp add: not_le)
  finally show ?thesis by (simp only: top)
qed

lemma div_align_result:
  assumes "0 < D" and "unat d = D * 2 ^ j" and "b = 2 ^ j"
  shows "\<exists>k d'. div_align a d b = Some (d', 2 ^ k) \<and> unat d' = D * 2 ^ k \<and> unat a < 2 * unat d'"
  using assms(2,3)
proof (induction "2 ^ 64 - unat d" arbitrary: d b j rule: less_induct)
  case less
  show ?case
  proof (cases "d < a \<and> d AND 0x8000000000000000 = 0")
    case True
    then have small: "unat d < 2 ^ 63" by (simp add: top_bit_clear_64)
    have dbl: "push_bit 1 d = 2 * d" "push_bit 1 b = 2 * b"
      by (simp_all add: push_bit_eq_mult)
    have d2: "unat (2 * d) = 2 * unat d"
      using small by (simp add: unat_word_ariths)
    have "\<exists>k d'. div_align a (2 * d) (2 * b) = Some (d', 2 ^ k) \<and> unat d' = D * 2 ^ k \<and> unat a < 2 * unat d'"
    proof (rule less.hyps)
      have "0 < unat d" using less.prems assms(1) by simp
      then show "2 ^ 64 - unat (2 * d) < 2 ^ 64 - unat d"
        using small d2 by simp
      show "unat (2 * d) = D * 2 ^ Suc j" using d2 less.prems by simp
      show "2 * b = 2 ^ Suc j" using less.prems by simp
    qed
    then show ?thesis
      by (subst div_align.simps) (simp only: dbl True if_True simp_thms)
  next
    case False
    have "unat a < 2 * unat d"
    proof (cases "d < a")
      case True
      then have "2 ^ 63 \<le> unat d" using False top_bit_clear_64 [of d] by simp
      then show ?thesis using unat_lt_pow2 [of a] by simp
    next
      case False
      then have "unat a \<le> unat d" by (simp add: not_less word_le_nat_alt)
      moreover have "0 < unat d" using less.prems assms(1) by simp
      ultimately show ?thesis by simp
    qed
    moreover have "div_align a d b = Some (d, 2 ^ j)"
      using False less.prems(2) by (subst div_align.simps) (simp only: if_False)
    ultimately show ?thesis
      using less.prems(1) by blast
  qed
qed

lemma div_subtract_result:
  assumes "0 < D" and "unat d = D * 2 ^ k" and "k < 64" and "unat a < 2 * unat d" and "\<forall>n\<le>k. \<not> bit q n"
  shows "div_subtract a d (2 ^ k) q = (q + of_nat (unat a div D), of_nat (unat a mod D))"
  using assms(2-)
proof (induction k arbitrary: a d q)
  case 0
  have q1: "q OR 1 = q + 1"
    using 0 by (subst disjunctive_add_eq_or) (auto simp: bit_eq_iff bit_simps)
  have stop: "div_subtract x y 0 z = (z, x)" for x y z
    by (simp add: div_subtract.simps)
  have "div_subtract a d 1 q = (if d \<le> a then (q + 1, a - d) else (q, a))"
    by (simp add: div_subtract.simps [of a d 1 q] stop q1)
  moreover have "unat a div D = 1 \<and> unat a mod D = unat a - unat d" if "d \<le> a"
    using that 0 assms(1) le_div_geq [of D "unat a"] le_mod_geq [of D "unat a"]
    by (simp add: word_le_nat_alt)
  moreover have "unat a < D" if "\<not> d \<le> a"
    using that 0 by (simp add: word_le_nat_alt)
  ultimately show ?case
    by (cases "d \<le> a") (simp_all add: unat_sub [symmetric])
next
  case (Suc k)
  let ?b = "2 ^ Suc k :: u64" and ?d = "drop_bit 1 d"
  have "bit ?b (Suc k)"
    using Suc.prems(2) by (simp add: bit_exp_iff del: power_Suc)
  then have b: "?b \<noteq> 0" by (metis bit_0_eq bot_apply bot_bool_def)
  have b': "drop_bit 1 ?b = 2 ^ k"
    using Suc.prems(2) by (intro bit_word_eqI) (auto simp: bit_drop_bit_eq bit_exp_iff simp del: power_Suc)
  have d: "unat ?d = D * 2 ^ k"
    using Suc.prems(1) by (simp only: unat_drop_bit_1) simp
  have qb: "q OR ?b = q + ?b"
  proof (rule disjunctive_add_eq_or [symmetric])
    show "q AND ?b = 0"
      using Suc.prems(4) by (intro bit_word_eqI) (auto simp: bit_and_iff bit_exp_iff simp del: power_Suc)
  qed
  show ?case
  proof (cases "d \<le> a")
    case True
    have a: "unat (a - d) = unat a - D * 2 ^ Suc k" "D * 2 ^ Suc k \<le> unat a"
      using True Suc.prems(1) by (simp_all add: unat_sub word_le_nat_alt)
    have "div_subtract (a - d) ?d (2 ^ k) (q + ?b)
        = (q + ?b + of_nat (unat (a - d) div D), of_nat (unat (a - d) mod D))"
    proof (rule Suc.IH)
      show "unat ?d = D * 2 ^ k" by (rule d)
      show "unat (a - d) < 2 * unat ?d" using a Suc.prems(1,3) d by simp
      show "\<forall>n\<le>k. \<not> bit (q + ?b) n"
        using Suc.prems(4) unfolding qb [symmetric] by (auto simp: bit_or_iff bit_exp_iff simp del: power_Suc)
    qed (use Suc.prems in simp)
    moreover have "unat a div D = 2 ^ Suc k + unat (a - d) div D" "unat a mod D = unat (a - d) mod D"
    proof -
      have "unat a = unat (a - d) + D * 2 ^ Suc k" using a by simp
      then show "unat a div D = 2 ^ Suc k + unat (a - d) div D" "unat a mod D = unat (a - d) mod D"
        using assms(1) by simp_all
    qed
    ultimately show ?thesis
      using True b b' by (subst div_subtract.simps) (simp add: qb add.assoc del: power_Suc)
  next
    case False
    have "div_subtract a ?d (2 ^ k) q = (q + of_nat (unat a div D), of_nat (unat a mod D))"
      using False Suc.prems d by (intro Suc.IH) (simp_all add: word_le_nat_alt)
    then show ?thesis
      using False b b' by (subst div_subtract.simps) (simp del: power_Suc)
  qed
qed

text \<open>
  C31: the 64-bit division routine ends and returns the exact quotient and remainder for
  every divisor but 0, on which it returns 0.
\<close>

theorem udivmoddi4_generic_correct:
  "udivmoddi4_generic a b = Some (if b = 0 then (0, 0) else (a div b, a mod b))"
proof (cases "b = 0")
  case False
  then have D: "0 < unat b" by (simp add: unat_gt_0)
  obtain k d where al: "div_align a b 1 = Some (d, 2 ^ k)" "unat d = unat b * 2 ^ k" "unat a < 2 * unat d"
    using div_align_result [OF D, of b 0 1 a] by auto
  have "2 ^ k \<le> unat b * 2 ^ k" using D by simp
  also have "\<dots> < 2 ^ 64" using al(2) unat_lt_pow2 [of d] by simp
  finally have "2 ^ k < (2 ^ 64 :: nat)" .
  then have "k < 64" by (rule power_less_imp_less_exp [rotated]) simp
  then have "div_subtract a d (2 ^ k) 0 = (of_nat (unat a div unat b), of_nat (unat a mod unat b))"
    using div_subtract_result [OF D al(2) _ al(3), of 0] by simp
  then show ?thesis
    using False al(1) by (simp add: udivmoddi4_generic_def word_arith_nat_div word_arith_nat_mod)
qed (simp add: udivmoddi4_generic_def)

end
