(* ===== verification/Bitmap.thy ===== *)
theory Bitmap
  imports C_Types
begin

text \<open>
  \<^verbatim>\<open>dsa/bitmap.c\<close>: a bitmap of \<open>count\<close> bits in an array of 32-bit words. An array
  access past the end of the backing array is \<open>None\<close>. Loop counters are \<open>nat\<close>: they are
  bounded by 32-bit fields and never wrap; the values the functions return keep
  their 32-bit width.
\<close>

section \<open>Model\<close>

record jlos_bitmap =
  bits :: "u32 list"
  bm_count :: u32
  bm_words :: u32

definition array_get :: "'a list \<Rightarrow> nat \<Rightarrow> 'a option" where
  "array_get xs i = (if i < length xs then Some (xs ! i) else None)"

definition array_set :: "'a list \<Rightarrow> nat \<Rightarrow> 'a \<Rightarrow> 'a list option" where
  "array_set xs i v = (if i < length xs then Some (xs[i := v]) else None)"

definition jlos_bitmap_init :: "u32 list \<Rightarrow> u32 \<Rightarrow> jlos_bitmap" where
  "jlos_bitmap_init backing cnt =
     \<lparr>bits = backing, bm_count = cnt, bm_words = JLOS_EXCEPT_CEIL cnt 32\<rparr>"

definition jlos_bitmap_set :: "jlos_bitmap \<Rightarrow> u32 \<Rightarrow> jlos_bitmap option" where
  "jlos_bitmap_set bm i =
     (if i < bm_count bm then
        Option.bind (array_get (bits bm) (unat (i div 32))) (\<lambda>w.
        map_option (\<lambda>bs. bm\<lparr>bits := bs\<rparr>)
          (array_set (bits bm) (unat (i div 32)) (w OR push_bit (unat (i mod 32)) 1)))
      else Some bm)"

definition jlos_bitmap_clear :: "jlos_bitmap \<Rightarrow> u32 \<Rightarrow> jlos_bitmap option" where
  "jlos_bitmap_clear bm i =
     (if i < bm_count bm then
        Option.bind (array_get (bits bm) (unat (i div 32))) (\<lambda>w.
        map_option (\<lambda>bs. bm\<lparr>bits := bs\<rparr>)
          (array_set (bits bm) (unat (i div 32)) (w AND NOT (push_bit (unat (i mod 32)) 1))))
      else Some bm)"

text \<open>The test indexes the words with \<open>i % 32\<close>, as the source does.\<close>

definition jlos_bitmap_test :: "jlos_bitmap \<Rightarrow> u32 \<Rightarrow> bool option" where
  "jlos_bitmap_test bm i =
     (if bm_count bm \<le> i then Some False
      else map_option (\<lambda>w. w AND push_bit (unat (i mod 32)) 1 \<noteq> 0)
             (array_get (bits bm) (unat (i mod 32))))"

definition fill_words :: "u32 list \<Rightarrow> nat \<Rightarrow> u32 \<Rightarrow> u32 list option" where
  "fill_words bs n v = (if n \<le> length bs then Some (replicate n v @ drop n bs) else None)"

definition jlos_bitmap_set_all :: "jlos_bitmap \<Rightarrow> jlos_bitmap option" where
  "jlos_bitmap_set_all bm =
     map_option (\<lambda>bs. bm\<lparr>bits := bs\<rparr>) (fill_words (bits bm) (unat (bm_words bm)) 0xFFFFFFFF)"

definition jlos_bitmap_clear_all :: "jlos_bitmap \<Rightarrow> jlos_bitmap option" where
  "jlos_bitmap_clear_all bm =
     map_option (\<lambda>bs. bm\<lparr>bits := bs\<rparr>) (fill_words (bits bm) (unat (bm_words bm)) 0)"

text \<open>The word loops of the searches: \<open>n\<close> rounds are left, \<open>w\<close> is the word index.\<close>

fun scan_zero :: "jlos_bitmap \<Rightarrow> nat \<Rightarrow> nat \<Rightarrow> u32 option" where
  "scan_zero bm 0 w = Some (bm_count bm)"
| "scan_zero bm (Suc n) w =
     Option.bind (array_get (bits bm) w) (\<lambda>v.
       if v \<noteq> 0xFFFFFFFF then
         (let inverted = NOT v;
              b = of_nat (w * 32 + builtin_ctz inverted)
          in if b < bm_count bm then Some b else scan_zero bm n (Suc w))
       else scan_zero bm n (Suc w))"

definition jlos_bitmap_find_first_zero :: "jlos_bitmap \<Rightarrow> u32 option" where
  "jlos_bitmap_find_first_zero bm = scan_zero bm (unat (bm_words bm)) 0"

definition jlos_bitmap_find_next_zero :: "jlos_bitmap \<Rightarrow> u32 \<Rightarrow> u32 option" where
  "jlos_bitmap_find_next_zero bm start =
     (if bm_count bm \<le> start then Some (bm_count bm)
      else let w = unat (start div 32);
               bit_int_word = unat (start mod 32);
               mask = NOT (push_bit bit_int_word 1 - 1)
           in Option.bind (array_get (bits bm) w) (\<lambda>v.
                let masked = v AND mask;
                    rest = scan_zero bm (unat (bm_words bm) - Suc w) (Suc w)
                in if masked \<noteq> mask then
                     (let inverted = NOT masked;
                          b = of_nat (w * 32 + builtin_ctz inverted)
                      in if b < bm_count bm then Some b else rest)
                   else rest))"

text \<open>The loop of \<open>find_first_set\<close> is bounded by \<open>count\<close>, not by the number of words.\<close>

fun scan_set :: "jlos_bitmap \<Rightarrow> nat \<Rightarrow> nat \<Rightarrow> u32 option" where
  "scan_set bm 0 w = Some (bm_count bm)"
| "scan_set bm (Suc n) w =
     Option.bind (array_get (bits bm) w) (\<lambda>v.
       if v \<noteq> 0 then
         (let b = of_nat (w * 32 + builtin_ctz v)
          in if b < bm_count bm then Some b else scan_set bm n (Suc w))
       else scan_set bm n (Suc w))"

definition jlos_bitmap_find_first_set :: "jlos_bitmap \<Rightarrow> u32 option" where
  "jlos_bitmap_find_first_set bm = scan_set bm (unat (bm_count bm)) 0"

fun count_set_loop :: "jlos_bitmap \<Rightarrow> nat \<Rightarrow> nat \<Rightarrow> u32 \<Rightarrow> u32 option" where
  "count_set_loop bm 0 w acc = Some acc"
| "count_set_loop bm (Suc n) w acc =
     Option.bind (array_get (bits bm) w) (\<lambda>v. count_set_loop bm n (Suc w) (acc + jlos_popcount32 v))"

definition jlos_bitmap_count_set :: "jlos_bitmap \<Rightarrow> u32 option" where
  "jlos_bitmap_count_set bm = count_set_loop bm (unat (bm_words bm)) 0 0"

section \<open>Well-formed bitmaps and their bits\<close>

definition bm_wf :: "jlos_bitmap \<Rightarrow> bool" where
  "bm_wf bm \<longleftrightarrow> unat (bm_count bm) + 31 < 2 ^ 32 \<and> bm_words bm = JLOS_EXCEPT_CEIL (bm_count bm) 32
     \<and> unat (bm_words bm) \<le> length (bits bm)"

definition bm_bit :: "jlos_bitmap \<Rightarrow> nat \<Rightarrow> bool" where
  "bm_bit bm j = bit (bits bm ! (j div 32)) (j mod 32)"

lemma bm_words_unat:
  assumes "bm_wf bm"
  shows "unat (bm_words bm) = (unat (bm_count bm) + 31) div 32"
proof -
  have "bm_count bm + 32 - 1 = bm_count bm + 31"
    by (simp add: add_diff_eq [symmetric])
  moreover have "unat (bm_count bm + 31) = unat (bm_count bm) + 31"
    using assms unat_plus_noov [of "bm_count bm" 31] by (simp add: bm_wf_def)
  ultimately show ?thesis
    using assms unfolding bm_wf_def JLOS_EXCEPT_CEIL_def by (simp only: unat_div) simp
qed

lemma bm_index_in_range:
  assumes "bm_wf bm" and "j < unat (bm_count bm)"
  shows "j div 32 < unat (bm_words bm)" and "j div 32 < length (bits bm)"
proof -
  show *: "j div 32 < unat (bm_words bm)"
    using assms(2) by (simp add: bm_words_unat [OF assms(1)])
  show "j div 32 < length (bits bm)"
    using * assms(1) unfolding bm_wf_def by linarith
qed

lemma bm_wf_init:
  "unat cnt + 31 < 2 ^ 32 \<Longrightarrow> (unat cnt + 31) div 32 \<le> length backing \<Longrightarrow> bm_wf (jlos_bitmap_init backing cnt)"
proof -
  assume cnt: "unat cnt + 31 < 2 ^ 32" and len: "(unat cnt + 31) div 32 \<le> length backing"
  have "cnt + 32 - 1 = cnt + 31" by (simp add: add_diff_eq [symmetric])
  then have "unat (JLOS_EXCEPT_CEIL cnt 32) = (unat cnt + 31) div 32"
    using cnt unat_plus_noov [of cnt 31] unfolding JLOS_EXCEPT_CEIL_def by (simp only: unat_div) simp
  with cnt len show ?thesis by (simp add: bm_wf_def jlos_bitmap_init_def)
qed

lemma unat_word_index: "unat (i div 32 :: u32) = unat i div 32" "unat (i mod 32 :: u32) = unat i mod 32"
  by (simp_all add: unat_div unat_mod)

lemma same_bit_index: "(j :: nat) div 32 = i div 32 \<and> j mod 32 = i mod 32 \<longleftrightarrow> j = i"
  by (metis div_mult_mod_eq)

lemma bm_bit_update:
  assumes "unat i div 32 < length (bits bm)"
  shows "bm_bit (bm\<lparr>bits := (bits bm)[unat i div 32 := w]\<rparr>) j
     = (if j div 32 = unat i div 32 then bit w (j mod 32) else bm_bit bm j)"
  using assms by (auto simp: bm_bit_def nth_list_update)

lemma bm_wf_update [inv_intros]: "bm_wf bm \<Longrightarrow> bm_wf (bm\<lparr>bits := (bits bm)[k := w]\<rparr>)"
  by (auto simp: bm_wf_def)

lemma bitmap_set_result:
  assumes "bm_wf bm" and "i < bm_count bm"
  shows "\<exists>bm'. jlos_bitmap_set bm i = Some bm' \<and> bm_wf bm' \<and> bm_count bm' = bm_count bm
    \<and> (\<forall>j. bm_bit bm' j = (j = unat i \<or> bm_bit bm j))"
proof -
  let ?k = "unat i div 32"
  let ?w = "bits bm ! ?k OR push_bit (unat i mod 32) 1"
  have k: "?k < length (bits bm)"
    using bm_index_in_range [OF assms(1), of "unat i"] assms(2) by (simp add: word_less_nat_alt)
  have "jlos_bitmap_set bm i = Some (bm\<lparr>bits := (bits bm)[?k := ?w]\<rparr>)"
    using assms(2) k by (simp add: jlos_bitmap_set_def array_get_def array_set_def unat_word_index)
  moreover have "bm_bit (bm\<lparr>bits := (bits bm)[?k := ?w]\<rparr>) j = (j = unat i \<or> bm_bit bm j)" for j
    using same_bit_index [of j "unat i"] unfolding bm_bit_update [OF k]
    by (auto simp: bm_bit_def bit_or_iff bit_exp_iff)
  ultimately show ?thesis
    using bm_wf_update [OF assms(1)] by simp
qed

lemma bitmap_clear_result:
  assumes "bm_wf bm" and "i < bm_count bm"
  shows "\<exists>bm'. jlos_bitmap_clear bm i = Some bm' \<and> bm_wf bm' \<and> bm_count bm' = bm_count bm
    \<and> (\<forall>j. bm_bit bm' j = (j \<noteq> unat i \<and> bm_bit bm j))"
proof -
  let ?k = "unat i div 32"
  let ?w = "bits bm ! ?k AND NOT (push_bit (unat i mod 32) 1)"
  have k: "?k < length (bits bm)"
    using bm_index_in_range [OF assms(1), of "unat i"] assms(2) by (simp add: word_less_nat_alt)
  have "jlos_bitmap_clear bm i = Some (bm\<lparr>bits := (bits bm)[?k := ?w]\<rparr>)"
    using assms(2) k by (simp add: jlos_bitmap_clear_def array_get_def array_set_def unat_word_index)
  moreover have "bm_bit (bm\<lparr>bits := (bits bm)[?k := ?w]\<rparr>) j = (j \<noteq> unat i \<and> bm_bit bm j)" for j
    using same_bit_index [of j "unat i"] unfolding bm_bit_update [OF k]
    by (auto simp: bm_bit_def bit_and_iff bit_not_iff bit_exp_iff)
  ultimately show ?thesis
    using bm_wf_update [OF assms(1)] by simp
qed

section \<open>Searches\<close>

lemma all_ones_bit: "v \<noteq> (0xFFFFFFFF :: u32) \<longleftrightarrow> NOT v \<noteq> 0"
proof -
  have "(0xFFFFFFFF :: u32) = NOT 0" by simp
  then show ?thesis by (metis bit.double_compl)
qed

text \<open>
  The word loop started at word \<open>w\<close> returns the least zero bit from \<open>32 * w\<close> on, or
  \<open>count\<close> when there is none below it.
\<close>

definition least_zero_from :: "jlos_bitmap \<Rightarrow> nat \<Rightarrow> u32 \<Rightarrow> bool" where
  "least_zero_from bm lo r \<longleftrightarrow>
     (\<forall>j. lo \<le> j \<longrightarrow> j < unat r \<longrightarrow> bm_bit bm j) \<and> unat r \<le> unat (bm_count bm)
     \<and> (unat r < unat (bm_count bm) \<longrightarrow> lo \<le> unat r \<and> \<not> bm_bit bm (unat r))"

lemma least_zero_from_extend:
  assumes "\<And>j. lo \<le> j \<Longrightarrow> j < hi \<Longrightarrow> bm_bit bm j" and "least_zero_from bm hi r" and "lo \<le> hi"
  shows "least_zero_from bm lo r"
proof -
  have "bm_bit bm j" if "lo \<le> j" "j < unat r" for j
    using that assms by (cases "j < hi") (auto simp: least_zero_from_def)
  then show ?thesis
    using assms(2,3) by (auto simp: least_zero_from_def)
qed

lemma bm_bit_in_word: "32 * w \<le> j \<Longrightarrow> j < 32 * Suc w \<Longrightarrow> bm_bit bm j = bit (bits bm ! w) (j - 32 * w)"
proof -
  assume j: "32 * w \<le> j" "j < 32 * Suc w"
  then have "j div 32 = w" by (simp add: div_nat_eqI)
  then have "j mod 32 = j - 32 * w" by (simp add: modulo_nat_def)
  with \<open>j div 32 = w\<close> show ?thesis by (simp add: bm_bit_def)
qed

lemma scan_zero_result:
  assumes "bm_wf bm" and "w + n = unat (bm_words bm)"
  shows "\<exists>r. scan_zero bm n w = Some r \<and> least_zero_from bm (32 * w) r"
  using assms(2)
proof (induction n arbitrary: w)
  case 0
  then have "unat (bm_count bm) \<le> 32 * w"
    using bm_words_unat [OF assms(1)] by simp
  then show ?case by (simp add: least_zero_from_def)
next
  case (Suc n)
  let ?v = "bits bm ! w" and ?c = "builtin_ctz (NOT (bits bm ! w))"
  have w: "w < length (bits bm)" "32 * w < unat (bm_count bm)"
    using Suc.prems assms(1) bm_words_unat [OF assms(1)] by (auto simp: bm_wf_def)
  obtain r where r: "scan_zero bm n (Suc w) = Some r" "least_zero_from bm (32 * Suc w) r"
    using Suc.IH [of "Suc w"] Suc.prems by auto
  have word: "bm_bit bm j = bit ?v (j - 32 * w)" if "32 * w \<le> j" "j < 32 * Suc w" for j
    by (rule bm_bit_in_word) (use that in simp_all)
  show ?case
  proof (cases "NOT ?v = 0")
    case True
    then have ones: "bit ?v i" if "i < 32" for i
      using that bit_not_iff [of ?v i] by simp
    have "bm_bit bm j" if "32 * w \<le> j" "j < 32 * Suc w" for j
      unfolding word [OF that] by (rule ones) (use that in simp)
    from least_zero_from_extend [OF this r(2)] have "least_zero_from bm (32 * w) r"
      by simp
    then show ?thesis
      using True r(1) w(1) all_ones_bit [of ?v] by (simp add: array_get_def)
  next
    case False
    note ctz = builtin_ctz_props [OF False]
    have b: "unat (of_nat (w * 32 + ?c) :: u32) = 32 * w + ?c"
    proof -
      have "w * 32 + ?c < 2 ^ 32" using w(2) ctz(1) assms(1) by (simp add: bm_wf_def)
      from unat_of_nat_u32 [OF this] show ?thesis by (simp add: mult.commute)
    qed
    have below: "bm_bit bm j" if "32 * w \<le> j" "j < 32 * w + ?c" for j
      using word [of j] that ctz(1) ctz(3) [of "j - 32 * w"] by (simp add: bit_not_iff)
    have zero: "\<not> bm_bit bm (32 * w + ?c)"
      using word [of "32 * w + ?c"] ctz by (simp add: bit_not_iff)
    show ?thesis
    proof (cases "(of_nat (w * 32 + ?c) :: u32) < bm_count bm")
      case True
      then have "least_zero_from bm (32 * w) (of_nat (w * 32 + ?c))"
        using below zero b by (simp add: least_zero_from_def word_less_nat_alt)
      then show ?thesis
        using True False w(1) all_ones_bit [of ?v] by (simp add: array_get_def)
    next
      case past: False
      then have "unat (bm_count bm) \<le> 32 * w + ?c"
        using b by (simp add: word_less_nat_alt)
      then have "least_zero_from bm (32 * w) r"
        using r(2) below by (auto simp: least_zero_from_def)
      then show ?thesis
        using past False r(1) w(1) all_ones_bit [of ?v] by (simp add: array_get_def)
    qed
  qed
qed

text \<open>
  C37: the first-zero search of a well-formed bitmap returns the least clear bit below
  \<open>count\<close>, and \<open>count\<close> itself exactly when every bit below it is set.
\<close>

theorem find_first_zero_correct:
  assumes "bm_wf bm"
  shows "\<exists>r. jlos_bitmap_find_first_zero bm = Some r
     \<and> (\<forall>j<unat r. bm_bit bm j)
     \<and> (r = bm_count bm \<or> (r < bm_count bm \<and> \<not> bm_bit bm (unat r)))"
proof -
  obtain r where "scan_zero bm (unat (bm_words bm)) 0 = Some r" "least_zero_from bm 0 r"
    using scan_zero_result [OF assms, of 0] by auto
  moreover from this(2) have "r = bm_count bm \<or> (r < bm_count bm \<and> \<not> bm_bit bm (unat r))"
    by (metis least_zero_from_def word_less_nat_alt word_le_nat_alt order_le_less)
  ultimately show ?thesis
    by (auto simp: jlos_bitmap_find_first_zero_def least_zero_from_def)
qed

theorem find_first_zero_correct_witness:
  "\<exists>r. jlos_bitmap_find_first_zero (jlos_bitmap_init [0xFFFFFFFF, 7] 40) = Some r
     \<and> (\<forall>j<unat r. bm_bit (jlos_bitmap_init [0xFFFFFFFF, 7] 40) j)
     \<and> (r = bm_count (jlos_bitmap_init [0xFFFFFFFF, 7] 40)
        \<or> (r < bm_count (jlos_bitmap_init [0xFFFFFFFF, 7] 40)
            \<and> \<not> bm_bit (jlos_bitmap_init [0xFFFFFFFF, 7] 40) (unat r)))"
  by (rule find_first_zero_correct, rule bm_wf_init) simp_all

lemma low_mask_bit: "bit (NOT (push_bit k 1 - 1) :: u32) n \<longleftrightarrow> k \<le> n \<and> n < 32"
proof -
  have "push_bit k 1 - 1 = (mask k :: u32)" by (simp add: mask_eq_decr_exp)
  then show ?thesis by (auto simp: bit_not_iff bit_mask_iff)
qed

text \<open>
  From a start inside a word the next-zero search masks the bits below the start away
  before it inverts the word, so they count as clear: whenever the word has a clear bit
  at or above the start, the result is the first bit of the word, below the start.
\<close>

lemma find_next_zero_before_start:
  assumes wf: "bm_wf bm" and start: "start < bm_count bm" "start mod 32 \<noteq> 0"
    and zero: "unat start \<le> j" "j < 32 * (unat start div 32 + 1)" "\<not> bm_bit bm j"
  shows "\<exists>r. jlos_bitmap_find_next_zero bm start = Some r \<and> r < start"
proof -
  let ?w = "unat start div 32" and ?k = "unat start mod 32"
  let ?mask = "NOT (push_bit ?k 1 - 1) :: u32"
  let ?masked = "bits bm ! ?w AND ?mask"
  have w: "?w < length (bits bm)"
    using bm_index_in_range [OF wf, of "unat start"] start by (simp add: word_less_nat_alt)
  have k: "0 < ?k"
    using start(2) by (simp add: word_unat_eq_iff unat_word_index)
  have "32 * ?w \<le> j" using zero(1) by simp
  then have "\<not> bit (bits bm ! ?w) (j - 32 * ?w)"
    using bm_bit_in_word [of ?w j bm] zero by simp
  moreover have "bit ?mask (j - 32 * ?w)"
    using zero unfolding low_mask_bit by (simp add: modulo_nat_def) linarith
  ultimately have masked: "?masked \<noteq> ?mask"
    by (metis bit_and_iff)
  have "\<not> bit ?mask 0" unfolding low_mask_bit using k by simp
  then have "bit (NOT ?masked) 0" by (simp only: bit_not_iff bit_and_iff) simp
  then have ctz: "builtin_ctz (NOT ?masked) = 0"
    using builtin_ctz_le by fastforce
  have less: "32 * ?w < unat start"
    using k by (metis add.commute less_add_same_cancel2 mult_div_mod_eq)
  moreover have "32 * ?w < 2 ^ 32"
    by (rule less_trans [OF less]) simp
  then have "unat (of_nat (32 * ?w) :: u32) = 32 * ?w" by (rule unat_of_nat_u32)
  ultimately have lt: "(of_nat (?w * 32) :: u32) < start"
    by (simp add: word_less_nat_alt mult.commute)
  then have "(of_nat (?w * 32) :: u32) < bm_count bm"
    using start(1) by (rule less_trans)
  then show ?thesis
    using start(1) w masked ctz lt
    by (auto simp: jlos_bitmap_find_next_zero_def array_get_def unat_word_index Let_def dest: leD)
qed

text \<open>
  The bit test reads word \<open>i % 32\<close>: on a one-word bitmap every index but 0 is an access
  past the end of the array.
\<close>

lemma bitmap_test_out_of_range:
  assumes "length (bits bm) = 1" and "i < bm_count bm" and "i mod 32 \<noteq> 0"
  shows "jlos_bitmap_test bm i = None"
  using assms by (simp add: jlos_bitmap_test_def array_get_def not_le unat_word_index word_unat_eq_iff)

text \<open>On a larger bitmap the test misses a bit that was just set.\<close>

lemma bitmap_test_misses_set_bit:
  "Option.bind (jlos_bitmap_set (jlos_bitmap_init [0, 0] 64) 32) (\<lambda>bm. jlos_bitmap_test bm 32) = Some False"
  by code_simp

text \<open>The first-set search of an empty bitmap runs past the last word.\<close>

lemma scan_set_zeros:
  "\<forall>v\<in>set (bits bm). v = 0 \<Longrightarrow> w \<le> length (bits bm) \<Longrightarrow> length (bits bm) < w + n \<Longrightarrow> scan_set bm n w = None"
proof (induction n arbitrary: w)
  case (Suc n)
  then show ?case
    by (cases "w < length (bits bm)") (auto simp: array_get_def)
qed simp

lemma find_first_set_out_of_range:
  "\<forall>v\<in>set (bits bm). v = 0 \<Longrightarrow> length (bits bm) < unat (bm_count bm) \<Longrightarrow> jlos_bitmap_find_first_set bm = None"
  by (simp add: jlos_bitmap_find_first_set_def scan_set_zeros)

end
