(* ===== verification/Ringbuf.thy ===== *)
theory Ringbuf
  imports Jlos_Prelude
begin

text \<open>
  \<^verbatim>\<open>dsa/ringbuf.c\<close>: a byte ring of a power-of-two size whose 32-bit \<open>in\<close> and \<open>out\<close>
  counters run freely and wrap. The copies of the source are list slices; a copy
  that leaves its buffer is \<open>None\<close>. The main result is that the ring is a byte queue.
\<close>

section \<open>Model\<close>

record jlos_ringbuf =
  rb_buffer :: "u8 list"
  rb_size :: u32
  rb_mask :: u32
  rb_in :: u32
  rb_out :: u32

definition copy_from :: "u8 list \<Rightarrow> nat \<Rightarrow> nat \<Rightarrow> u8 list option" where
  "copy_from src off n = (if off + n \<le> length src then Some (take n (drop off src)) else None)"

definition copy_to :: "u8 list \<Rightarrow> nat \<Rightarrow> u8 list \<Rightarrow> u8 list option" where
  "copy_to dst off xs =
     (if off + length xs \<le> length dst then Some (take off dst @ xs @ drop (off + length xs) dst) else None)"

definition jlos_ringbuf_init :: "u8 list \<Rightarrow> u32 \<Rightarrow> jlos_ringbuf" where
  "jlos_ringbuf_init buffer sz =
     \<lparr>rb_buffer = buffer, rb_size = sz, rb_mask = sz - 1, rb_in = 0, rb_out = 0\<rparr>"

definition jlos_ringbuf_reset :: "jlos_ringbuf \<Rightarrow> jlos_ringbuf" where
  "jlos_ringbuf_reset rf = rf\<lparr>rb_in := 0, rb_out := 0\<rparr>"

definition jlos_ringbuf_count :: "jlos_ringbuf \<Rightarrow> u32" where
  "jlos_ringbuf_count rf = rb_in rf - rb_out rf"

definition jlos_ringbuf_free :: "jlos_ringbuf \<Rightarrow> u32" where
  "jlos_ringbuf_free rf = rb_size rf - jlos_ringbuf_count rf"

definition jlos_ringbuf_is_empty :: "jlos_ringbuf \<Rightarrow> bool" where
  "jlos_ringbuf_is_empty rf \<longleftrightarrow> rb_in rf = rb_out rf"

definition jlos_ringbuf_is_full :: "jlos_ringbuf \<Rightarrow> bool" where
  "jlos_ringbuf_is_full rf \<longleftrightarrow> jlos_ringbuf_count rf = rb_size rf"

definition jlos_ringbuf_write :: "jlos_ringbuf \<Rightarrow> u8 list \<Rightarrow> u32 \<Rightarrow> (jlos_ringbuf \<times> u32) option" where
  "jlos_ringbuf_write rf data len =
     (let free = jlos_ringbuf_free rf;
          len = (if free < len then free else len);
          off = rb_in rf AND rb_mask rf;
          l = rb_size rf - off;
          buf = (if l < len then
                   Option.bind (copy_from data 0 (unat l)) (\<lambda>xs.
                   Option.bind (copy_to (rb_buffer rf) (unat off) xs) (\<lambda>b.
                   Option.bind (copy_from data (unat l) (unat (len - l))) (\<lambda>ys.
                   copy_to b 0 ys)))
                 else
                   Option.bind (copy_from data 0 (unat len)) (\<lambda>xs.
                   copy_to (rb_buffer rf) (unat off) xs))
      in map_option (\<lambda>b. (rf\<lparr>rb_buffer := b, rb_in := rb_in rf + len\<rparr>, len)) buf)"

text \<open>\<open>read\<close> and \<open>peek\<close> have the same body but for the advance of \<open>out\<close>; the bytes put into
  \<open>data\<close> are returned, and their number is the return value of the code.\<close>

definition jlos_ringbuf_peek :: "jlos_ringbuf \<Rightarrow> u32 \<Rightarrow> u8 list option" where
  "jlos_ringbuf_peek rf len =
     (let count = jlos_ringbuf_count rf;
          len = (if count < len then count else len);
          off = rb_out rf AND rb_mask rf;
          l = rb_size rf - off
      in if l < len then
           Option.bind (copy_from (rb_buffer rf) (unat off) (unat l)) (\<lambda>xs.
           map_option (\<lambda>ys. xs @ ys) (copy_from (rb_buffer rf) 0 (unat (len - l))))
         else copy_from (rb_buffer rf) (unat off) (unat len))"

definition jlos_ringbuf_read :: "jlos_ringbuf \<Rightarrow> u32 \<Rightarrow> (jlos_ringbuf \<times> u8 list) option" where
  "jlos_ringbuf_read rf len =
     (let count = jlos_ringbuf_count rf;
          len = (if count < len then count else len);
          off = rb_out rf AND rb_mask rf;
          l = rb_size rf - off;
          data = (if l < len then
                    Option.bind (copy_from (rb_buffer rf) (unat off) (unat l)) (\<lambda>xs.
                    map_option (\<lambda>ys. xs @ ys) (copy_from (rb_buffer rf) 0 (unat (len - l))))
                  else copy_from (rb_buffer rf) (unat off) (unat len))
      in map_option (\<lambda>xs. (rf\<lparr>rb_out := rb_out rf + len\<rparr>, xs)) data)"

section \<open>The byte queue a ring holds\<close>

definition ring_inv :: "jlos_ringbuf \<Rightarrow> bool" where
  "ring_inv rf \<longleftrightarrow> (\<exists>k<32. rb_size rf = 2 ^ k) \<and> rb_mask rf = rb_size rf - 1
     \<and> length (rb_buffer rf) = unat (rb_size rf) \<and> jlos_ringbuf_count rf \<le> rb_size rf"

definition ring_get :: "u8 list \<Rightarrow> nat \<Rightarrow> nat \<Rightarrow> u8 list" where
  "ring_get buf p n = map (\<lambda>i. buf ! ((p + i) mod length buf)) [0..<n]"

definition ring_bytes :: "jlos_ringbuf \<Rightarrow> u8 list" where
  "ring_bytes rf = ring_get (rb_buffer rf) (unat (rb_out rf)) (unat (jlos_ringbuf_count rf))"

lemma ring_inv_init: "k < 32 \<Longrightarrow> length buffer = 2 ^ k \<Longrightarrow> ring_inv (jlos_ringbuf_init buffer (2 ^ k))"
  by (auto simp: ring_inv_def jlos_ringbuf_init_def jlos_ringbuf_count_def unat_2p)

lemma ring_bytes_init [simp]: "ring_bytes (jlos_ringbuf_init buffer sz) = []"
  by (simp add: ring_bytes_def ring_get_def jlos_ringbuf_init_def jlos_ringbuf_count_def)

lemma ring_get_slice: "off + n \<le> length buf \<Longrightarrow> off < length buf \<Longrightarrow> take n (drop off buf) = ring_get buf off n"
  by (intro nth_equalityI) (simp_all add: ring_get_def)

lemma ring_get_mod: "ring_get buf (p mod length buf) n = ring_get buf p n"
  by (simp add: ring_get_def mod_add_left_eq)

lemma ring_get_append: "ring_get buf p (n + m) = ring_get buf p n @ ring_get buf (p + n) m"
  by (intro nth_equalityI) (auto simp: ring_get_def nth_append add.assoc)

text \<open>The two-piece read and the two-piece write, on offsets.\<close>

lemma ring_get_two_pieces:
  assumes "off < length buf" and "n \<le> length buf"
  shows "(if length buf - off < n
          then take (length buf - off) (drop off buf) @ take (n - (length buf - off)) buf
          else take n (drop off buf)) = ring_get buf off n"
proof (cases "length buf - off < n")
  case True
  let ?l = "length buf - off"
  have "ring_get buf off n = ring_get buf off ?l @ ring_get buf (off + ?l) (n - ?l)"
    using True ring_get_append [of buf off ?l "n - ?l"] by simp
  also have "ring_get buf (off + ?l) (n - ?l) = ring_get buf 0 (n - ?l)"
    using assms(1) ring_get_mod [of buf "off + ?l"] by simp
  also have "\<dots> = take (n - ?l) buf"
  proof -
    have "0 + (n - ?l) \<le> length buf" "0 < length buf" using assms by linarith+
    from ring_get_slice [OF this] show ?thesis by simp
  qed
  finally show ?thesis
    using True assms by (simp add: ring_get_slice [of off ?l, symmetric])
qed (use assms in \<open>simp add: ring_get_slice\<close>)

definition ring_put :: "u8 list \<Rightarrow> nat \<Rightarrow> u8 list \<Rightarrow> u8 list" where
  "ring_put buf off xs =
     (if length buf - off < length xs
      then let l = length buf - off in drop l xs @ drop (length xs - l) (take off buf) @ take l xs
      else take off buf @ xs @ drop (off + length xs) buf)"

lemma length_ring_put [simp]:
  "off < length buf \<Longrightarrow> length xs \<le> length buf \<Longrightarrow> length (ring_put buf off xs) = length buf"
  by (auto simp: ring_put_def Let_def)

lemma mod_wrap: "off < N \<Longrightarrow> i < N \<Longrightarrow> (off + i) mod N = (if off + i < N then off + i else off + i - (N::nat))"
  by (simp add: le_mod_geq)

lemma nth_ring_put:
  assumes "off < length buf" and "length xs \<le> length buf" and "i < length buf"
  shows "ring_put buf off xs ! ((off + i) mod length buf)
     = (if i < length xs then xs ! i else buf ! ((off + i) mod length buf))"
  using assms by (auto simp: ring_put_def Let_def mod_wrap nth_append min_def intro: arg_cong [where f = "(!) xs"])

lemma ring_get_put:
  assumes "off < length buf" and "c + length xs \<le> length buf" and "off = (p + c) mod length buf"
  shows "ring_get (ring_put buf off xs) p (c + length xs) = ring_get buf p c @ xs"
proof (rule nth_equalityI)
  show "length (ring_get (ring_put buf off xs) p (c + length xs)) = length (ring_get buf p c @ xs)"
    by (simp add: ring_get_def)
  let ?N = "length buf"
  have len: "length (ring_put buf off xs) = ?N" using assms by simp
  fix i assume "i < length (ring_get (ring_put buf off xs) p (c + length xs))"
  then have i: "i < c + length xs" by (simp add: ring_get_def)
  show "ring_get (ring_put buf off xs) p (c + length xs) ! i = (ring_get buf p c @ xs) ! i"
  proof (cases "i < c")
    case True
    have "(off + (?N - c + i)) mod ?N = (p + c + (?N - c + i)) mod ?N"
      by (simp add: assms(3) mod_add_left_eq)
    also have "p + c + (?N - c + i) = p + i + ?N" using assms(2) by simp
    finally have pos: "(off + (?N - c + i)) mod ?N = (p + i) mod ?N" by simp
    have "ring_put buf off xs ! ((off + (?N - c + i)) mod ?N) = buf ! ((off + (?N - c + i)) mod ?N)"
    proof -
      have "?N - c + i < ?N" "\<not> ?N - c + i < length xs" "length xs \<le> ?N"
        using assms(2) True by linarith+
      then show ?thesis using nth_ring_put [OF assms(1)] by metis
    qed
    then show ?thesis
      using True i len pos by (simp add: ring_get_def nth_append)
  next
    case False
    have "(off + (i - c)) mod ?N = (p + c + (i - c)) mod ?N"
      by (simp only: assms(3) mod_add_left_eq)
    then have "(p + i) mod ?N = (off + (i - c)) mod ?N"
      using False by simp
    moreover have "ring_put buf off xs ! ((off + (i - c)) mod ?N) = xs ! (i - c)"
    proof -
      have "i - c < ?N" "i - c < length xs" "length xs \<le> ?N"
        using assms(2) i False by linarith+
      then show ?thesis using nth_ring_put [OF assms(1)] by metis
    qed
    ultimately show ?thesis
      using False i len by (simp add: ring_get_def nth_append)
  qed
qed

section \<open>The operations refine the queue operations\<close>

lemma ring_inv_facts:
  assumes "ring_inv rf"
  obtains N where "unat (rb_size rf) = N" "length (rb_buffer rf) = N" "0 < N" "N dvd 2 ^ 32"
    "unat (rb_in rf AND rb_mask rf) = unat (rb_in rf) mod N"
    "unat (rb_out rf AND rb_mask rf) = unat (rb_out rf) mod N"
    "unat (jlos_ringbuf_count rf) \<le> N"
    "unat (rb_in rf) mod N = (unat (rb_out rf) + unat (jlos_ringbuf_count rf)) mod N"
proof -
  obtain k where k: "k < 32" "rb_size rf = 2 ^ k" "rb_mask rf = 2 ^ k - 1"
    using assms by (auto simp: ring_inv_def)
  have N: "unat (rb_size rf) = 2 ^ k" using k by (simp add: unat_2p)
  have dvd: "(2::nat) ^ k dvd 2 ^ 32" using k(1) by (intro le_imp_power_dvd) simp
  have "unat (rb_in rf) = (unat (rb_out rf) + unat (jlos_ringbuf_count rf)) mod 2 ^ 32"
    by (simp add: jlos_ringbuf_count_def unat_word_ariths(1) [symmetric, where 'a = 32, simplified])
  then have "unat (rb_in rf) mod 2 ^ k = (unat (rb_out rf) + unat (jlos_ringbuf_count rf)) mod 2 ^ k"
    using dvd by (simp only: mod_mod_cancel)
  then show thesis
    using that [of "2 ^ k"] assms k N dvd
    by (simp add: ring_inv_def unat_and_mask word_le_nat_alt)
qed

text \<open>The copies of \<open>peek\<close>, \<open>read\<close> and \<open>write\<close> stay inside their buffers.\<close>

lemma ring_copy_out:
  fixes off l len :: u32
  assumes "unat off < length buf" and "unat l = length buf - unat off" and "unat len \<le> length buf"
  shows "(if l < len
          then Option.bind (copy_from buf (unat off) (unat l)) (\<lambda>xs.
               map_option (\<lambda>ys. xs @ ys) (copy_from buf 0 (unat (len - l))))
          else copy_from buf (unat off) (unat len)) = Some (ring_get buf (unat off) (unat len))"
proof (cases "l < len")
  case True
  then have "unat (len - l) = unat len - unat l" "unat l < unat len"
    by (simp_all only: unat_sub word_less_nat_alt order_less_imp_le)
  then show ?thesis
    using True assms ring_get_two_pieces [of "unat off" buf "unat len"]
    by (simp add: copy_from_def)
next
  case False
  then have "unat len \<le> unat l" by (simp add: word_less_nat_alt)
  then show ?thesis
    using False assms ring_get_two_pieces [of "unat off" buf "unat len"]
    by (simp add: copy_from_def)
qed

lemma ring_copy_in:
  fixes off l len :: u32
  assumes "unat off < length buf" and "unat l = length buf - unat off" and "unat len \<le> length buf"
    and "unat len \<le> length data"
  shows "(if l < len
          then Option.bind (copy_from data 0 (unat l)) (\<lambda>xs.
               Option.bind (copy_to buf (unat off) xs) (\<lambda>b.
               Option.bind (copy_from data (unat l) (unat (len - l))) (\<lambda>ys. copy_to b 0 ys)))
          else Option.bind (copy_from data 0 (unat len)) (\<lambda>xs. copy_to buf (unat off) xs))
     = Some (ring_put buf (unat off) (take (unat len) data))"
proof (cases "l < len")
  case True
  then have "unat (len - l) = unat len - unat l" "unat l < unat len"
    by (simp_all only: unat_sub word_less_nat_alt order_less_imp_le)
  then show ?thesis
    using True assms
    by (simp add: copy_from_def copy_to_def ring_put_def Let_def take_drop min_def)
next
  case False
  then have "unat len \<le> unat l" by (simp add: word_less_nat_alt)
  then show ?thesis
    using False assms by (simp add: copy_from_def copy_to_def ring_put_def min_def)
qed

lemma length_ring_bytes [simp]: "length (ring_bytes rf) = unat (jlos_ringbuf_count rf)"
  by (simp add: ring_bytes_def ring_get_def)

lemma unat_word_min: "unat (if (c :: u32) < len then c else len) = min (unat len) (unat c)"
  by (auto simp: word_less_nat_alt)

lemma ring_get_take: "ring_get buf p (min n c) = take n (ring_get buf p c)"
  by (simp add: ring_get_def take_map min_def)

lemma ring_peek_bytes:
  assumes "ring_inv rf"
  shows "jlos_ringbuf_peek rf len = Some (take (unat len) (ring_bytes rf))"
proof -
  let ?off = "rb_out rf AND rb_mask rf"
  let ?len = "if jlos_ringbuf_count rf < len then jlos_ringbuf_count rf else len"
  obtain N where N: "unat (rb_size rf) = N" "length (rb_buffer rf) = N" "0 < N"
    "unat ?off = unat (rb_out rf) mod N" "unat (jlos_ringbuf_count rf) \<le> N"
    using ring_inv_facts [OF assms] by metis
  have off: "unat ?off < length (rb_buffer rf)" using N by simp
  have "jlos_ringbuf_peek rf len = Some (ring_get (rb_buffer rf) (unat ?off) (unat ?len))"
    unfolding jlos_ringbuf_peek_def Let_def
    using off N by (intro ring_copy_out) (simp_all add: unat_sub word_le_nat_alt unat_word_min)
  then show ?thesis
    using ring_get_mod [of "rb_buffer rf" "unat (rb_out rf)"] N
    by (simp add: ring_bytes_def unat_word_min ring_get_take)
qed

lemma jlos_ringbuf_read_peek:
  "jlos_ringbuf_read rf len = map_option (\<lambda>xs. (rf\<lparr>rb_out := rb_out rf
     + (if jlos_ringbuf_count rf < len then jlos_ringbuf_count rf else len)\<rparr>, xs)) (jlos_ringbuf_peek rf len)"
  by (simp add: jlos_ringbuf_read_def jlos_ringbuf_peek_def Let_def)

text \<open>
  C28: a read of a well-formed ring returns the oldest bytes, at most \<open>len\<close> of them,
  and leaves the others in order; the counters may have wrapped.
\<close>

theorem ringbuf_read_refines:
  assumes "ring_inv rf"
  shows "\<exists>rf'. jlos_ringbuf_read rf len = Some (rf', take (unat len) (ring_bytes rf))
     \<and> ring_inv rf' \<and> ring_bytes rf' = drop (unat len) (ring_bytes rf)"
proof -
  let ?c = "jlos_ringbuf_count rf"
  let ?len = "if ?c < len then ?c else len"
  let ?rf = "rf\<lparr>rb_out := rb_out rf + ?len\<rparr>"
  have le: "?len \<le> ?c" by (simp add: not_less)
  have count: "jlos_ringbuf_count ?rf = ?c - ?len"
    by (simp add: jlos_ringbuf_count_def)
  then have ucount: "unat (jlos_ringbuf_count ?rf) = unat ?c - unat ?len"
    using le by (simp only: unat_sub)
  obtain N where N: "length (rb_buffer rf) = N" "N dvd 2 ^ 32"
    using ring_inv_facts [OF assms] by metis
  have "unat (rb_out rf + ?len) = (unat (rb_out rf) + unat ?len) mod 2 ^ 32"
    by (simp only: unat_word_ariths len_num0 len_bit0 len_num1) simp
  then have "ring_get (rb_buffer rf) (unat (rb_out rf + ?len)) n
      = ring_get (rb_buffer rf) (unat (rb_out rf) + unat ?len) n" for n
    using N by (metis mod_mod_cancel ring_get_mod)
  then have "ring_bytes ?rf = ring_get (rb_buffer rf) (unat (rb_out rf) + unat ?len) (unat ?c - unat ?len)"
    by (simp only: ring_bytes_def ucount) simp
  also have "\<dots> = drop (unat ?len) (ring_bytes rf)"
    using le ring_get_append [of "rb_buffer rf" "unat (rb_out rf)" "unat ?len" "unat ?c - unat ?len"]
    by (simp add: ring_bytes_def ring_get_def word_le_nat_alt)
  also have "\<dots> = drop (unat len) (ring_bytes rf)"
    by (simp add: unat_word_min min_def)
  finally have bytes: "ring_bytes ?rf = drop (unat len) (ring_bytes rf)" .
  have "unat (?c - ?len) \<le> unat (rb_size rf)"
  proof -
    have "unat ?c \<le> unat (rb_size rf)" using assms by (simp add: ring_inv_def word_le_nat_alt)
    then show ?thesis using ucount unfolding count by linarith
  qed
  then have "ring_inv ?rf"
    using assms count by (simp add: ring_inv_def word_le_nat_alt)
  then show ?thesis
    using bytes by (simp add: jlos_ringbuf_read_peek ring_peek_bytes [OF assms])
qed

theorem ringbuf_read_refines_witness:
  "let rf = \<lparr>rb_buffer = [10, 11, 12, 13], rb_size = 4, rb_mask = 3, rb_in = 1, rb_out = 0xFFFFFFFE\<rparr>
   in \<exists>rf'. jlos_ringbuf_read rf 2 = Some (rf', take (unat (2::u32)) (ring_bytes rf))
     \<and> ring_inv rf' \<and> ring_bytes rf' = drop (unat (2::u32)) (ring_bytes rf)"
  unfolding Let_def
  by (rule ringbuf_read_refines)
    (auto simp: ring_inv_def jlos_ringbuf_count_def intro: exI [of _ 2])

text \<open>
  C14: a write to a well-formed ring appends the longest prefix of the data that fits,
  and returns its length; the bytes already queued are kept.
\<close>

theorem ringbuf_write_refines:
  assumes "ring_inv rf" and "unat len \<le> length data"
  shows "\<exists>rf' n. jlos_ringbuf_write rf data len = Some (rf', n)
     \<and> unat n = min (unat len) (unat (rb_size rf) - length (ring_bytes rf))
     \<and> ring_inv rf' \<and> ring_bytes rf' = ring_bytes rf @ take (unat n) data"
proof -
  let ?c = "jlos_ringbuf_count rf" and ?off = "rb_in rf AND rb_mask rf" and ?buf = "rb_buffer rf"
  define n where "n = (if jlos_ringbuf_free rf < len then jlos_ringbuf_free rf else len)"
  define buf' where "buf' = ring_put ?buf (unat ?off) (take (unat n) data)"
  define rf' where "rf' = rf\<lparr>rb_buffer := buf', rb_in := rb_in rf + n\<rparr>"
  obtain N where N: "unat (rb_size rf) = N" "length ?buf = N" "0 < N"
    "unat ?off = unat (rb_in rf) mod N" "unat ?c \<le> N"
    "unat (rb_in rf) mod N = (unat (rb_out rf) + unat ?c) mod N"
    using ring_inv_facts [OF assms(1)] by metis
  have free: "unat (jlos_ringbuf_free rf) = N - unat ?c"
    using N by (simp add: jlos_ringbuf_free_def unat_sub word_le_nat_alt)
  then have un: "unat n = min (unat len) (N - unat ?c)"
    by (simp only: n_def unat_word_min)
  have off: "unat ?off < length ?buf" using N by simp
  have data: "length (take (unat n) data) = unat n" using un assms(2) by simp
  have fits: "unat ?c + unat n \<le> N" using un N(5) by simp
  have wr: "jlos_ringbuf_write rf data len = Some (rf', n)"
  proof -
    have "unat (rb_size rf - ?off) = length ?buf - unat ?off"
      using off N by (simp add: unat_sub word_le_nat_alt)
    moreover have "unat n \<le> length ?buf" "unat n \<le> length data"
      using fits N un assms(2) by simp_all
    ultimately show ?thesis
      unfolding jlos_ringbuf_write_def Let_def n_def [symmetric]
      by (subst ring_copy_in [OF off]) (simp_all add: rf'_def buf'_def)
  qed
  have count: "jlos_ringbuf_count rf' = ?c + n"
    by (simp add: jlos_ringbuf_count_def rf'_def)
  have "N < 2 ^ 32" using N(1) unat_lt_pow2 [of "rb_size rf"] by simp
  then have ucount: "unat (jlos_ringbuf_count rf') = unat ?c + unat n"
    using fits unat_plus_noov [of ?c n] unfolding count by simp
  have len': "length buf' = N" using off data fits N by (simp add: buf'_def)
  have "ring_bytes rf' = ring_get buf' (unat (rb_out rf)) (unat ?c + unat n)"
    by (simp only: ring_bytes_def ucount) (simp add: rf'_def)
  also have "\<dots> = ring_bytes rf @ take (unat n) data"
    using ring_get_put [of "unat ?off" ?buf "unat ?c" "take (unat n) data" "unat (rb_out rf)"] off data fits N
    by (simp add: buf'_def ring_bytes_def)
  finally have "ring_bytes rf' = ring_bytes rf @ take (unat n) data" .
  moreover have "ring_inv rf'"
    using assms(1) len' N ucount fits by (simp add: ring_inv_def rf'_def word_le_nat_alt)
  ultimately show ?thesis
    using wr un N by simp
qed

theorem ringbuf_write_refines_witness:
  "let rf = \<lparr>rb_buffer = [10, 11, 12, 13], rb_size = 4, rb_mask = 3, rb_in = 1, rb_out = 0xFFFFFFFE\<rparr>
   in \<exists>rf' n. jlos_ringbuf_write rf [20, 21, 22] 3 = Some (rf', n)
     \<and> unat n = min (unat (3::u32)) (unat (rb_size rf) - length (ring_bytes rf))
     \<and> ring_inv rf' \<and> ring_bytes rf' = ring_bytes rf @ take (unat n) [20, 21, 22]"
  unfolding Let_def
  by (rule ringbuf_write_refines)
    (auto simp: ring_inv_def jlos_ringbuf_count_def intro: exI [of _ 2])

lemma ringbuf_empty_iff: "jlos_ringbuf_is_empty rf \<longleftrightarrow> ring_bytes rf = []"
  by (auto simp: jlos_ringbuf_is_empty_def jlos_ringbuf_count_def unat_eq_0
      simp flip: length_0_conv)

lemma ringbuf_full_iff: "jlos_ringbuf_is_full rf \<longleftrightarrow> length (ring_bytes rf) = unat (rb_size rf)"
  by (simp add: jlos_ringbuf_is_full_def word_unat_eq_iff)

end
