(* ===== verification/Sort_Search.thy ===== *)
theory Sort_Search
  imports Jlos_Prelude
begin

text \<open>
  \<^verbatim>\<open>dsa/sort.c\<close>, \<^verbatim>\<open>dsa/search.c\<close> and their client \<^verbatim>\<open>kernel/exception_recover.c\<close>. An
  array of \<open>count\<close> elements of \<open>size\<close> bytes is the list of its elements: the byte-wise
  swap of the source exchanges two whole elements, and element \<open>i\<close> is the address
  \<open>base + i * size\<close>. The comparison callback is a parameter; the locales state what
  the sort and the search require of it, and the exception table's callbacks meet it.
\<close>

section \<open>Model\<close>

definition jlos_sort_swap :: "'a list \<Rightarrow> nat \<Rightarrow> nat \<Rightarrow> 'a list" where
  "jlos_sort_swap xs a b = xs[a := xs ! b, b := xs ! a]"

text \<open>The child the loop of \<open>jlos_heap_sift_down\<close> compares the root with: the larger one.\<close>

definition larger_child :: "('a \<Rightarrow> 'a \<Rightarrow> int) \<Rightarrow> 'a list \<Rightarrow> nat \<Rightarrow> nat \<Rightarrow> nat" where
  "larger_child cmp xs root cnt =
     (let child = root * 2 + 1
      in if child + 1 < cnt \<and> cmp (xs ! child) (xs ! (child + 1)) < 0 then child + 1 else child)"

lemma larger_child_range:
  "root * 2 + 1 < cnt \<Longrightarrow> root < larger_child cmp xs root cnt \<and> larger_child cmp xs root cnt < cnt"
  by (auto simp: larger_child_def Let_def)

function jlos_heap_sift_down :: "('a \<Rightarrow> 'a \<Rightarrow> int) \<Rightarrow> 'a list \<Rightarrow> nat \<Rightarrow> nat \<Rightarrow> 'a list" where
  "jlos_heap_sift_down cmp xs root cnt =
     (if root * 2 + 1 < cnt then
        let child = larger_child cmp xs root cnt
        in if cmp (xs ! root) (xs ! child) < 0
           then jlos_heap_sift_down cmp (jlos_sort_swap xs root child) child cnt
           else xs
      else xs)"
  by pat_completeness auto

termination
proof (relation "measure (\<lambda>(_, _, root, cnt). cnt - root)")
  fix cmp and xs :: "'a list" and root cnt child :: nat
  assume "root * 2 + 1 < cnt" and "child = larger_child cmp xs root cnt"
  then show "((cmp, jlos_sort_swap xs root child, child, cnt), cmp, xs, root, cnt)
      \<in> measure (\<lambda>(_, _, root, cnt). cnt - root)"
    using larger_child_range [of root cnt cmp xs] by (simp add: diff_less_mono2)
qed simp

declare jlos_heap_sift_down.simps [simp del]

text \<open>The two loops of the heap sort: \<open>start\<close> counts down to 1, then \<open>end\<close> does.\<close>

fun heap_build :: "('a \<Rightarrow> 'a \<Rightarrow> int) \<Rightarrow> 'a list \<Rightarrow> nat \<Rightarrow> nat \<Rightarrow> 'a list" where
  "heap_build cmp xs 0 cnt = xs"
| "heap_build cmp xs (Suc start) cnt = heap_build cmp (jlos_heap_sift_down cmp xs start cnt) start cnt"

fun heap_extract :: "('a \<Rightarrow> 'a \<Rightarrow> int) \<Rightarrow> 'a list \<Rightarrow> nat \<Rightarrow> 'a list" where
  "heap_extract cmp xs 0 = xs"
| "heap_extract cmp xs (Suc e) =
     heap_extract cmp (jlos_heap_sift_down cmp (jlos_sort_swap xs 0 (Suc e)) 0 (Suc e)) e"

definition jlos_heap_sort :: "('a \<Rightarrow> 'a \<Rightarrow> int) \<Rightarrow> 'a list \<Rightarrow> nat \<Rightarrow> nat \<Rightarrow> 'a list" where
  "jlos_heap_sort cmp xs cnt sz =
     (if cnt < 2 \<or> sz = 0 then xs
      else heap_extract cmp (heap_build cmp xs (cnt div 2) cnt) (cnt - 1))"

fun insertion_inner :: "('a \<Rightarrow> 'a \<Rightarrow> int) \<Rightarrow> 'a list \<Rightarrow> nat \<Rightarrow> 'a list" where
  "insertion_inner cmp xs 0 = xs"
| "insertion_inner cmp xs (Suc j) =
     (if 0 < cmp (xs ! j) (xs ! Suc j) then insertion_inner cmp (jlos_sort_swap xs j (Suc j)) j else xs)"

definition jlos_insertion_sort :: "('a \<Rightarrow> 'a \<Rightarrow> int) \<Rightarrow> 'a list \<Rightarrow> nat \<Rightarrow> 'a list" where
  "jlos_insertion_sort cmp xs cnt = fold (\<lambda>i ys. insertion_inner cmp ys i) [1..<cnt] xs"

text \<open>The bounds return the index of the element the pointer addresses.\<close>

function lower_loop :: "('k \<Rightarrow> 'a \<Rightarrow> int) \<Rightarrow> 'k \<Rightarrow> 'a list \<Rightarrow> nat \<Rightarrow> nat \<Rightarrow> nat" where
  "lower_loop cmp key xs lo n =
     (if 0 < n then
        let half = n div 2; mid = lo + half
        in if 0 < cmp key (xs ! mid) then lower_loop cmp key xs (mid + 1) (n - (half + 1))
           else lower_loop cmp key xs lo half
      else lo)"
  by pat_completeness auto

termination
  by (relation "measure (\<lambda>(_, _, _, _, n). n)") auto

function upper_loop :: "('k \<Rightarrow> 'a \<Rightarrow> int) \<Rightarrow> 'k \<Rightarrow> 'a list \<Rightarrow> nat \<Rightarrow> nat \<Rightarrow> nat" where
  "upper_loop cmp key xs lo n =
     (if 0 < n then
        let half = n div 2; mid = lo + half
        in if 0 \<le> cmp key (xs ! mid) then upper_loop cmp key xs (mid + 1) (n - (half + 1))
           else upper_loop cmp key xs lo half
      else lo)"
  by pat_completeness auto

termination
  by (relation "measure (\<lambda>(_, _, _, _, n). n)") auto

declare lower_loop.simps [simp del] upper_loop.simps [simp del]

definition jlos_lower_bound :: "('k \<Rightarrow> 'a \<Rightarrow> int) \<Rightarrow> 'k \<Rightarrow> 'a list \<Rightarrow> nat \<Rightarrow> nat" where
  "jlos_lower_bound cmp key xs cnt = lower_loop cmp key xs 0 cnt"

definition jlos_upper_bound :: "('k \<Rightarrow> 'a \<Rightarrow> int) \<Rightarrow> 'k \<Rightarrow> 'a list \<Rightarrow> nat \<Rightarrow> nat" where
  "jlos_upper_bound cmp key xs cnt = upper_loop cmp key xs 0 cnt"

definition jlos_bsearch :: "('k \<Rightarrow> 'a \<Rightarrow> int) \<Rightarrow> 'k \<Rightarrow> 'a list \<Rightarrow> nat \<Rightarrow> nat option" where
  "jlos_bsearch cmp key xs cnt =
     (let found = jlos_lower_bound cmp key xs cnt
      in if found < cnt \<and> cmp key (xs ! found) = 0 then Some found else None)"

subsection \<open>The exception table\<close>

record jlos_er_extable_entry =
  insn :: u64
  fixup :: u64

definition jlos_extable_order_cmp :: "jlos_er_extable_entry \<Rightarrow> jlos_er_extable_entry \<Rightarrow> int" where
  "jlos_extable_order_cmp a b =
     (if insn a < insn b then -1 else if insn a > insn b then 1 else 0)"

definition jlos_extable_cmp :: "u64 \<Rightarrow> jlos_er_extable_entry \<Rightarrow> int" where
  "jlos_extable_cmp k e = (if k < insn e then -1 else if k > insn e then 1 else 0)"

definition jlos_extable_sort_init :: "jlos_er_extable_entry list \<Rightarrow> jlos_er_extable_entry list" where
  "jlos_extable_sort_init tbl = jlos_heap_sort jlos_extable_order_cmp tbl (length tbl) 16"

definition jlos_er_extable_lookup :: "jlos_er_extable_entry list \<Rightarrow> u64 \<Rightarrow> u64" where
  "jlos_er_extable_lookup tbl fault_insn =
     (case jlos_bsearch jlos_extable_cmp fault_insn tbl (length tbl) of
        None \<Rightarrow> 0
      | Some i \<Rightarrow> fixup (tbl ! i))"

section \<open>Permutation and frame\<close>

lemma length_swap [simp]: "length (jlos_sort_swap xs a b) = length xs"
  by (simp add: jlos_sort_swap_def)

lemma swap_nth:
  "a < length xs \<Longrightarrow> b < length xs \<Longrightarrow> i < length xs \<Longrightarrow>
     jlos_sort_swap xs a b ! i = (if i = b then xs ! a else if i = a then xs ! b else xs ! i)"
  by (auto simp: jlos_sort_swap_def nth_list_update)

lemma mset_swap_part:
  "a < n \<Longrightarrow> b < n \<Longrightarrow> n \<le> length xs \<Longrightarrow> mset (take n (jlos_sort_swap xs a b)) = mset (take n xs)"
  using mset_swap [of b "take n xs" a] by (simp add: jlos_sort_swap_def take_update_swap)

lemma drop_swap: "a < n \<Longrightarrow> b < n \<Longrightarrow> drop n (jlos_sort_swap xs a b) = drop n xs"
  by (simp add: jlos_sort_swap_def)

text \<open>\<open>permutes_prefix n xs ys\<close>: the first \<open>n\<close> elements are permuted, the others kept.\<close>

definition permutes_prefix :: "nat \<Rightarrow> 'a list \<Rightarrow> 'a list \<Rightarrow> bool" where
  "permutes_prefix n xs ys \<longleftrightarrow>
     length ys = length xs \<and> mset (take n ys) = mset (take n xs) \<and> drop n ys = drop n xs"

lemma permutes_prefix_refl [simp]: "permutes_prefix n xs xs"
  by (simp add: permutes_prefix_def)

lemma permutes_prefix_trans [trans]:
  "permutes_prefix n xs ys \<Longrightarrow> permutes_prefix n ys zs \<Longrightarrow> permutes_prefix n xs zs"
  by (simp add: permutes_prefix_def)

lemma permutes_prefix_swap:
  "a < n \<Longrightarrow> b < n \<Longrightarrow> n \<le> length xs \<Longrightarrow> permutes_prefix n xs (jlos_sort_swap xs a b)"
  by (simp add: permutes_prefix_def mset_swap_part drop_swap)

lemma permutes_prefix_mono:
  assumes "permutes_prefix n xs ys" and "n \<le> m"
  shows "permutes_prefix m xs ys"
proof -
  have 1: "take m zs = take n zs @ take (m - n) (drop n zs)" for zs :: "'a list"
    using assms(2) take_add [of n "m - n" zs] by simp
  have 2: "drop m zs = drop (m - n) (drop n zs)" for zs :: "'a list"
    using assms(2) by simp
  show ?thesis
    using assms(1) unfolding permutes_prefix_def 1 2 by simp
qed

lemma sift_down_stop:
  "\<not> (root * 2 + 1 < cnt \<and> cmp (xs ! root) (xs ! larger_child cmp xs root cnt) < 0) \<Longrightarrow>
     jlos_heap_sift_down cmp xs root cnt = xs"
  by (auto simp: jlos_heap_sift_down.simps [of cmp xs] Let_def)

lemma sift_down_go:
  "root * 2 + 1 < cnt \<Longrightarrow> cmp (xs ! root) (xs ! larger_child cmp xs root cnt) < 0 \<Longrightarrow>
     jlos_heap_sift_down cmp xs root cnt =
     jlos_heap_sift_down cmp (jlos_sort_swap xs root (larger_child cmp xs root cnt)) (larger_child cmp xs root cnt) cnt"
  by (simp add: jlos_heap_sift_down.simps [of cmp xs] Let_def)

lemma sift_down_permutes:
  "cnt \<le> length xs \<Longrightarrow> permutes_prefix cnt xs (jlos_heap_sift_down cmp xs root cnt)"
proof (induction "cnt - root" arbitrary: xs root rule: less_induct)
  case less
  let ?c = "larger_child cmp xs root cnt"
  show ?case
  proof (cases "root * 2 + 1 < cnt \<and> cmp (xs ! root) (xs ! ?c) < 0")
    case True
    then have c: "root < ?c" "?c < cnt" using larger_child_range [of root cnt cmp xs] by auto
    have "permutes_prefix cnt xs (jlos_sort_swap xs root ?c)"
      using c less.prems by (intro permutes_prefix_swap) auto
    also have "permutes_prefix cnt \<dots> (jlos_heap_sift_down cmp (jlos_sort_swap xs root ?c) ?c cnt)"
      using c less.prems by (intro less.hyps) (auto intro: diff_less_mono2)
    finally show ?thesis using True by (simp add: sift_down_go)
  next
    case False
    then show ?thesis by (simp add: sift_down_stop)
  qed
qed

lemma heap_build_permutes:
  "cnt \<le> length xs \<Longrightarrow> permutes_prefix cnt xs (heap_build cmp xs start cnt)"
proof (induction start arbitrary: xs)
  case (Suc start)
  have "permutes_prefix cnt xs (jlos_heap_sift_down cmp xs start cnt)"
    using Suc.prems by (rule sift_down_permutes)
  also from this have "permutes_prefix cnt \<dots> (heap_build cmp (jlos_heap_sift_down cmp xs start cnt) start cnt)"
    using Suc.prems by (intro Suc.IH) (simp add: permutes_prefix_def)
  finally show ?case by simp
qed simp

lemma heap_extract_permutes:
  "e < length xs \<Longrightarrow> permutes_prefix (Suc e) xs (heap_extract cmp xs e)"
proof (induction e arbitrary: xs)
  case (Suc e)
  let ?ys = "jlos_sort_swap xs 0 (Suc e)"
  let ?zs = "jlos_heap_sift_down cmp ?ys 0 (Suc e)"
  have sw: "permutes_prefix (Suc (Suc e)) xs ?ys"
    using Suc.prems by (intro permutes_prefix_swap) auto
  have si: "permutes_prefix (Suc e) ?ys ?zs"
    using Suc.prems by (intro sift_down_permutes) simp
  have "permutes_prefix (Suc e) ?zs (heap_extract cmp ?zs e)"
    using si Suc.prems by (intro Suc.IH) (simp add: permutes_prefix_def)
  then have "permutes_prefix (Suc (Suc e)) ?zs (heap_extract cmp ?zs e)"
    by (rule permutes_prefix_mono) simp
  with sw permutes_prefix_mono [OF si, of "Suc (Suc e)"] show ?case
    by (metis heap_extract.simps(2) le_Suc_eq permutes_prefix_trans)
qed simp

lemma jlos_heap_sort_mset:
  assumes "cnt = length xs"
  shows "mset (jlos_heap_sort cmp xs cnt sz) = mset xs"
proof (cases "cnt < 2 \<or> sz = 0")
  case False
  let ?ys = "heap_build cmp xs (cnt div 2) cnt"
  have b: "permutes_prefix cnt xs ?ys" using assms by (intro heap_build_permutes) simp
  then have "permutes_prefix (Suc (cnt - 1)) ?ys (heap_extract cmp ?ys (cnt - 1))"
    using assms False by (intro heap_extract_permutes) (auto simp: permutes_prefix_def)
  with b show ?thesis
    using assms False by (auto simp: jlos_heap_sort_def permutes_prefix_def)
qed (simp add: jlos_heap_sort_def)

section \<open>Sorting, for a comparison that is a total preorder\<close>

text \<open>
  \<open>heap_from\<close>: every node from \<open>lo\<close> on dominates its children. \<open>heap_except\<close> leaves out the
  children of \<open>root\<close>, which the parent of \<open>root\<close> still dominates.
\<close>

definition child_of :: "nat \<Rightarrow> nat \<Rightarrow> bool" where
  "child_of p c \<longleftrightarrow> c = 2 * p + 1 \<or> c = 2 * p + 2"

definition heap_from :: "('a \<Rightarrow> 'a \<Rightarrow> int) \<Rightarrow> 'a list \<Rightarrow> nat \<Rightarrow> nat \<Rightarrow> bool" where
  "heap_from cmp xs lo cnt \<longleftrightarrow>
     (\<forall>p c. lo \<le> p \<longrightarrow> child_of p c \<longrightarrow> c < cnt \<longrightarrow> cmp (xs ! c) (xs ! p) \<le> 0)"

definition heap_except :: "('a \<Rightarrow> 'a \<Rightarrow> int) \<Rightarrow> 'a list \<Rightarrow> nat \<Rightarrow> nat \<Rightarrow> nat \<Rightarrow> bool" where
  "heap_except cmp xs lo root cnt \<longleftrightarrow>
     (\<forall>p c. lo \<le> p \<longrightarrow> p \<noteq> root \<longrightarrow> child_of p c \<longrightarrow> c < cnt \<longrightarrow> cmp (xs ! c) (xs ! p) \<le> 0)
     \<and> (\<forall>p c. lo \<le> p \<longrightarrow> child_of p root \<longrightarrow> child_of root c \<longrightarrow> c < cnt \<longrightarrow> cmp (xs ! c) (xs ! p) \<le> 0)"

lemma child_of_unique: "child_of p c \<Longrightarrow> child_of q c \<Longrightarrow> p = q"
  unfolding child_of_def by arith

lemma child_of_less: "child_of p c \<Longrightarrow> p < c"
  by (auto simp: child_of_def)

lemma child_of_larger: "root * 2 + 1 < cnt \<Longrightarrow> child_of root (larger_child cmp xs root cnt)"
  by (auto simp: child_of_def larger_child_def Let_def)

locale sort_order =
  fixes cmp :: "'a \<Rightarrow> 'a \<Rightarrow> int"
  assumes cmp_swap: "cmp x y < 0 \<longleftrightarrow> 0 < cmp y x"
    and cmp_trans: "cmp x y \<le> 0 \<Longrightarrow> cmp y z \<le> 0 \<Longrightarrow> cmp x z \<le> 0"
begin

lemma cmp_refl: "cmp x x \<le> 0"
  using cmp_swap [of x x] by linarith

lemma larger_child_max:
  assumes "child_of root c" and "c < cnt"
  shows "cmp (xs ! c) (xs ! larger_child cmp xs root cnt) \<le> 0"
  using assms cmp_refl cmp_swap [of "xs ! (root * 2 + 1)" "xs ! (root * 2 + 2)"]
  by (auto simp: child_of_def larger_child_def Let_def mult.commute not_less intro: less_imp_le)

lemma heap_except_swap:
  assumes h: "heap_except cmp xs lo root cnt" and r: "lo \<le> root" "root * 2 + 1 < cnt" "cnt \<le> length xs"
    and lt: "cmp (xs ! root) (xs ! larger_child cmp xs root cnt) < 0"
  shows "heap_except cmp (jlos_sort_swap xs root (larger_child cmp xs root cnt)) lo (larger_child cmp xs root cnt) cnt"
proof -
  let ?k = "larger_child cmp xs root cnt"
  let ?ys = "jlos_sort_swap xs root ?k"
  have k: "child_of root ?k" "root < ?k" "?k < cnt"
    using child_of_larger [OF r(2)] larger_child_range [OF r(2)] by auto
  have ys: "?ys ! i = (if i = ?k then xs ! root else if i = root then xs ! ?k else xs ! i)" if "i < cnt" for i
    using that k r(3) by (intro swap_nth) auto
  have "cmp (?ys ! c) (?ys ! p) \<le> 0" if pc: "lo \<le> p" "p \<noteq> ?k" "child_of p c" "c < cnt" for p c
  proof (cases "p = root")
    case True
    then show ?thesis
      using pc k lt larger_child_max [of root c cnt xs] child_of_less [of p c] by (auto simp: ys)
  next
    case False
    then have "c \<noteq> ?k" using pc(3) k(1) child_of_unique by blast
    moreover have "p < cnt" using pc child_of_less [of p c] by simp
    ultimately show ?thesis
      using False pc k h by (auto simp: ys heap_except_def)
  qed
  moreover have "cmp (?ys ! c) (?ys ! p) \<le> 0"
    if pc: "lo \<le> p" "child_of p ?k" "child_of ?k c" "c < cnt" for p c
  proof -
    have "p = root" using pc(2) k(1) by (rule child_of_unique)
    then show ?thesis
      using pc k r h child_of_less [of ?k c] by (auto simp: ys heap_except_def)
  qed
  ultimately show ?thesis by (simp add: heap_except_def)
qed

lemma sift_down_heap:
  "heap_except cmp xs lo root cnt \<Longrightarrow> lo \<le> root \<Longrightarrow> cnt \<le> length xs \<Longrightarrow>
     heap_from cmp (jlos_heap_sift_down cmp xs root cnt) lo cnt"
proof (induction "cnt - root" arbitrary: xs root rule: less_induct)
  case less
  let ?k = "larger_child cmp xs root cnt"
  show ?case
  proof (cases "root * 2 + 1 < cnt \<and> cmp (xs ! root) (xs ! ?k) < 0")
    case True
    then have k: "root < ?k" "?k < cnt" using larger_child_range [of root cnt cmp xs] by auto
    have "heap_from cmp (jlos_heap_sift_down cmp (jlos_sort_swap xs root ?k) ?k cnt) lo cnt"
      using True k less.prems heap_except_swap
      by (intro less.hyps) (auto intro: diff_less_mono2)
    then show ?thesis using True by (simp add: sift_down_go)
  next
    case False
    have "cmp (xs ! c) (xs ! root) \<le> 0" if c: "child_of root c" "c < cnt" for c
    proof -
      have "root * 2 + 1 < cnt" using c by (auto simp: child_of_def)
      then have "cmp (xs ! ?k) (xs ! root) \<le> 0"
        using False cmp_swap [of "xs ! root" "xs ! ?k"] by auto
      with larger_child_max [OF c] show ?thesis by (rule cmp_trans)
    qed
    then have "heap_from cmp xs lo cnt"
      using less.prems(1) by (auto simp: heap_from_def heap_except_def)
    then show ?thesis using False by (simp add: sift_down_stop)
  qed
qed

lemma heap_build_heap:
  "heap_from cmp xs start cnt \<Longrightarrow> cnt \<le> length xs \<Longrightarrow> heap_from cmp (heap_build cmp xs start cnt) 0 cnt"
proof (induction start arbitrary: xs)
  case (Suc start)
  have "heap_except cmp xs start start cnt"
    using Suc.prems(1) child_of_less by (fastforce simp: heap_except_def heap_from_def)
  then have "heap_from cmp (jlos_heap_sift_down cmp xs start cnt) start cnt"
    using Suc.prems(2) by (intro sift_down_heap) simp_all
  then show ?case
    using sift_down_permutes [OF Suc.prems(2), of cmp start] Suc.prems(2)
    by (simp add: Suc.IH permutes_prefix_def)
qed simp

lemma heap_max:
  "heap_from cmp xs 0 cnt \<Longrightarrow> i < cnt \<Longrightarrow> cmp (xs ! i) (xs ! 0) \<le> 0"
proof (induction i rule: less_induct)
  case (less i)
  show ?case
  proof (cases "i = 0")
    case False
    have pc: "child_of ((i - 1) div 2) i" using False by (simp add: child_of_def) arith
    then have "cmp (xs ! i) (xs ! ((i - 1) div 2)) \<le> 0"
      using less.prems by (auto simp: heap_from_def)
    then show ?thesis
      using cmp_trans less.IH [of "(i - 1) div 2"] less.prems child_of_less [OF pc] by auto
  qed (simp add: cmp_refl)
qed

text \<open>The invariant of the extraction: a heap below \<open>n\<close>, the sorted largest elements above.\<close>

lemma heap_extract_step:
  assumes heap: "heap_from cmp xs 0 (Suc n)" and n: "n < length xs" "0 < n"
    and srt: "sorted_wrt (\<lambda>x y. cmp x y \<le> 0) (drop (Suc n) xs)"
    and dom: "\<forall>x\<in>set (take (Suc n) xs). \<forall>y\<in>set (drop (Suc n) xs). cmp x y \<le> 0"
  defines "zs \<equiv> jlos_heap_sift_down cmp (jlos_sort_swap xs 0 n) 0 n"
  shows "heap_from cmp zs 0 n" and "length zs = length xs"
    and "sorted_wrt (\<lambda>x y. cmp x y \<le> 0) (drop n zs)"
    and "\<forall>x\<in>set (take n zs). \<forall>y\<in>set (drop n zs). cmp x y \<le> 0"
proof -
  let ?ys = "jlos_sort_swap xs 0 n"
  have ys: "?ys ! i = (if i = n then xs ! 0 else if i = 0 then xs ! n else xs ! i)" if "i < length xs" for i
    using that n by (intro swap_nth) auto
  have "cmp (?ys ! c) (?ys ! p) \<le> 0" if "p \<noteq> 0" "child_of p c" "c < n" for p c
  proof -
    have "p < c" using that(2) by (rule child_of_less)
    then show ?thesis using that n heap by (auto simp: ys heap_from_def)
  qed
  then have "heap_except cmp ?ys 0 0 n"
    by (auto simp: heap_except_def child_of_def)
  then show "heap_from cmp zs 0 n"
    unfolding zs_def using n by (intro sift_down_heap) auto
  have perm: "permutes_prefix n ?ys zs"
    unfolding zs_def using n by (intro sift_down_permutes) simp
  then show "length zs = length xs" by (simp add: permutes_prefix_def)
  have drop_ys: "drop n ?ys = xs ! 0 # drop (Suc n) xs"
    using n by (simp add: Cons_nth_drop_Suc [symmetric] ys drop_swap)
  have set_ys: "set (take n ?ys) \<subseteq> set (take (Suc n) xs)"
  proof -
    have "set (take n ?ys) \<subseteq> set (take (Suc n) ?ys)" by (rule set_take_subset_set_take) simp
    also have "\<dots> = set (take (Suc n) xs)"
      using mset_swap_part [of 0 "Suc n" n xs] n by (intro mset_eq_setD) simp
    finally show ?thesis .
  qed
  have max: "cmp x (xs ! 0) \<le> 0" if "x \<in> set (take (Suc n) xs)" for x
    using that heap_max [OF heap] by (auto simp: in_set_conv_nth)
  have first: "xs ! 0 \<in> set (take (Suc n) xs)"
    using n by (cases xs) auto
  show "sorted_wrt (\<lambda>x y. cmp x y \<le> 0) (drop n zs)"
    using perm srt dom first by (simp add: permutes_prefix_def drop_ys)
  have "set (take n zs) = set (take n ?ys)"
    using perm by (intro mset_eq_setD) (simp add: permutes_prefix_def)
  then show "\<forall>x\<in>set (take n zs). \<forall>y\<in>set (drop n zs). cmp x y \<le> 0"
    using perm set_ys max dom by (auto simp: permutes_prefix_def drop_ys)
qed

lemma heap_extract_sorted:
  "heap_from cmp xs 0 (Suc e) \<Longrightarrow> e < length xs \<Longrightarrow>
     sorted_wrt (\<lambda>x y. cmp x y \<le> 0) (drop (Suc e) xs) \<Longrightarrow>
     \<forall>x\<in>set (take (Suc e) xs). \<forall>y\<in>set (drop (Suc e) xs). cmp x y \<le> 0 \<Longrightarrow>
     sorted_wrt (\<lambda>x y. cmp x y \<le> 0) (heap_extract cmp xs e)"
proof (induction e arbitrary: xs)
  case 0
  then show ?case by (cases xs) auto
next
  case (Suc e)
  note step = heap_extract_step [OF Suc.prems(1,2) _ Suc.prems(3,4), simplified]
  show ?case
    using step Suc.prems(2) by (simp add: Suc.IH)
qed

lemma jlos_heap_sort_sorted:
  assumes "sz \<noteq> 0"
  shows "sorted_wrt (\<lambda>x y. cmp x y \<le> 0) (jlos_heap_sort cmp xs (length xs) sz)"
proof (cases "length xs < 2")
  case True
  then show ?thesis by (cases xs) (auto simp: jlos_heap_sort_def neq_Nil_conv)
next
  case False
  let ?ys = "heap_build cmp xs (length xs div 2) (length xs)"
  have len: "length ?ys = length xs"
    using heap_build_permutes [of "length xs" xs cmp] by (simp add: permutes_prefix_def)
  have "heap_from cmp xs (length xs div 2) (length xs)"
    by (auto simp: heap_from_def child_of_def)
  moreover have "Suc (length xs - 1) = length xs" using False by linarith
  ultimately have "heap_from cmp ?ys 0 (Suc (length xs - 1))"
    using heap_build_heap [of xs "length xs div 2" "length xs"] by (simp only: order_refl)
  then have "sorted_wrt (\<lambda>x y. cmp x y \<le> 0) (heap_extract cmp ?ys (length xs - 1))"
    using False len by (intro heap_extract_sorted) auto
  then show ?thesis using False assms by (simp add: jlos_heap_sort_def)
qed

lemma insertion_inner_insert:
  "sorted_wrt (\<lambda>x y. cmp x y \<le> 0) ys \<Longrightarrow> insertion_inner cmp (ys @ x # zs) (length ys)
     = takeWhile (\<lambda>y. cmp y x \<le> 0) ys @ x # dropWhile (\<lambda>y. cmp y x \<le> 0) ys @ zs"
proof (induction ys arbitrary: zs rule: rev_induct)
  case (snoc u us)
  show ?case
  proof (cases "0 < cmp u x")
    case True
    have "jlos_sort_swap ((us @ [u]) @ x # zs) (length us) (Suc (length us)) = us @ x # u # zs"
      by (simp add: jlos_sort_swap_def nth_append list_update_append)
    then have "insertion_inner cmp ((us @ [u]) @ x # zs) (length (us @ [u]))
        = insertion_inner cmp (us @ x # u # zs) (length us)"
      using True by (simp add: nth_append)
    also have "\<dots> = takeWhile (\<lambda>y. cmp y x \<le> 0) us @ x # dropWhile (\<lambda>y. cmp y x \<le> 0) us @ u # zs"
      using snoc by (simp add: sorted_wrt_append)
    finally show ?thesis
      using True by (cases "\<forall>y\<in>set us. cmp y x \<le> 0") (auto simp: takeWhile_append dropWhile_append)
  next
    case False
    have "\<forall>y\<in>set (us @ [u]). cmp y x \<le> 0"
      using False snoc.prems cmp_trans [of _ u x] by (auto simp: sorted_wrt_append)
    then have "takeWhile (\<lambda>y. cmp y x \<le> 0) (us @ [u]) = us @ [u]" "dropWhile (\<lambda>y. cmp y x \<le> 0) (us @ [u]) = []"
      by (simp_all only: takeWhile_eq_all_conv dropWhile_eq_Nil_conv)
    then show ?thesis
      using False by (simp add: nth_append)
  qed
qed simp

lemma insert_sorted_wrt:
  assumes "sorted_wrt (\<lambda>x y. cmp x y \<le> 0) ys"
  shows "sorted_wrt (\<lambda>x y. cmp x y \<le> 0)
    (takeWhile (\<lambda>y. cmp y x \<le> 0) ys @ x # dropWhile (\<lambda>y. cmp y x \<le> 0) ys)"
  using assms
proof (induction ys)
  case (Cons y ys)
  show ?case
  proof (cases "cmp y x \<le> 0")
    case True
    then show ?thesis using Cons by (auto dest: set_takeWhileD set_dropWhileD)
  next
    case False
    then have "cmp x y \<le> 0" using cmp_swap [of x y] by simp
    then show ?thesis using Cons.prems False cmp_trans by auto
  qed
qed simp

lemma insertion_inner_step:
  assumes srt: "sorted_wrt (\<lambda>x y. cmp x y \<le> 0) (take n ys)" and n: "n < length ys"
  shows "sorted_wrt (\<lambda>x y. cmp x y \<le> 0) (take (Suc n) (insertion_inner cmp ys n))"
    and "permutes_prefix (Suc n) ys (insertion_inner cmp ys n)"
proof -
  let ?P = "\<lambda>y. cmp y (ys ! n) \<le> 0"
  define ws where "ws = takeWhile ?P (take n ys) @ ys ! n # dropWhile ?P (take n ys)"
  have res: "insertion_inner cmp ys n = ws @ drop (Suc n) ys"
    using insertion_inner_insert [OF srt, of "ys ! n" "drop (Suc n) ys"] n
    by (simp add: id_take_nth_drop [symmetric] ws_def)
  have "mset ws = mset (takeWhile ?P (take n ys) @ dropWhile ?P (take n ys)) + {#ys ! n#}"
    by (simp add: ws_def del: takeWhile_dropWhile_id)
  also have "\<dots> = mset (take (Suc n) ys)"
  proof -
    have "takeWhile ?P (take n ys) @ dropWhile ?P (take n ys) = take n ys"
      by (rule takeWhile_dropWhile_id)
    then show ?thesis using n by (metis add_mset_add_single mset_append mset.simps(1) mset.simps(2) take_Suc_conv_app_nth)
  qed
  finally have ms: "mset ws = mset (take (Suc n) ys)" .
  then have len: "length ws = Suc n"
    using n by (metis Suc_leI length_take min.absorb2 size_mset)
  show "permutes_prefix (Suc n) ys (insertion_inner cmp ys n)"
    using n by (simp add: permutes_prefix_def res ms len)
  show "sorted_wrt (\<lambda>x y. cmp x y \<le> 0) (take (Suc n) (insertion_inner cmp ys n))"
    using insert_sorted_wrt [OF srt, of "ys ! n"] by (simp add: res len ws_def [symmetric])
qed

lemma jlos_insertion_sort_prefix:
  "n \<le> length xs \<Longrightarrow> sorted_wrt (\<lambda>x y. cmp x y \<le> 0) (take n (jlos_insertion_sort cmp xs n))
     \<and> permutes_prefix n xs (jlos_insertion_sort cmp xs n)"
proof (induction n)
  case (Suc n)
  show ?case
  proof (cases "n = 0")
    case True
    then show ?thesis using Suc.prems by (cases xs) (auto simp: jlos_insertion_sort_def)
  next
    case False
    let ?ys = "jlos_insertion_sort cmp xs n"
    have ys: "sorted_wrt (\<lambda>x y. cmp x y \<le> 0) (take n ?ys)" "permutes_prefix n xs ?ys"
      using Suc by auto
    then have n: "n < length ?ys" using Suc.prems by (simp add: permutes_prefix_def)
    have "jlos_insertion_sort cmp xs (Suc n) = insertion_inner cmp ?ys n"
      using False by (simp add: jlos_insertion_sort_def)
    then show ?thesis
      using insertion_inner_step [OF ys(1) n] permutes_prefix_mono [OF ys(2), of "Suc n"]
      by (auto intro: permutes_prefix_trans)
  qed
qed (simp add: jlos_insertion_sort_def)

end

section \<open>Searching a sorted array\<close>

text \<open>\<open>splits_at P xs r\<close>: the elements with \<open>P\<close> are exactly the first \<open>r\<close>.\<close>

definition splits_at :: "('a \<Rightarrow> bool) \<Rightarrow> 'a list \<Rightarrow> nat \<Rightarrow> bool" where
  "splits_at P xs r \<longleftrightarrow> r \<le> length xs \<and> (\<forall>i<r. P (xs ! i)) \<and> (\<forall>i. r \<le> i \<longrightarrow> i < length xs \<longrightarrow> \<not> P (xs ! i))"

lemma lower_loop_splits:
  assumes "\<And>i j. i \<le> j \<Longrightarrow> j < length xs \<Longrightarrow> 0 < c key (xs ! j) \<Longrightarrow> 0 < c key (xs ! i)"
    and "lo + n \<le> length xs" and "\<forall>i<lo. 0 < c key (xs ! i)"
    and "\<forall>i. lo + n \<le> i \<longrightarrow> i < length xs \<longrightarrow> \<not> 0 < c key (xs ! i)"
  shows "splits_at (\<lambda>x. 0 < c key x) xs (lower_loop c key xs lo n)"
  using assms(2-)
proof (induction n arbitrary: lo rule: less_induct)
  case (less n)
  let ?mid = "lo + n div 2"
  consider "n = 0" | "0 < n" "0 < c key (xs ! ?mid)" | "0 < n" "\<not> 0 < c key (xs ! ?mid)"
    by blast
  then show ?case
  proof cases
    case 1
    then show ?thesis using less.prems by (simp add: lower_loop.simps splits_at_def)
  next
    case 2
    have "splits_at (\<lambda>x. 0 < c key x) xs (lower_loop c key xs (?mid + 1) (n - (n div 2 + 1)))"
    proof (rule less.IH)
      have mid: "?mid < length xs" using 2(1) less.prems(1) by linarith
      show "\<forall>i<?mid + 1. 0 < c key (xs ! i)"
        using assms(1) [OF _ mid 2(2)] by simp
    qed (use 2(1) less.prems in auto)
    then show ?thesis using 2 by (simp add: lower_loop.simps [of c key xs lo n] Let_def)
  next
    case 3
    have "splits_at (\<lambda>x. 0 < c key x) xs (lower_loop c key xs lo (n div 2))"
    proof (rule less.IH)
      show "\<forall>i. lo + n div 2 \<le> i \<longrightarrow> i < length xs \<longrightarrow> \<not> 0 < c key (xs ! i)"
        using assms(1) [of ?mid] 3(2) by blast
    qed (use 3(1) less.prems in auto)
    then show ?thesis using 3 by (simp add: lower_loop.simps [of c key xs lo n] Let_def)
  qed
qed

lemma upper_loop_lower: "upper_loop c key xs lo n = lower_loop (\<lambda>k x. c k x + 1) key xs lo n"
proof (induction n arbitrary: lo rule: less_induct)
  case (less n)
  have "0 \<le> v \<longleftrightarrow> 0 < v + 1" for v :: int by arith
  then show ?case
    using less by (simp add: upper_loop.simps [of c key xs lo n] lower_loop.simps [of _ key xs lo n] Let_def)
qed

locale search_order = sort_order cmp
  for cmp :: "'a \<Rightarrow> 'a \<Rightarrow> int" +
  fixes kcmp :: "'k \<Rightarrow> 'a \<Rightarrow> int"
  assumes key_above: "cmp x y \<le> 0 \<Longrightarrow> 0 < kcmp k y \<Longrightarrow> 0 < kcmp k x"
    and key_below: "cmp x y \<le> 0 \<Longrightarrow> kcmp k x < 0 \<Longrightarrow> kcmp k y < 0"
begin

lemma sorted_nth_le:
  "sorted_wrt (\<lambda>x y. cmp x y \<le> 0) xs \<Longrightarrow> i \<le> j \<Longrightarrow> j < length xs \<Longrightarrow> cmp (xs ! i) (xs ! j) \<le> 0"
  using cmp_refl by (cases "i = j") (auto simp: sorted_wrt_iff_nth_less)

lemma lower_bound_splits:
  assumes "sorted_wrt (\<lambda>x y. cmp x y \<le> 0) xs"
  shows "splits_at (\<lambda>x. 0 < kcmp key x) xs (jlos_lower_bound kcmp key xs (length xs))"
  unfolding jlos_lower_bound_def
proof (rule lower_loop_splits)
  fix i j
  assume ij: "i \<le> j" "j < length xs" and "0 < kcmp key (xs ! j)"
  then show "0 < kcmp key (xs ! i)"
    using key_above [OF sorted_nth_le [OF assms ij]] by simp
qed simp_all

lemma upper_bound_splits:
  assumes "sorted_wrt (\<lambda>x y. cmp x y \<le> 0) xs"
  shows "splits_at (\<lambda>x. 0 \<le> kcmp key x) xs (jlos_upper_bound kcmp key xs (length xs))"
proof -
  have "0 \<le> kcmp key (xs ! i)" if "i \<le> j" "j < length xs" "0 \<le> kcmp key (xs ! j)" for i j
    using key_below [OF sorted_nth_le [OF assms that(1,2)], of key] that(3) by linarith
  moreover have ge: "0 < v + 1 \<longleftrightarrow> 0 \<le> v" for v :: int by arith
  ultimately have "splits_at (\<lambda>x. 0 < kcmp key x + 1) xs (lower_loop (\<lambda>k x. kcmp k x + 1) key xs 0 (length xs))"
    by (intro lower_loop_splits) simp_all
  then show ?thesis
    by (simp add: jlos_upper_bound_def upper_loop_lower ge)
qed

lemma bsearch_result:
  assumes "sorted_wrt (\<lambda>x y. cmp x y \<le> 0) xs"
  shows "case jlos_bsearch kcmp key xs (length xs) of
           None \<Rightarrow> \<forall>x\<in>set xs. kcmp key x \<noteq> 0
         | Some i \<Rightarrow> i < length xs \<and> kcmp key (xs ! i) = 0 \<and> (\<forall>j<i. 0 < kcmp key (xs ! j))"
proof -
  let ?r = "jlos_lower_bound kcmp key xs (length xs)"
  note split = lower_bound_splits [OF assms, of key]
  show ?thesis
  proof (cases "?r < length xs \<and> kcmp key (xs ! ?r) = 0")
    case True
    then show ?thesis using split by (simp add: jlos_bsearch_def splits_at_def Let_def)
  next
    case False
    have "kcmp key (xs ! i) \<noteq> 0" if "i < length xs" for i
    proof (cases "i < ?r")
      case True
      then have "0 < kcmp key (xs ! i)" using split by (simp add: splits_at_def)
      then show ?thesis by simp
    next
      case ge: False
      then have "kcmp key (xs ! ?r) < 0" using that False split by (auto simp: splits_at_def order_le_less)
      then show ?thesis
        using key_below [OF sorted_nth_le [OF assms, of ?r i], of key] ge that by auto
    qed
    then show ?thesis using False by (auto simp: jlos_bsearch_def in_set_conv_nth Let_def)
  qed
qed

end

section \<open>The exception table\<close>

interpretation extable: search_order jlos_extable_order_cmp jlos_extable_cmp
  by unfold_locales (auto simp: jlos_extable_order_cmp_def jlos_extable_cmp_def split: if_splits)

text \<open>
  Heap sort with the exception table's comparison returns the entries ordered by
  instruction address, none lost and none added.
\<close>

lemma extable_sort_correct:
  "sorted (map insn (jlos_extable_sort_init tbl)) \<and> mset (jlos_extable_sort_init tbl) = mset tbl"
proof -
  have "sorted_wrt (\<lambda>x y. jlos_extable_order_cmp x y \<le> 0) (jlos_extable_sort_init tbl)"
    by (simp add: jlos_extable_sort_init_def extable.jlos_heap_sort_sorted)
  then have "sorted (map insn (jlos_extable_sort_init tbl))"
    by (auto simp: sorted_wrt_map jlos_extable_order_cmp_def split: if_splits elim!: sorted_wrt_mono_rel [rotated])
  then show ?thesis
    by (simp add: jlos_extable_sort_init_def jlos_heap_sort_mset)
qed

text \<open>
  C29: after the table is sorted at boot, the lookup of a faulting instruction returns the
  fixup of its entry, and 0 when there is none.
\<close>

theorem extable_lookup_correct:
  assumes "distinct (map insn tbl)"
  shows "jlos_er_extable_lookup (jlos_extable_sort_init tbl) k
     = (case map_of (map (\<lambda>e. (insn e, fixup e)) tbl) k of None \<Rightarrow> 0 | Some f \<Rightarrow> f)"
proof -
  let ?s = "jlos_extable_sort_init tbl" and ?kv = "\<lambda>e. (insn e, fixup e)"
  have perm: "mset ?s = mset tbl"
    by (simp add: jlos_extable_sort_init_def jlos_heap_sort_mset)
  have srt: "sorted_wrt (\<lambda>x y. jlos_extable_order_cmp x y \<le> 0) ?s"
    by (simp add: jlos_extable_sort_init_def extable.jlos_heap_sort_sorted)
  have eq0: "jlos_extable_cmp k e = 0 \<longleftrightarrow> insn e = k" for e
    by (auto simp: jlos_extable_cmp_def)
  note res = extable.bsearch_result [OF srt, of k]
  show ?thesis
  proof (cases "jlos_bsearch jlos_extable_cmp k ?s (length ?s)")
    case None
    then have "k \<notin> insn ` set tbl"
      using res mset_eq_setD [OF perm] by (auto simp: eq0)
    then have "map_of (map ?kv tbl) k = None"
      by (simp add: map_of_eq_None_iff image_image)
    then show ?thesis using None by (simp add: jlos_er_extable_lookup_def)
  next
    case (Some i)
    then have "?s ! i \<in> set tbl" "insn (?s ! i) = k"
      using res mset_eq_setD [OF perm] nth_mem [of i ?s] by (auto simp: eq0)
    then have "(k, fixup (?s ! i)) \<in> set (map ?kv tbl)" by force
    then have "map_of (map ?kv tbl) k = Some (fixup (?s ! i))"
      using assms by (intro map_of_is_SomeI) (simp_all add: comp_def)
    then show ?thesis using Some by (simp add: jlos_er_extable_lookup_def)
  qed
qed

theorem extable_lookup_correct_witness:
  "jlos_er_extable_lookup (jlos_extable_sort_init
     [\<lparr>insn = 30, fixup = 130\<rparr>, \<lparr>insn = 10, fixup = 110\<rparr>, \<lparr>insn = 20, fixup = 120\<rparr>]) 10 = 110"
  by (subst extable_lookup_correct) simp_all

end
