(* ===== verification/Hash_Chain.thy ===== *)
theory Hash_Chain
  imports C_Types
begin

text \<open>
  \<^verbatim>\<open>dsa/hash_chain.c\<close>: the intrusive chained hash table behind the process table, the
  socket tables and the ether-type dispatch. A node has a \<open>next\<close> pointer and a pointer
  \<open>pprev\<close> to the slot that points at it, which is a bucket head or the \<open>next\<close> field of
  another node. The hash and match callbacks are parameters, as in the source. The
  operations run under the table's spin lock and are modelled as single steps.
\<close>

section \<open>Model\<close>

datatype 'n slot = Bucket nat | Next 'n

record 'n jlos_hash_chain =
  buckets :: "nat \<Rightarrow> 'n option"
  bucket_count :: u32
  bucket_mask :: u32
  hnext :: "'n \<Rightarrow> 'n option"
  pprev :: "'n \<Rightarrow> 'n slot option"

fun get_slot :: "'n jlos_hash_chain \<Rightarrow> 'n slot \<Rightarrow> 'n option" where
  "get_slot s (Bucket i) = buckets s i"
| "get_slot s (Next n) = hnext s n"

fun set_slot :: "'n jlos_hash_chain \<Rightarrow> 'n slot \<Rightarrow> 'n option \<Rightarrow> 'n jlos_hash_chain" where
  "set_slot s (Bucket i) v = s\<lparr>buckets := (buckets s)(i := v)\<rparr>"
| "set_slot s (Next n) v = s\<lparr>hnext := (hnext s)(n := v)\<rparr>"

definition set_pprev :: "'n jlos_hash_chain \<Rightarrow> 'n \<Rightarrow> 'n slot option \<Rightarrow> 'n jlos_hash_chain" where
  "set_pprev s n v = s\<lparr>pprev := (pprev s)(n := v)\<rparr>"

text \<open>The doubling loop of \<open>init\<close>; it does not end when \<open>bucket_count\<close> exceeds \<open>2 ^ 31\<close>.\<close>

partial_function (option) round_up_power :: "u32 \<Rightarrow> u32 \<Rightarrow> u32 option" where
  "round_up_power pw cnt =
     (if pw < cnt then round_up_power (push_bit 1 pw) cnt else Some pw)"

definition jlos_hash_chain_init :: "'n jlos_hash_chain \<Rightarrow> u32 \<Rightarrow> 'n jlos_hash_chain option" where
  "jlos_hash_chain_init s cnt =
     (let cnt = (if cnt = 0 then 64 else cnt)
      in map_option (\<lambda>pw. s\<lparr>bucket_count := pw, bucket_mask := pw - 1,
             buckets := (\<lambda>i. if i < unat pw then None else buckets s i)\<rparr>)
           (round_up_power 1 cnt))"

definition bucket_index :: "('k \<Rightarrow> u32) \<Rightarrow> 'n jlos_hash_chain \<Rightarrow> 'k \<Rightarrow> nat" where
  "bucket_index hash s key = unat (hash key AND bucket_mask s)"

definition jlos_hash_chain_insert :: "('k \<Rightarrow> u32) \<Rightarrow> 'n jlos_hash_chain \<Rightarrow> 'k \<Rightarrow> 'n \<Rightarrow> 'n jlos_hash_chain" where
  "jlos_hash_chain_insert hash s key node =
     (let index = bucket_index hash s key;
          s = set_slot s (Next node) (buckets s index);
          s = (case buckets s index of None \<Rightarrow> s | Some f \<Rightarrow> set_pprev s f (Some (Next node)));
          s = set_slot s (Bucket index) (Some node)
      in set_pprev s node (Some (Bucket index)))"

partial_function (option) chain_search :: "('n \<Rightarrow> bool) \<Rightarrow> 'n jlos_hash_chain \<Rightarrow> 'n option \<Rightarrow> 'n option option" where
  "chain_search match s node =
     (case node of
        None \<Rightarrow> Some None
      | Some n \<Rightarrow> if match n then Some (Some n) else chain_search match s (hnext s n))"

definition jlos_hash_chain_see ::
  "('k \<Rightarrow> u32) \<Rightarrow> ('k \<Rightarrow> 'n \<Rightarrow> int) \<Rightarrow> 'n jlos_hash_chain \<Rightarrow> 'k \<Rightarrow> 'n option option" where
  "jlos_hash_chain_see hash cmp s key =
     chain_search (\<lambda>n. cmp key n = 0) s (buckets s (bucket_index hash s key))"

definition jlos_hash_chain_find ::
  "('k \<Rightarrow> u32) \<Rightarrow> 'n jlos_hash_chain \<Rightarrow> 'k \<Rightarrow> ('n \<Rightarrow> int) \<Rightarrow> 'n option option" where
  "jlos_hash_chain_find hash s key match =
     chain_search (\<lambda>n. match n = 0) s (buckets s (bucket_index hash s key))"

definition jlos_hash_chain_remove :: "'n jlos_hash_chain \<Rightarrow> 'n \<Rightarrow> 'n jlos_hash_chain" where
  "jlos_hash_chain_remove s node =
     (let s = (case pprev s node of None \<Rightarrow> s | Some sl \<Rightarrow> set_slot s sl (hnext s node))
      in case hnext s node of None \<Rightarrow> s | Some m \<Rightarrow> set_pprev s m (pprev s node))"

text \<open>The visitor updates a client state and may relink the node it is given: the next
  pointer is read before the call.\<close>

partial_function (option) chain_visit ::
  "('n \<Rightarrow> 'n jlos_hash_chain \<times> 'c \<Rightarrow> 'n jlos_hash_chain \<times> 'c) \<Rightarrow> 'n jlos_hash_chain \<times> 'c \<Rightarrow> 'n option
     \<Rightarrow> ('n jlos_hash_chain \<times> 'c) option" where
  "chain_visit visit st node =
     (case node of
        None \<Rightarrow> Some st
      | Some n \<Rightarrow> chain_visit visit (visit n st) (hnext (fst st) n))"

fun buckets_visit ::
  "('n \<Rightarrow> 'n jlos_hash_chain \<times> 'c \<Rightarrow> 'n jlos_hash_chain \<times> 'c) \<Rightarrow> 'n jlos_hash_chain \<times> 'c \<Rightarrow> nat list
     \<Rightarrow> ('n jlos_hash_chain \<times> 'c) option" where
  "buckets_visit visit st [] = Some st"
| "buckets_visit visit st (i # js) =
     Option.bind (chain_visit visit st (buckets (fst st) i)) (\<lambda>st. buckets_visit visit st js)"

definition jlos_hash_chain_for_each ::
  "('n \<Rightarrow> 'n jlos_hash_chain \<times> 'c \<Rightarrow> 'n jlos_hash_chain \<times> 'c) \<Rightarrow> 'n jlos_hash_chain \<times> 'c
     \<Rightarrow> ('n jlos_hash_chain \<times> 'c) option" where
  "jlos_hash_chain_for_each visit st = buckets_visit visit st [0..<unat (bucket_count (fst st))]"

definition jlos_hash_chain_destroy :: "'n jlos_hash_chain \<Rightarrow> 'n jlos_hash_chain" where
  "jlos_hash_chain_destroy s =
     s\<lparr>buckets := (\<lambda>i. if i < unat (bucket_count s) then None else buckets s i),
       bucket_count := 0, bucket_mask := 0\<rparr>"

definition jlos_hash_uint16 :: "u16 \<Rightarrow> u32" where
  "jlos_hash_uint16 key = ucast key"

definition jlos_hash_uint32 :: "u32 \<Rightarrow> u32" where
  "jlos_hash_uint32 key = key"

definition jlos_hash_ptr :: "u64 \<Rightarrow> u32" where
  "jlos_hash_ptr key = ucast key"

partial_function (option) hash_str_loop :: "mem \<Rightarrow> nat \<Rightarrow> u32 \<Rightarrow> u32 option" where
  "hash_str_loop m s h = (if m s \<noteq> 0 then hash_str_loop m (s + 1) (h * 31 + ucast (m s)) else Some h)"

definition jlos_hash_str :: "mem \<Rightarrow> nat \<Rightarrow> u32 option" where
  "jlos_hash_str m key = hash_str_loop m key 0"

section \<open>Chains\<close>

fun hchain :: "'n jlos_hash_chain \<Rightarrow> 'n slot \<Rightarrow> 'n list \<Rightarrow> bool" where
  "hchain s sl [] \<longleftrightarrow> get_slot s sl = None"
| "hchain s sl (n # ns) \<longleftrightarrow> get_slot s sl = Some n \<and> pprev s n = Some sl \<and> hchain s (Next n) ns"

fun hseg :: "'n jlos_hash_chain \<Rightarrow> 'n slot \<Rightarrow> 'n list \<Rightarrow> bool" where
  "hseg s sl [] \<longleftrightarrow> True"
| "hseg s sl (n # ns) \<longleftrightarrow> get_slot s sl = Some n \<and> pprev s n = Some sl \<and> hseg s (Next n) ns"

definition end_slot :: "'n slot \<Rightarrow> 'n list \<Rightarrow> 'n slot" where
  "end_slot sl xs = (if xs = [] then sl else Next (last xs))"

lemma hchain_append: "hchain s sl (xs @ ys) \<longleftrightarrow> hseg s sl xs \<and> hchain s (end_slot sl xs) ys"
  by (induction xs arbitrary: sl) (auto simp: end_slot_def)

lemma hchain_cong:
  assumes "\<And>t. t = sl \<or> t \<in> Next ` set xs \<Longrightarrow> get_slot s' t = get_slot s t"
    and "\<And>n. n \<in> set xs \<Longrightarrow> pprev s' n = pprev s n"
  shows "hchain s' sl xs = hchain s sl xs"
  using assms
proof (induction xs arbitrary: sl)
  case (Cons x xs)
  then show ?case using Cons.IH [of "Next x"] by simp
qed simp

lemma hseg_cong:
  assumes "\<And>t. xs \<noteq> [] \<Longrightarrow> t = sl \<or> t \<in> Next ` set (butlast xs) \<Longrightarrow> get_slot s' t = get_slot s t"
    and "\<And>n. n \<in> set xs \<Longrightarrow> pprev s' n = pprev s n"
  shows "hseg s' sl xs = hseg s sl xs"
  using assms
proof (induction xs arbitrary: sl)
  case (Cons x xs)
  then show ?case using Cons.IH [of "Next x"] by (auto split: if_splits)
qed simp

lemma get_set_slot [simp]: "get_slot (set_slot s sl v) t = (if t = sl then v else get_slot s t)"
  by (cases sl; cases t) auto

lemma pprev_set_slot [simp]: "pprev (set_slot s sl v) = pprev s"
  by (cases sl) auto

lemma counts_set_slot [simp]:
  "bucket_count (set_slot s sl v) = bucket_count s" "bucket_mask (set_slot s sl v) = bucket_mask s"
  by (cases sl; simp)+

lemma get_slot_set_pprev [simp]: "get_slot (set_pprev s n v) t = get_slot s t"
  by (cases t) (auto simp: set_pprev_def)

lemma pprev_set_pprev [simp]: "pprev (set_pprev s n v) = (pprev s)(n := v)"
  by (simp add: set_pprev_def)

lemma counts_set_pprev [simp]:
  "bucket_count (set_pprev s n v) = bucket_count s" "bucket_mask (set_pprev s n v) = bucket_mask s"
  by (simp_all add: set_pprev_def)

text \<open>\<open>hash_rep s L\<close>: bucket \<open>i\<close> of the table is the chain \<open>L i\<close>; no node is on two chains.\<close>

definition hash_rep :: "'n jlos_hash_chain \<Rightarrow> (nat \<Rightarrow> 'n list) \<Rightarrow> bool" where
  "hash_rep s L \<longleftrightarrow>
     (\<exists>k<32. bucket_count s = 2 ^ k) \<and> bucket_mask s = bucket_count s - 1
     \<and> (\<forall>i<unat (bucket_count s). hchain s (Bucket i) (L i) \<and> distinct (L i))
     \<and> (\<forall>i<unat (bucket_count s). \<forall>j<unat (bucket_count s). i \<noteq> j \<longrightarrow> set (L i) \<inter> set (L j) = {})"

definition hash_nodes :: "'n jlos_hash_chain \<Rightarrow> (nat \<Rightarrow> 'n list) \<Rightarrow> 'n set" where
  "hash_nodes s L = (\<Union>i<unat (bucket_count s). set (L i))"

lemma bucket_index_less:
  assumes "hash_rep s L"
  shows "bucket_index hash s key < unat (bucket_count s)"
proof -
  obtain k where "k < 32" "bucket_count s = 2 ^ k" "bucket_mask s = 2 ^ k - 1"
    using assms by (auto simp: hash_rep_def)
  then show ?thesis by (simp add: bucket_index_def unat_and_mask unat_2p)
qed

section \<open>The operations on chains\<close>

lemma round_up_power_result:
  assumes "j < 32" and "unat cnt \<le> 2 ^ 31"
  shows "\<exists>k<32. round_up_power (2 ^ j) cnt = Some (2 ^ k) \<and> unat cnt \<le> 2 ^ k \<and> j \<le> k \<and> (j < k \<longrightarrow> 2 ^ (k - 1) < unat cnt)"
  using assms(1)
proof (induction "32 - j" arbitrary: j rule: less_induct)
  case less
  show ?case
  proof (cases "(2 ^ j :: u32) < cnt")
    case True
    have lt: "2 ^ j < unat cnt" using True less.prems by (simp add: word_less_nat_alt unat_2p)
    then have "2 ^ j < (2 ^ 31 :: nat)" using assms(2) by simp
    then have "j < 31" by (rule power_less_imp_less_exp [rotated]) simp
    then have j: "Suc j < 32" by simp
    have "push_bit 1 (2 ^ j) = (2 ^ Suc j :: u32)" by simp
    then have "round_up_power (2 ^ j) cnt = round_up_power (2 ^ Suc j) cnt"
      using True by (subst round_up_power.simps) (simp only: if_True)
    moreover obtain k where "k < 32" "round_up_power (2 ^ Suc j) cnt = Some (2 ^ k)" "unat cnt \<le> 2 ^ k"
      "Suc j \<le> k" "Suc j < k \<longrightarrow> 2 ^ (k - 1) < unat cnt"
    proof -
      have "32 - Suc j < 32 - j" using less.prems by simp
      from less.hyps [OF this j] that show thesis by blast
    qed
    moreover from this lt have "2 ^ (k - 1) < unat cnt" by (cases "k = Suc j") auto
    ultimately show ?thesis
      by (intro exI [of _ k]) (simp del: power_Suc)
  next
    case False
    then have "round_up_power (2 ^ j) cnt = Some (2 ^ j)"
      by (subst round_up_power.simps) (simp only: if_False)
    then show ?thesis
      using False less.prems by (intro exI [of _ j]) (simp add: not_less word_le_nat_alt unat_2p)
  qed
qed

lemma hash_init_rep:
  assumes "unat cnt \<le> 2 ^ 31"
  shows "\<exists>s'. jlos_hash_chain_init s cnt = Some s' \<and> hash_rep s' (\<lambda>_. []) \<and> unat cnt \<le> unat (bucket_count s')"
proof -
  have "unat (if cnt = 0 then 64 else cnt) \<le> 2 ^ 31" using assms by simp
  then obtain k where "k < 32" "round_up_power 1 (if cnt = 0 then 64 else cnt) = Some (2 ^ k)"
    "unat (if cnt = 0 then 64 else cnt) \<le> 2 ^ k"
    using round_up_power_result [of 0 "if cnt = 0 then 64 else cnt"] by auto
  then show ?thesis
    by (auto simp: jlos_hash_chain_init_def hash_rep_def unat_2p split: if_splits)
qed

lemma chain_search_hchain:
  "hchain s sl xs \<Longrightarrow> chain_search P s (get_slot s sl) = Some (List.find P xs)"
proof (induction xs arbitrary: sl)
  case Nil
  then show ?case by (simp add: chain_search.simps)
next
  case (Cons x xs)
  then show ?case using Cons.IH [of "Next x"] by (simp add: chain_search.simps)
qed

lemma hash_see_rep:
  "hash_rep s L \<Longrightarrow> jlos_hash_chain_see hash cmp s key
     = Some (List.find (\<lambda>n. cmp key n = 0) (L (bucket_index hash s key)))"
  using bucket_index_less [of s L hash key] chain_search_hchain [of s "Bucket (bucket_index hash s key)"]
  by (auto simp: jlos_hash_chain_see_def hash_rep_def)

lemma hash_find_rep:
  "hash_rep s L \<Longrightarrow> jlos_hash_chain_find hash s key match
     = Some (List.find (\<lambda>n. match n = 0) (L (bucket_index hash s key)))"
  using bucket_index_less [of s L hash key] chain_search_hchain [of s "Bucket (bucket_index hash s key)"]
  by (auto simp: jlos_hash_chain_find_def hash_rep_def)

lemma hash_counts_insert [simp]:
  "bucket_count (jlos_hash_chain_insert hash s key node) = bucket_count s"
  "bucket_mask (jlos_hash_chain_insert hash s key node) = bucket_mask s"
  by (simp_all add: jlos_hash_chain_insert_def Let_def split: option.split)

lemma hash_insert_slots:
  "get_slot (jlos_hash_chain_insert hash s key node) t =
     (if t = Bucket (bucket_index hash s key) then Some node
      else if t = Next node then buckets s (bucket_index hash s key) else get_slot s t)"
  by (cases t) (auto simp: jlos_hash_chain_insert_def set_pprev_def Let_def split: option.split)

lemmas hash_insert_fields = hash_insert_slots [of _ _ _ _ "Bucket _", simplified]
  hash_insert_slots [of _ _ _ _ "Next _", simplified]

lemma hash_insert_pprev:
  "pprev (jlos_hash_chain_insert hash s key node) n =
     (if n = node then Some (Bucket (bucket_index hash s key))
      else if buckets s (bucket_index hash s key) = Some n then Some (Next node) else pprev s n)"
  by (auto simp: jlos_hash_chain_insert_def set_pprev_def Let_def split: option.split)

lemma hash_insert_rep:
  assumes rep: "hash_rep s L" and fresh: "node \<notin> hash_nodes s L"
    and b_def: "b = bucket_index hash s key" and s'_def: "s' = jlos_hash_chain_insert hash s key node"
  shows "hash_rep s' (L(b := node # L b))"
proof -
  have b: "b < unat (bucket_count s)" unfolding b_def using rep by (rule bucket_index_less)
  have chain: "hchain s (Bucket i) (L i)" "distinct (L i)" "node \<notin> set (L i)" if "i < unat (bucket_count s)" for i
    using that rep fresh by (auto simp: hash_rep_def hash_nodes_def)
  have disj: "set (L i) \<inter> set (L j) = {}"
    if "i < unat (bucket_count s)" "j < unat (bucket_count s)" "i \<noteq> j" for i j
    using that rep by (auto simp: hash_rep_def)
  have first: "n \<in> set (L b)" if "buckets s b = Some n" for n
    using that chain(1) [OF b] by (cases "L b") auto
  have "hchain s' (Bucket i) (L i)" if i: "i < unat (bucket_count s)" "i \<noteq> b" for i
  proof -
    have "hchain s' (Bucket i) (L i) = hchain s (Bucket i) (L i)"
      using i chain(3) [OF i(1)] disj [OF i(1) b i(2)] first
      by (intro hchain_cong) (auto simp: s'_def hash_insert_slots hash_insert_fields hash_insert_pprev b_def [symmetric])
    then show ?thesis using chain(1) [OF i(1)] by simp
  qed
  moreover have "hchain s' (Next node) (L b)"
  proof (cases "L b")
    case Nil
    then show ?thesis
      using chain(1) [OF b] by (simp add: s'_def hash_insert_fields b_def [symmetric])
  next
    case (Cons f fs)
    have "hchain s' (Next f) fs = hchain s (Next f) fs"
      using Cons chain [OF b] by (intro hchain_cong) (auto simp: s'_def hash_insert_slots hash_insert_fields hash_insert_pprev b_def [symmetric])
    then show ?thesis
      using Cons chain [OF b] by (auto simp: s'_def hash_insert_slots hash_insert_fields hash_insert_pprev b_def [symmetric])
  qed
  then have "hchain s' (Bucket b) (node # L b)"
    by (simp add: s'_def hash_insert_slots hash_insert_fields hash_insert_pprev b_def)
  ultimately show ?thesis
    using rep chain(2,3) b disj fresh
    by (simp add: hash_rep_def s'_def)
qed

text \<open>Removal: the slot that pointed at the node and the next node are linked.\<close>

lemma hash_remove_slots:
  assumes "pprev s node = Some sl" and "sl \<noteq> Next node"
  shows "get_slot (jlos_hash_chain_remove s node) t = (if t = sl then hnext s node else get_slot s t)"
    and "pprev (jlos_hash_chain_remove s node) n =
      (if hnext s node = Some n then Some sl else pprev s n)"
proof -
  have same: "hnext (set_slot s sl (hnext s node)) node = hnext s node"
    using get_set_slot [of s sl _ "Next node"] assms(2) by simp
  show "get_slot (jlos_hash_chain_remove s node) t = (if t = sl then hnext s node else get_slot s t)"
    by (simp add: jlos_hash_chain_remove_def Let_def assms(1) same split: option.split)
  show "pprev (jlos_hash_chain_remove s node) n = (if hnext s node = Some n then Some sl else pprev s n)"
    by (auto simp: jlos_hash_chain_remove_def Let_def assms(1) same split: option.split)
qed

lemma hash_counts_remove [simp]:
  "bucket_count (jlos_hash_chain_remove s node) = bucket_count s"
  "bucket_mask (jlos_hash_chain_remove s node) = bucket_mask s"
  by (simp_all add: jlos_hash_chain_remove_def Let_def split: option.split)

lemma hchain_pprev:
  "hchain s sl xs \<Longrightarrow> n \<in> set xs \<Longrightarrow> \<exists>t. pprev s n = Some t \<and> (t = sl \<or> t \<in> Next ` set xs)"
proof (induction xs arbitrary: sl)
  case (Cons x xs)
  then show ?case using Cons.IH [of "Next x"] by auto
qed simp

lemma hchain_hnext: "hchain s sl xs \<Longrightarrow> n \<in> set xs \<Longrightarrow> hnext s n = Some m \<Longrightarrow> m \<in> set xs"
proof (induction xs arbitrary: sl)
  case (Cons x xs)
  then show ?case using Cons.IH [of "Next x"] by (cases xs) auto
qed simp

lemma hchain_remove:
  assumes chain: "hchain s sl (ys @ node # zs)" and dist: "distinct (ys @ node # zs)"
    and sl: "sl \<notin> Next ` set (ys @ node # zs)"
  shows "hchain (jlos_hash_chain_remove s node) sl (ys @ zs)"
proof -
  let ?s = "jlos_hash_chain_remove s node" and ?t = "end_slot sl ys"
  have split: "hseg s sl ys" "get_slot s ?t = Some node" "pprev s node = Some ?t" "hchain s (Next node) zs"
    using chain by (auto simp: hchain_append)
  have t: "?t \<noteq> Next node" using dist sl by (auto simp: end_slot_def)
  note slots = hash_remove_slots [OF split(3) t]
  have succ: "n \<in> set zs" if "hnext s node = Some n" for n
    using that split(4) by (cases zs) auto
  have butl: "x \<noteq> last ys" if "x \<in> set (butlast ys)" "ys \<noteq> []" for x
    using that dist by (metis append_butlast_last_id distinct_append distinct_butlast
        disjoint_iff list.set_intros(1))
  have nl: "last ys \<notin> set zs" if "ys \<noteq> []"
    using dist last_in_set [OF that] by auto
  have "hseg ?s sl ys = hseg s sl ys"
    using dist sl succ butl by (intro hseg_cong) (auto simp: slots end_slot_def dest: in_set_butlastD)
  moreover have "hchain ?s ?t zs"
  proof (cases zs)
    case Nil
    then show ?thesis using split(4) by (simp add: slots)
  next
    case (Cons z zs')
    have "hchain ?s (Next z) zs' = hchain s (Next z) zs'"
      using dist sl split(4) Cons nl by (intro hchain_cong) (auto simp: slots end_slot_def)
    then show ?thesis using split(4) Cons by (auto simp: slots)
  qed
  ultimately show ?thesis using split(1) by (simp add: hchain_append)
qed

lemma hash_remove_rep:
  assumes rep: "hash_rep s L" and i: "i < unat (bucket_count s)" and n: "node \<in> set (L i)"
  shows "hash_rep (jlos_hash_chain_remove s node) (L(i := remove1 node (L i)))"
proof -
  let ?s = "jlos_hash_chain_remove s node"
  have chain: "hchain s (Bucket j) (L j)" "distinct (L j)" if "j < unat (bucket_count s)" for j
    using that rep by (auto simp: hash_rep_def)
  have disj: "set (L j) \<inter> set (L k) = {}"
    if "j < unat (bucket_count s)" "k < unat (bucket_count s)" "j \<noteq> k" for j k
    using that rep by (auto simp: hash_rep_def)
  obtain ys zs where sp: "L i = ys @ node # zs" using n by (meson split_list)
  have rem: "remove1 node (L i) = ys @ zs"
    using chain(2) [OF i] sp by (simp add: remove1_split_distinct)
  obtain t where t: "pprev s node = Some t" "t = Bucket i \<or> t \<in> Next ` set (L i)"
    using hchain_pprev [OF chain(1) [OF i] n] by blast
  have "t = end_slot (Bucket i) ys"
    using chain(1) [OF i] sp t(1) by (simp add: hchain_append)
  then have t': "t \<noteq> Next node" using chain(2) [OF i] sp by (auto simp: end_slot_def)
  note slots = hash_remove_slots [OF t(1) t']
  have other: "hchain ?s (Bucket j) (L j)" if j: "j < unat (bucket_count s)" "j \<noteq> i" for j
  proof -
    have "hchain ?s (Bucket j) (L j) = hchain s (Bucket j) (L j)"
    proof (rule hchain_cong)
      fix u assume "u = Bucket j \<or> u \<in> Next ` set (L j)"
      then have "u \<noteq> t" using t(2) j disj [OF j(1) i j(2)] by auto
      then show "get_slot ?s u = get_slot s u" by (simp add: slots)
    next
      fix m assume "m \<in> set (L j)"
      then have "hnext s node \<noteq> Some m"
        using hchain_hnext [OF chain(1) [OF i] n, of m] disj [OF j(1) i j(2)] by blast
      then show "pprev ?s m = pprev s m" by (simp add: slots)
    qed
    then show ?thesis using chain(1) [OF j(1)] by simp
  qed
  have own: "hchain ?s (Bucket i) (ys @ zs)"
    using chain [OF i] sp by (intro hchain_remove) auto
  have sub: "set ((L(i := ys @ zs)) j) \<subseteq> set (L j)" "distinct ((L(i := ys @ zs)) j)" if "j < unat (bucket_count s)" for j
    using chain(2) [OF that] sp by auto
  show ?thesis
    unfolding hash_rep_def rem hash_counts_remove
  proof (intro conjI allI impI)
    fix j k assume jk: "j < unat (bucket_count s)" "k < unat (bucket_count s)" "j \<noteq> k"
    show "set ((L(i := ys @ zs)) j) \<inter> set ((L(i := ys @ zs)) k) = {}"
      using sub(1) [OF jk(1)] sub(1) [OF jk(2)] disj [OF jk] by blast
  next
    fix j assume "j < unat (bucket_count s)"
    then show "hchain ?s (Bucket j) ((L(i := ys @ zs)) j)" "distinct ((L(i := ys @ zs)) j)"
      using other own sub(2) by simp_all
  qed (use rep in \<open>simp_all add: hash_rep_def\<close>)
qed

section \<open>A table of keyed nodes\<close>

text \<open>
  What a client of the table relies on: its comparison recognises the key of a node.
  \<open>placed\<close> says that each node is on the chain of its key's bucket, \<open>keyed_table\<close>
  that moreover no two nodes share a key.
\<close>

definition placed :: "('k \<Rightarrow> u32) \<Rightarrow> ('n \<Rightarrow> 'k) \<Rightarrow> 'n jlos_hash_chain \<Rightarrow> (nat \<Rightarrow> 'n list) \<Rightarrow> bool" where
  "placed hash key_of s L \<longleftrightarrow>
     (\<forall>i<unat (bucket_count s). \<forall>n\<in>set (L i). bucket_index hash s (key_of n) = i)"

definition keyed_table :: "('k \<Rightarrow> u32) \<Rightarrow> ('n \<Rightarrow> 'k) \<Rightarrow> 'n jlos_hash_chain \<Rightarrow> 'n set \<Rightarrow> bool" where
  "keyed_table hash key_of s N \<longleftrightarrow>
     (\<exists>L. hash_rep s L \<and> placed hash key_of s L \<and> hash_nodes s L = N \<and> inj_on key_of N)"

lemma bucket_index_cong: "bucket_mask s' = bucket_mask s \<Longrightarrow> bucket_index hash s' k = bucket_index hash s k"
  by (simp add: bucket_index_def)

lemma find_unique:
  assumes "inj_on f (set xs)" and "n \<in> set xs"
  shows "List.find (\<lambda>m. f m = f n) xs = Some n"
  using assms by (induction xs) (auto simp: inj_on_def)

lemma keyed_table_init:
  assumes "unat cnt \<le> 2 ^ 31"
  shows "\<exists>s'. jlos_hash_chain_init s cnt = Some s' \<and> keyed_table hash key_of s' {}"
proof -
  obtain s' where "jlos_hash_chain_init s cnt = Some s'" "hash_rep s' (\<lambda>_. [])"
    using hash_init_rep [OF assms] by blast
  then show ?thesis
    by (intro exI [of _ s']) (auto simp: keyed_table_def placed_def hash_nodes_def intro!: exI [of _ "\<lambda>_. []"])
qed

lemma keyed_table_insert:
  assumes "keyed_table hash key_of s N" and "node \<notin> N" and "key_of node \<notin> key_of ` N"
  shows "keyed_table hash key_of (jlos_hash_chain_insert hash s (key_of node) node) (insert node N)"
proof -
  obtain L where L: "hash_rep s L" "placed hash key_of s L" "hash_nodes s L = N" "inj_on key_of N"
    using assms(1) by (auto simp: keyed_table_def)
  let ?s = "jlos_hash_chain_insert hash s (key_of node) node"
  let ?b = "bucket_index hash s (key_of node)"
  let ?L = "L(?b := node # L ?b)"
  have "hash_rep ?s ?L"
    using L(1,3) assms(2) by (intro hash_insert_rep) auto
  moreover have "placed hash key_of ?s ?L"
    using L(2) by (auto simp: placed_def bucket_index_cong [of ?s s])
  moreover have "hash_nodes ?s ?L = insert node N"
    using L(3) bucket_index_less [OF L(1), of hash "key_of node"] by (auto simp: hash_nodes_def split: if_splits)
  moreover have "inj_on key_of (insert node N)"
    using L(4) assms(2,3) by simp
  ultimately show ?thesis by (auto simp: keyed_table_def)
qed

lemma keyed_table_remove:
  assumes "keyed_table hash key_of s N" and "node \<in> N"
  shows "keyed_table hash key_of (jlos_hash_chain_remove s node) (N - {node})"
proof -
  obtain L where L: "hash_rep s L" "placed hash key_of s L" "hash_nodes s L = N" "inj_on key_of N"
    using assms(1) by (auto simp: keyed_table_def)
  obtain i where i: "i < unat (bucket_count s)" "node \<in> set (L i)"
    using assms(2) L(3) by (auto simp: hash_nodes_def)
  let ?s = "jlos_hash_chain_remove s node" and ?L = "L(i := remove1 node (L i))"
  have set_i: "set (remove1 node (L i)) = set (L i) - {node}"
    using L(1) i(1) by (simp add: hash_rep_def)
  have only: "node \<notin> set (L j)" if "j < unat (bucket_count s)" "j \<noteq> i" for j
    using that i L(1) unfolding hash_rep_def by blast
  have "hash_rep ?s ?L" using L(1) i by (rule hash_remove_rep)
  moreover have "placed hash key_of ?s ?L"
    using L(2) set_i by (auto simp: placed_def bucket_index_cong [of ?s s])
  moreover have "hash_nodes ?s ?L = N - {node}"
    using L(3) set_i i only by (auto simp: hash_nodes_def split: if_splits)
  moreover have "inj_on key_of (N - {node})"
    using L(4) by (rule inj_on_diff)
  ultimately show ?thesis by (auto simp: keyed_table_def)
qed

locale keyed_nodes =
  fixes hash :: "'k \<Rightarrow> u32" and cmp :: "'k \<Rightarrow> 'n \<Rightarrow> int" and key_of :: "'n \<Rightarrow> 'k"
  assumes cmp_key: "cmp k n = 0 \<longleftrightarrow> key_of n = k"
begin

lemma see_keyed:
  assumes "keyed_table hash key_of s N"
  shows "jlos_hash_chain_see hash cmp s k = Some (if k \<in> key_of ` N then Some (the_inv_into N key_of k) else None)"
proof -
  obtain L where L: "hash_rep s L" "placed hash key_of s L" "hash_nodes s L = N" "inj_on key_of N"
    using assms by (auto simp: keyed_table_def)
  let ?xs = "L (bucket_index hash s k)"
  have b: "bucket_index hash s k < unat (bucket_count s)" using L(1) by (rule bucket_index_less)
  have sub: "set ?xs \<subseteq> N" using b L(3) by (auto simp: hash_nodes_def)
  have see: "jlos_hash_chain_see hash cmp s k = Some (List.find (\<lambda>n. key_of n = k) ?xs)"
    using hash_see_rep [OF L(1), of hash cmp k] by (simp add: cmp_key)
  show ?thesis
  proof (cases "k \<in> key_of ` N")
    case True
    then obtain n where n: "n \<in> N" "key_of n = k" by auto
    then have "n \<in> set ?xs" using L(2,3) by (auto simp: placed_def hash_nodes_def)
    then have "List.find (\<lambda>m. key_of m = key_of n) ?xs = Some n"
      using find_unique inj_on_subset [OF L(4) sub] by metis
    moreover have "the_inv_into N key_of k = n" using the_inv_into_f_f [OF L(4) n(1)] n(2) by simp
    ultimately show ?thesis using see n True by simp
  next
    case False
    then have "List.find (\<lambda>n. key_of n = k) ?xs = None" using sub by (auto simp: find_None_iff)
    then show ?thesis using see False by simp
  qed
qed

lemma see_hit:
  assumes "keyed_table hash key_of s N" and "n \<in> N"
  shows "jlos_hash_chain_see hash cmp s (key_of n) = Some (Some n)"
proof -
  have "inj_on key_of N" using assms(1) by (auto simp: keyed_table_def)
  then show ?thesis using see_keyed [OF assms(1)] assms(2) by (simp add: the_inv_into_f_f)
qed

lemma see_miss:
  assumes "keyed_table hash key_of s N" and "k \<notin> key_of ` N"
  shows "jlos_hash_chain_see hash cmp s k = Some None"
  using see_keyed [OF assms(1)] assms(2) by simp

end

end
