(* ===== verification/Timer_Wheel.thy ===== *)
theory Timer_Wheel
  imports Intrusive_List
begin

text \<open>
  \<^verbatim>\<open>dsa/timer_wheel.c\<close>: the five-level hierarchical timer wheel behind task sleeps.
  \<open>vecs w l i\<close> is the list headed by \<open>vec<l>[i]\<close>; the list operations used here are the
  list functions that \<open>Intrusive_List\<close> proves the linked ones to implement. The 32-bit
  \<open>jiffies\<close> and \<open>expires\<close> wrap. The expiry callback changes its context only, as the
  scheduler's does. The main result: a timer fires at exactly the tick it names.
\<close>

section \<open>Model\<close>

record 'n jlos_timer_wheel =
  vecs :: "nat \<Rightarrow> nat \<Rightarrow> 'n list"
  jiffies :: u32
  expires :: "'n \<Rightarrow> u32"

text \<open>The shift and, above level 1, the mask of a level.\<close>

definition wheel_shift :: "nat \<Rightarrow> nat" where
  "wheel_shift l = (if l = 1 then 0 else 8 + 6 * (l - 2))"

definition level_index :: "nat \<Rightarrow> u32 \<Rightarrow> nat" where
  "level_index l t = unat (drop_bit (wheel_shift l) t AND (if l = 1 then 0xFF else 0x3F))"

definition timer_wheel_slot :: "u32 \<Rightarrow> u32 \<Rightarrow> nat \<times> nat" where
  "timer_wheel_slot ex jif =
     (let delta = ex - jif
      in if sint delta < 0 then (1, level_index 1 jif)
         else if delta < 256 then (1, level_index 1 ex)
         else if delta < push_bit 14 1 then (2, level_index 2 ex)
         else if delta < push_bit 20 1 then (3, level_index 3 ex)
         else if delta < push_bit 26 1 then (4, level_index 4 ex)
         else (5, level_index 5 ex))"

definition jlos_timer_wheel_init :: "'n jlos_timer_wheel \<Rightarrow> u32 \<Rightarrow> 'n jlos_timer_wheel" where
  "jlos_timer_wheel_init w jif = w\<lparr>vecs := (\<lambda>_ _. []), jiffies := jif\<rparr>"

definition jlos_timer_wheel_add :: "'n jlos_timer_wheel \<Rightarrow> 'n \<Rightarrow> 'n jlos_timer_wheel" where
  "jlos_timer_wheel_add w n =
     (let (l, i) = timer_wheel_slot (expires w n) (jiffies w)
      in w\<lparr>vecs := (vecs w)(l := (vecs w l)(i := vecs w l i @ [n]))\<rparr>)"

definition jlos_timer_wheel_del :: "'n jlos_timer_wheel \<Rightarrow> 'n \<Rightarrow> 'n jlos_timer_wheel" where
  "jlos_timer_wheel_del w n = w\<lparr>vecs := (\<lambda>l i. remove1 n (vecs w l i))\<rparr>"

text \<open>
  The safe iteration of the cascade: the successor is fixed before the node is moved, so
  the loop stops at a node that was the last one, and goes on with the first node left
  otherwise. It would not end if nodes kept coming back to the list.
\<close>

partial_function (option) timer_wheel_cascade ::
  "'n jlos_timer_wheel \<Rightarrow> nat \<Rightarrow> nat \<Rightarrow> 'n jlos_timer_wheel option" where
  "timer_wheel_cascade w l i =
     (case vecs w l i of
        [] \<Rightarrow> Some w
      | n # rest \<Rightarrow>
          (let w' = jlos_timer_wheel_add (jlos_timer_wheel_del w n) n
           in if rest = [] then Some w' else timer_wheel_cascade w' l i))"

definition cascade_levels :: "'n jlos_timer_wheel \<Rightarrow> 'n jlos_timer_wheel option" where
  "cascade_levels w =
     (let j = jiffies w
      in if level_index 1 j = 0 then
           Option.bind (timer_wheel_cascade w 2 (level_index 2 j)) (\<lambda>w.
           if level_index 2 j = 0 then
             Option.bind (timer_wheel_cascade w 3 (level_index 3 j)) (\<lambda>w.
             if level_index 3 j = 0 then
               Option.bind (timer_wheel_cascade w 4 (level_index 4 j)) (\<lambda>w.
               if level_index 4 j = 0 then timer_wheel_cascade w 5 (level_index 5 j)
               else Some w)
             else Some w)
           else Some w)
         else Some w)"

fun expire_slot ::
  "('n \<Rightarrow> 'c \<Rightarrow> 'c) \<Rightarrow> 'n list \<Rightarrow> 'n jlos_timer_wheel \<Rightarrow> 'c \<Rightarrow> 'n jlos_timer_wheel \<times> 'c" where
  "expire_slot ex [] w c = (w, c)"
| "expire_slot ex (n # ns) w c = expire_slot ex ns (jlos_timer_wheel_del w n) (ex n c)"

definition wheel_tick :: "('n \<Rightarrow> 'c \<Rightarrow> 'c) \<Rightarrow> 'n jlos_timer_wheel \<times> 'c \<Rightarrow> ('n jlos_timer_wheel \<times> 'c) option" where
  "wheel_tick ex st =
     (case st of (w, c) \<Rightarrow>
        let i1 = level_index 1 (jiffies w)
        in map_option (\<lambda>w. let w = w\<lparr>jiffies := jiffies w + 1\<rparr> in expire_slot ex (vecs w 1 i1) w c)
             (cascade_levels w))"

partial_function (option) jlos_timer_wheel_advance ::
  "('n \<Rightarrow> 'c \<Rightarrow> 'c) \<Rightarrow> u32 \<Rightarrow> 'n jlos_timer_wheel \<times> 'c \<Rightarrow> ('n jlos_timer_wheel \<times> 'c) option" where
  "jlos_timer_wheel_advance ex now st =
     (if 0 \<le> sint (now - jiffies (fst st))
      then Option.bind (wheel_tick ex st) (jlos_timer_wheel_advance ex now)
      else Some st)"

section \<open>Where a pending timer is\<close>

text \<open>The ticks that are left until a timer fires; a timer of the past fires at once.\<close>

definition ticks_left :: "u32 \<Rightarrow> u32 \<Rightarrow> nat" where
  "ticks_left ex j = unat (ex - j)"

definition due :: "u32 \<Rightarrow> u32 \<Rightarrow> nat" where
  "due ex j = (if 2 ^ 31 \<le> ticks_left ex j then 0 else ticks_left ex j)"

text \<open>
  \<open>node_ok\<close>: a timer on level 1 is in the slot of its tick, less than 256 ticks ahead, or
  overdue in the current slot. On a higher level it is in the slot of its block of
  \<open>2 ^ shift\<close> ticks, whose start lies ahead by less than 64 blocks.
\<close>

definition node_ok :: "u32 \<Rightarrow> u32 \<Rightarrow> nat \<Rightarrow> nat \<Rightarrow> bool" where
  "node_ok j ex l i \<longleftrightarrow>
     (let d = ticks_left ex j; B = 2 ^ wheel_shift l
      in if l = 1 then (d < 256 \<and> i = unat ex mod 256) \<or> (2 ^ 31 \<le> d \<and> i = unat j mod 256)
         else 2 \<le> l \<and> l \<le> 5 \<and> d < 2 ^ 31 \<and> i = unat ex div B mod 64
           \<and> unat ex mod B \<le> d \<and> d - unat ex mod B < 64 * B)"

definition wheel_nodes :: "'n jlos_timer_wheel \<Rightarrow> 'n set" where
  "wheel_nodes w = {n. \<exists>l i. n \<in> set (vecs w l i)}"

definition wheel_inv :: "'n jlos_timer_wheel \<Rightarrow> bool" where
  "wheel_inv w \<longleftrightarrow>
     (\<forall>l i. distinct (vecs w l i))
     \<and> (\<forall>n l i l' i'. n \<in> set (vecs w l i) \<longrightarrow> n \<in> set (vecs w l' i') \<longrightarrow> l = l' \<and> i = i')
     \<and> (\<forall>n l i. n \<in> set (vecs w l i) \<longrightarrow> node_ok (jiffies w) (expires w n) l i)"

lemma wheel_shift_simps [simp]:
  "wheel_shift 1 = 0" "wheel_shift (Suc 0) = 0" "wheel_shift 2 = 8" "wheel_shift 3 = 14"
  "wheel_shift 4 = 20" "wheel_shift 5 = 26"
  by (simp_all add: wheel_shift_def)

lemma level_index_1: "level_index 1 t = unat t mod 256"
  using unat_and_mask [of 8 t] by (simp add: level_index_def)

lemma level_index_n: "l \<noteq> 1 \<Longrightarrow> level_index l t = unat t div 2 ^ wheel_shift l mod 64"
  using unat_and_mask [of 6 "drop_bit (wheel_shift l) t"] unat_drop_bit [of "wheel_shift l" t]
  by (simp add: level_index_def)

text \<open>The slot of the model in terms of the ticks that are left.\<close>

lemma timer_wheel_slot_ticks:
  "timer_wheel_slot ex j =
     (let d = ticks_left ex j
      in if 2 ^ 31 \<le> d then (1, unat j mod 256)
         else if d < 256 then (1, unat ex mod 256)
         else let l = (if d < 2 ^ 14 then 2 else if d < 2 ^ 20 then 3 else if d < 2 ^ 26 then 4 else 5)
              in (l, unat ex div 2 ^ wheel_shift l mod 64))"
  using sint_negative_iff [of "ex - j"]
  by (simp add: timer_wheel_slot_def ticks_left_def Let_def level_index_1 [simplified] level_index_n word_less_nat_alt)

lemma mod_le_of_le: "B \<le> d \<Longrightarrow> 0 < B \<Longrightarrow> (m :: nat) mod B < d"
  by (meson mod_less_divisor order_less_le_trans)

lemma slot_cases:
  assumes "timer_wheel_slot ex j = (l, i)"
  obtains (past) "2 ^ 31 \<le> ticks_left ex j" "l = 1" "i = unat j mod 256"
    | (near) "ticks_left ex j < 256" "l = 1" "i = unat ex mod 256"
    | (far) "2 \<le> l" "l \<le> 5" "i = unat ex div 2 ^ wheel_shift l mod 64" "ticks_left ex j < 2 ^ 31"
      "2 ^ wheel_shift l \<le> ticks_left ex j" "ticks_left ex j < 64 * 2 ^ wheel_shift l"
proof -
  let ?d = "ticks_left ex j"
  consider "2 ^ 31 \<le> ?d" | "?d < 256" | "256 \<le> ?d" "?d < 2 ^ 14" | "2 ^ 14 \<le> ?d" "?d < 2 ^ 20"
    | "2 ^ 20 \<le> ?d" "?d < 2 ^ 26" | "2 ^ 26 \<le> ?d" "?d < 2 ^ 31"
    by linarith
  then show thesis
  proof cases
    case 1
    then show thesis using assms by (intro past) (simp_all add: timer_wheel_slot_ticks)
  next
    case 2
    then show thesis using assms by (intro near) (simp_all add: timer_wheel_slot_ticks)
  qed (use assms far in \<open>simp_all add: timer_wheel_slot_ticks Let_def\<close>)
qed

lemma slot_node_ok:
  assumes "timer_wheel_slot ex j = (l, i)"
  shows "node_ok j ex l i"
  using assms
proof (cases rule: slot_cases)
  case far
  have "unat ex mod 2 ^ wheel_shift l < ticks_left ex j"
    using far by (intro mod_le_of_le) simp_all
  moreover from far have "ticks_left ex j - unat ex mod 2 ^ wheel_shift l < 64 * 2 ^ wheel_shift l"
    by linarith
  ultimately show ?thesis
    using far unfolding node_ok_def Let_def by simp
qed (simp_all add: node_ok_def)

lemma slot_above:
  assumes "timer_wheel_slot ex j = (l, i)" and "l \<noteq> 1"
  shows "unat ex mod 2 ^ wheel_shift l < ticks_left ex j"
  using assms(1) by (cases rule: slot_cases) (use assms(2) mod_le_of_le in simp_all)

text \<open>
  A timer above level 1 whose block starts now is in the slot that is cascaded now, and
  conversely the nodes of that slot have a block starting now.
\<close>

lemma add_mod_unchanged: "(a + c) mod M = a \<Longrightarrow> a < M \<Longrightarrow> c < M \<Longrightarrow> c = (0::nat)"
  by (cases "a + c < M") (simp_all add: le_mod_geq)

lemma node_ok_level: "node_ok j ex l i \<Longrightarrow> 1 \<le> l \<and> l \<le> 5"
  by (auto simp: node_ok_def Let_def split: if_splits)

lemma ticks_mod:
  assumes "l \<le> 5" and "B = 2 ^ wheel_shift l"
  shows "unat ex mod B = (unat j + ticks_left ex j) mod B"
    and "unat ex mod (B * 64) = (unat j + ticks_left ex j) mod (B * 64)"
proof -
  have sh: "wheel_shift l \<le> 26" using assms(1) unfolding wheel_shift_def by simp arith
  have "B * 64 = 2 ^ (wheel_shift l + 6)" by (simp add: assms(2) power_add)
  then show "unat ex mod (B * 64) = (unat j + ticks_left ex j) mod (B * 64)"
    using sh unat_diff_mod [of "wheel_shift l + 6" ex j] by (simp add: ticks_left_def)
  show "unat ex mod B = (unat j + ticks_left ex j) mod B"
    using sh unat_diff_mod [of "wheel_shift l" ex j] by (simp add: ticks_left_def assms(2))
qed

lemma block_start_now:
  assumes ok: "node_ok j ex l i" and l: "l \<noteq> 1" and now: "unat ex mod 2 ^ wheel_shift l = ticks_left ex j"
  shows "unat j mod 2 ^ wheel_shift l = 0" and "i = unat j div 2 ^ wheel_shift l mod 64"
proof -
  define B where "B = (2 :: nat) ^ wheel_shift l"
  let ?d = "ticks_left ex j"
  have B: "0 < B" "?d < B" using now by (simp_all add: B_def flip: now)
  note tm = ticks_mod [OF _ B_def, of ex j]
  have "l \<le> 5" using node_ok_level [OF ok] by simp
  note tm = tm [OF this]
  have "(?d + unat j mod B) mod B = ?d"
    using tm(1) now unfolding B_def [symmetric] by (metis add.commute mod_add_right_eq)
  then have j0: "unat j mod B = 0"
    using B by (intro add_mod_unchanged [of ?d _ B]) simp_all
  then show "unat j mod 2 ^ wheel_shift l = 0" by (simp add: B_def)
  have "(unat j + ?d) div B = unat j div B"
    using j0 B by (simp add: div_add1_eq)
  then have "B * (unat ex div B mod 64) + unat ex mod B = B * (unat j div B mod 64) + unat ex mod B"
    using tm by (simp add: mod_mult2_eq)
  then show "i = unat j div 2 ^ wheel_shift l mod 64"
    using ok l B by (simp add: node_ok_def B_def Let_def)
qed

lemma cascaded_now:
  assumes ok: "node_ok j ex l i" and l: "l \<noteq> 1" and j0: "unat j mod 2 ^ wheel_shift l = 0"
    and i: "i = unat j div 2 ^ wheel_shift l mod 64"
  shows "ticks_left ex j = unat ex mod 2 ^ wheel_shift l"
proof -
  define B where "B = (2 :: nat) ^ wheel_shift l"
  let ?d = "ticks_left ex j" and ?a = "unat ex mod (B * 64)"
  have B: "0 < B" by (simp add: B_def)
  have ok': "i = unat ex div B mod 64" "unat ex mod B \<le> ?d" "?d - unat ex mod B < B * 64" "l \<le> 5"
    using ok l by (auto simp: node_ok_def B_def Let_def)
  have "?a = unat j mod (B * 64) + unat ex mod B"
    using ok'(1) i j0 by (simp add: mod_mult2_eq B_def)
  moreover have "(unat j mod (B * 64) + ?d) mod (B * 64) = ?a"
    using ticks_mod(2) [OF ok'(4) B_def, of ex j] by (simp add: mod_simps)
  ultimately have "(?a + (?d - unat ex mod B)) mod (B * 64) = ?a"
    using ok'(2) by simp
  then have "?d - unat ex mod B = 0"
    using ok'(3) B by (intro add_mod_unchanged [of ?a _ "B * 64"]) simp_all
  then show ?thesis using ok'(2) by (simp add: B_def)
qed

section \<open>Adding, removing and cascading timers\<close>

lemma vecs_add:
  "vecs (jlos_timer_wheel_add w n) l i =
     (if timer_wheel_slot (expires w n) (jiffies w) = (l, i) then vecs w l i @ [n] else vecs w l i)"
  by (auto simp: jlos_timer_wheel_add_def split: prod.split)

lemma vecs_del [simp]: "vecs (jlos_timer_wheel_del w n) l i = remove1 n (vecs w l i)"
  by (simp add: jlos_timer_wheel_del_def)

lemma wheel_fields [simp]:
  "jiffies (jlos_timer_wheel_add w n) = jiffies w" "expires (jlos_timer_wheel_add w n) = expires w"
  "jiffies (jlos_timer_wheel_del w n) = jiffies w" "expires (jlos_timer_wheel_del w n) = expires w"
  by (simp_all add: jlos_timer_wheel_add_def jlos_timer_wheel_del_def split: prod.split)

lemma wheel_inv_init: "wheel_inv (jlos_timer_wheel_init w j)" "wheel_nodes (jlos_timer_wheel_init w j) = {}"
  by (simp_all add: wheel_inv_def wheel_nodes_def jlos_timer_wheel_init_def)

lemma in_vecs_add:
  "m \<in> set (vecs (jlos_timer_wheel_add w n) l i) \<longleftrightarrow>
     m \<in> set (vecs w l i) \<or> (m = n \<and> timer_wheel_slot (expires w n) (jiffies w) = (l, i))"
  by (auto simp: vecs_add)

lemma nodes_add [simp]: "wheel_nodes (jlos_timer_wheel_add w n) = insert n (wheel_nodes w)"
proof -
  obtain l i where "timer_wheel_slot (expires w n) (jiffies w) = (l, i)" by (cases "timer_wheel_slot (expires w n) (jiffies w)")
  then show ?thesis by (auto simp: wheel_nodes_def in_vecs_add)
qed

lemma wheel_inv_add [inv_intros]:
  assumes inv: "wheel_inv w" and n: "n \<notin> wheel_nodes w"
  shows "wheel_inv (jlos_timer_wheel_add w n)"
proof -
  have "n \<notin> set (vecs w l i)" for l i using n by (auto simp: wheel_nodes_def)
  then show ?thesis
    using inv slot_node_ok [of "expires w n" "jiffies w"]
    unfolding wheel_inv_def in_vecs_add wheel_fields by (auto simp: vecs_add)
qed

lemma in_vecs_del:
  "wheel_inv w \<Longrightarrow> m \<in> set (vecs (jlos_timer_wheel_del w n) l i) \<longleftrightarrow> m \<in> set (vecs w l i) \<and> m \<noteq> n"
  by (auto simp: wheel_inv_def)

lemma nodes_del: "wheel_inv w \<Longrightarrow> wheel_nodes (jlos_timer_wheel_del w n) = wheel_nodes w - {n}"
  by (auto simp: wheel_nodes_def in_vecs_del simp del: vecs_del)

lemma wheel_inv_del [inv_intros]:
  assumes "wheel_inv w"
  shows "wheel_inv (jlos_timer_wheel_del w n)"
proof -
  have "distinct (vecs (jlos_timer_wheel_del w n) l i)" for l i
    using assms by (simp add: wheel_inv_def distinct_remove1)
  then show ?thesis
    using assms unfolding wheel_inv_def in_vecs_del [OF assms] wheel_fields by blast
qed

text \<open>\<open>level_ahead w l\<close>: no block of a timer on level \<open>l\<close> starts at the current tick.\<close>

definition level_ahead :: "'n jlos_timer_wheel \<Rightarrow> nat \<Rightarrow> bool" where
  "level_ahead w l \<longleftrightarrow> (\<forall>i. \<forall>n\<in>set (vecs w l i).
     unat (expires w n) mod 2 ^ wheel_shift l < ticks_left (expires w n) (jiffies w))"

lemma level_ahead_if_empty:
  assumes inv: "wheel_inv w" and l: "l \<noteq> 1"
    and empty: "unat (jiffies w) mod 2 ^ wheel_shift l = 0 \<Longrightarrow> vecs w l (unat (jiffies w) div 2 ^ wheel_shift l mod 64) = []"
  shows "level_ahead w l"
  unfolding level_ahead_def
proof (intro allI ballI)
  fix i n assume n: "n \<in> set (vecs w l i)"
  then have ok: "node_ok (jiffies w) (expires w n) l i" using inv by (auto simp: wheel_inv_def)
  have "unat (expires w n) mod 2 ^ wheel_shift l \<noteq> ticks_left (expires w n) (jiffies w)"
  proof
    assume now: "unat (expires w n) mod 2 ^ wheel_shift l = ticks_left (expires w n) (jiffies w)"
    from block_start_now [OF ok l now] empty n show False by simp
  qed
  then show "unat (expires w n) mod 2 ^ wheel_shift l < ticks_left (expires w n) (jiffies w)"
    using ok l by (auto simp: node_ok_def Let_def)
qed

definition cascade_keeps :: "'n jlos_timer_wheel \<Rightarrow> 'n jlos_timer_wheel \<Rightarrow> bool" where
  "cascade_keeps w w' \<longleftrightarrow> wheel_inv w' \<and> wheel_nodes w' = wheel_nodes w \<and> jiffies w' = jiffies w
     \<and> expires w' = expires w \<and> (\<forall>l. l \<noteq> 1 \<longrightarrow> level_ahead w l \<longrightarrow> level_ahead w' l)"

lemma cascade_keeps_trans: "cascade_keeps w w1 \<Longrightarrow> cascade_keeps w1 w2 \<Longrightarrow> cascade_keeps w w2"
  by (simp add: cascade_keeps_def)

lemma cascade_move:
  assumes inv: "wheel_inv w" and n: "n \<in> wheel_nodes w"
  shows "cascade_keeps w (jlos_timer_wheel_add (jlos_timer_wheel_del w n) n)"
proof -
  let ?v = "jlos_timer_wheel_del w n"
  have v: "wheel_inv ?v" "n \<notin> wheel_nodes ?v" "insert n (wheel_nodes ?v) = wheel_nodes w"
    using inv n by (auto simp: nodes_del intro: inv_intros)
  have "level_ahead (jlos_timer_wheel_add ?v n) l" if "l \<noteq> 1" "level_ahead w l" for l
    using that slot_above [of "expires w n" "jiffies w" l]
    unfolding level_ahead_def Ball_def in_vecs_add in_vecs_del [OF inv] wheel_fields by blast
  then show ?thesis
    using v by (auto simp: cascade_keeps_def intro: inv_intros)
qed

lemma timer_wheel_cascade_result:
  assumes "wheel_inv w" and l: "l \<noteq> 1" and j0: "unat (jiffies w) mod 2 ^ wheel_shift l = 0"
    and i: "i = unat (jiffies w) div 2 ^ wheel_shift l mod 64"
  shows "\<exists>w'. timer_wheel_cascade w l i = Some w' \<and> cascade_keeps w w' \<and> level_ahead w' l"
  using assms
proof (induction "length (vecs w l i)" arbitrary: w rule: less_induct)
  case less
  show ?case
  proof (cases "vecs w l i")
    case Nil
    then have "level_ahead w l" using less.prems by (intro level_ahead_if_empty) auto
    then show ?thesis using Nil less.prems(1) by (simp add: timer_wheel_cascade.simps cascade_keeps_def)
  next
    case (Cons n rest)
    let ?w = "jlos_timer_wheel_add (jlos_timer_wheel_del w n) n"
    have "n \<in> set (vecs w l i)" using Cons by simp
    then have "n \<in> wheel_nodes w" unfolding wheel_nodes_def by blast
    then have keeps: "cascade_keeps w ?w" using less.prems(1) by (intro cascade_move) auto
    have ok: "node_ok (jiffies w) (expires w n) l i"
      using less.prems(1) Cons by (auto simp: wheel_inv_def)
    have "ticks_left (expires w n) (jiffies w) = unat (expires w n) mod 2 ^ wheel_shift l"
      using ok less.prems(2-4) by (rule cascaded_now)
    then have "timer_wheel_slot (expires w n) (jiffies w) \<noteq> (l, i)"
      using slot_above less.prems(2) by force
    then have rest: "vecs ?w l i = rest" using Cons by (simp add: vecs_add)
    show ?thesis
    proof (cases "rest = []")
      case True
      then have "level_ahead ?w l"
        using keeps less.prems rest by (intro level_ahead_if_empty) (auto simp: cascade_keeps_def)
      then show ?thesis using True Cons keeps by (simp add: timer_wheel_cascade.simps [of w])
    next
      case False
      obtain w' where "timer_wheel_cascade ?w l i = Some w'" "cascade_keeps ?w w'" "level_ahead w' l"
        using less.hyps [of ?w] less.prems keeps rest Cons by (auto simp: cascade_keeps_def)
      then show ?thesis
        using False Cons cascade_keeps_trans [OF keeps] by (auto simp: timer_wheel_cascade.simps [of w])
    qed
  qed
qed

lemma level_indices_zero:
  "level_index 1 j = 0 \<longleftrightarrow> unat j mod 2 ^ 8 = 0"
  "unat j mod 2 ^ 8 = 0 \<Longrightarrow> level_index 2 j = 0 \<longleftrightarrow> unat j mod 2 ^ 14 = 0"
  "unat j mod 2 ^ 14 = 0 \<Longrightarrow> level_index 3 j = 0 \<longleftrightarrow> unat j mod 2 ^ 20 = 0"
  "unat j mod 2 ^ 20 = 0 \<Longrightarrow> level_index 4 j = 0 \<longleftrightarrow> unat j mod 2 ^ 26 = 0"
  using mod_mult2_eq [of "unat j" "2 ^ 8" 64] mod_mult2_eq [of "unat j" "2 ^ 14" 64]
    mod_mult2_eq [of "unat j" "2 ^ 20" 64]
  by (simp_all add: level_index_1 [simplified] level_index_n)

lemma mod_pow_mono: "(m :: nat) mod 2 ^ k = 0 \<Longrightarrow> i \<le> k \<Longrightarrow> m mod 2 ^ i = 0"
  by (metis dvd_imp_mod_0 dvd_trans le_imp_power_dvd mod_0_imp_dvd)

lemma level_ahead_nonzero:
  assumes "wheel_inv w" and "l \<noteq> 1" and "2 \<le> l \<Longrightarrow> l \<le> 5 \<Longrightarrow> unat (jiffies w) mod 2 ^ wheel_shift l \<noteq> 0"
  shows "level_ahead w l"
proof (cases "2 \<le> l \<and> l \<le> 5")
  case True
  then show ?thesis using assms by (intro level_ahead_if_empty) auto
next
  case False
  have "n \<notin> set (vecs w l i)" for n i
  proof
    assume "n \<in> set (vecs w l i)"
    then have "node_ok (jiffies w) (expires w n) l i" using assms(1) by (simp add: wheel_inv_def)
    from node_ok_level [OF this] False assms(2) show False by linarith
  qed
  then show ?thesis unfolding level_ahead_def by blast
qed

text \<open>The stages of the cascade: below level \<open>m\<close> no block starts at the current tick any more.\<close>

definition ahead_except :: "'n jlos_timer_wheel \<Rightarrow> nat \<Rightarrow> bool" where
  "ahead_except w m \<longleftrightarrow> (\<forall>l. l \<noteq> 1 \<longrightarrow> l < m \<longrightarrow> level_ahead w l)"

lemma ahead_all:
  assumes inv: "wheel_inv w" and below: "ahead_except w m" and m: "2 \<le> m"
    and stop: "m \<le> 5 \<Longrightarrow> unat (jiffies w) mod 2 ^ wheel_shift m \<noteq> 0"
  shows "\<forall>l. l \<noteq> 1 \<longrightarrow> level_ahead w l"
proof (intro allI impI)
  fix l :: nat assume l: "l \<noteq> 1"
  show "level_ahead w l"
  proof (cases "l < m")
    case True
    then show ?thesis using below l by (simp add: ahead_except_def)
  next
    case False
    have "unat (jiffies w) mod 2 ^ wheel_shift l \<noteq> 0" if "2 \<le> l" "l \<le> 5"
    proof -
      have "wheel_shift m \<le> wheel_shift l" using False m by (simp add: wheel_shift_def)
      moreover have "unat (jiffies w) mod 2 ^ wheel_shift m \<noteq> 0" using stop that False by simp
      ultimately show ?thesis
        using mod_pow_mono [of "unat (jiffies w)" "wheel_shift l" "wheel_shift m"] by auto
    qed
    then show ?thesis using inv l by (intro level_ahead_nonzero) auto
  qed
qed

lemma cascade_stage:
  assumes keeps: "cascade_keeps w0 w" and below: "ahead_except w m" and m: "2 \<le> m" "m \<le> 5"
    and j0: "unat (jiffies w) mod 2 ^ wheel_shift m = 0"
  obtains w' where "timer_wheel_cascade w m (level_index m (jiffies w)) = Some w'"
    "cascade_keeps w0 w'" "ahead_except w' (Suc m)" "jiffies w' = jiffies w"
proof -
  have inv: "wheel_inv w" using keeps by (simp add: cascade_keeps_def)
  obtain w' where w': "timer_wheel_cascade w m (level_index m (jiffies w)) = Some w'" "cascade_keeps w w'" "level_ahead w' m"
    using timer_wheel_cascade_result [OF inv _ j0, of "level_index m (jiffies w)"] m by (auto simp: level_index_n)
  then have "ahead_except w' (Suc m)"
    using below by (auto simp: ahead_except_def cascade_keeps_def less_Suc_eq)
  then show thesis
    using that w' cascade_keeps_trans [OF keeps w'(2)] by (auto simp: cascade_keeps_def)
qed

lemma cascade_levels_result:
  assumes inv: "wheel_inv w"
  shows "\<exists>w'. cascade_levels w = Some w' \<and> cascade_keeps w w' \<and> (\<forall>l. l \<noteq> 1 \<longrightarrow> level_ahead w' l)"
proof -
  let ?j = "jiffies w"
  note idx = level_indices_zero [of ?j]
  have fin: "\<forall>l. l \<noteq> 1 \<longrightarrow> level_ahead v l"
    if "cascade_keeps w v" "ahead_except v m" "2 \<le> m" "m \<le> 5 \<Longrightarrow> unat ?j mod 2 ^ wheel_shift m \<noteq> 0" for v m
    using that by (intro ahead_all) (auto simp: cascade_keeps_def)
  have k1: "cascade_keeps w w" "ahead_except w 2"
    using inv by (auto simp: cascade_keeps_def ahead_except_def level_ahead_nonzero)
  show ?thesis
  proof (cases "unat ?j mod 2 ^ 8 = 0")
    case False
    then show ?thesis using idx(1) k1 fin [OF k1] by (auto simp: cascade_levels_def Let_def)
  next
    case z2: True
    obtain w2 where w2: "timer_wheel_cascade w 2 (level_index 2 ?j) = Some w2"
        "cascade_keeps w w2" "ahead_except w2 3" "jiffies w2 = ?j"
      using cascade_stage [OF k1] z2 by auto
    show ?thesis
    proof (cases "unat ?j mod 2 ^ 14 = 0")
      case False
      then show ?thesis using idx z2 w2 fin [OF w2(2,3)] by (auto simp: cascade_levels_def Let_def)
    next
      case z3: True
      obtain w3 where w3: "timer_wheel_cascade w2 3 (level_index 3 ?j) = Some w3"
          "cascade_keeps w w3" "ahead_except w3 4" "jiffies w3 = ?j"
        using cascade_stage [OF w2(2,3)] w2(4) z3 by auto
      show ?thesis
      proof (cases "unat ?j mod 2 ^ 20 = 0")
        case False
        then show ?thesis using idx z2 z3 w2 w3 fin [OF w3(2,3)] by (auto simp: cascade_levels_def Let_def)
      next
        case z4: True
        obtain w4 where w4: "timer_wheel_cascade w3 4 (level_index 4 ?j) = Some w4"
            "cascade_keeps w w4" "ahead_except w4 5" "jiffies w4 = ?j"
          using cascade_stage [OF w3(2,3)] w3(4) z4 by auto
        show ?thesis
        proof (cases "unat ?j mod 2 ^ 26 = 0")
          case False
          then show ?thesis using idx z2 z3 z4 w2 w3 w4 fin [OF w4(2,3)] by (auto simp: cascade_levels_def Let_def)
        next
          case z5: True
          obtain w5 where w5: "timer_wheel_cascade w4 5 (level_index 5 ?j) = Some w5"
              "cascade_keeps w w5" "ahead_except w5 6"
            using cascade_stage [OF w4(2,3)] w4(4) z5 by auto
          then show ?thesis
            using idx z2 z3 z4 z5 w2 w3 w4 fin [OF w5(2,3)] by (auto simp: cascade_levels_def Let_def)
        qed
      qed
    qed
  qed
qed

section \<open>One tick\<close>

lemma ticks_left_step: "0 < ticks_left ex j \<Longrightarrow> ticks_left ex (j + 1) = ticks_left ex j - 1"
proof -
  assume pos: "0 < ticks_left ex j"
  have "ex - (j + 1) = (ex - j) - 1" by simp
  moreover have "1 \<le> ex - j" using pos by (simp add: ticks_left_def word_le_nat_alt)
  ultimately show ?thesis using unat_sub [of 1 "ex - j"] by (simp only: ticks_left_def) simp
qed

lemma due_step: "0 < due ex j \<Longrightarrow> due ex (j + 1) = due ex j - 1"
  using ticks_left_step [of ex j] by (auto simp: due_def split: if_splits)

lemma due_level_1:
  assumes "node_ok j ex 1 i"
  shows "due ex j = 0 \<longleftrightarrow> i = unat j mod 256"
proof -
  have e: "unat ex mod 256 = (unat j + ticks_left ex j) mod 256"
    using unat_diff_mod [of 8 ex j] by (simp add: ticks_left_def)
  have "(unat j mod 256 + ticks_left ex j) mod 256 = unat j mod 256 \<longleftrightarrow> ticks_left ex j = 0" if "ticks_left ex j < 256"
    using that add_mod_unchanged [of "unat j mod 256" "ticks_left ex j" 256] by auto
  then show ?thesis
    using assms e by (auto simp: node_ok_def due_def mod_add_left_eq Let_def)
qed

lemma due_level_above: "node_ok j ex l i \<Longrightarrow> l \<noteq> 1 \<Longrightarrow> due ex j = ticks_left ex j"
  by (auto simp: node_ok_def due_def Let_def)

lemma node_ok_step:
  assumes ok: "node_ok j ex l i" and pos: "0 < due ex j"
    and ahead: "l \<noteq> 1 \<Longrightarrow> unat ex mod 2 ^ wheel_shift l < ticks_left ex j"
  shows "node_ok (j + 1) ex l i"
proof -
  have d: "0 < ticks_left ex j" "ticks_left ex j < 2 ^ 31"
    using pos by (auto simp: due_def split: if_splits)
  note step = ticks_left_step [OF d(1)]
  show ?thesis
  proof (cases "l = 1")
    case True
    then show ?thesis using ok d step by (auto simp: node_ok_def Let_def)
  next
    case False
    then have *: "2 \<le> l \<and> l \<le> 5 \<and> i = unat ex div 2 ^ wheel_shift l mod 64
        \<and> ticks_left ex j - unat ex mod 2 ^ wheel_shift l < 64 * 2 ^ wheel_shift l"
      using ok by (simp add: node_ok_def Let_def)
    moreover have "unat ex mod 2 ^ wheel_shift l \<le> ticks_left ex j - 1" using ahead [OF False] by linarith
    moreover have "ticks_left ex j - 1 < 2 ^ 31" using d by linarith
    moreover have "ticks_left ex j - 1 - unat ex mod 2 ^ wheel_shift l < 64 * 2 ^ wheel_shift l" using * by linarith
    ultimately show ?thesis using False unfolding node_ok_def Let_def step by simp
  qed
qed

lemma expire_slot_fold: "expire_slot ex ns w c = (fold (\<lambda>n w. jlos_timer_wheel_del w n) ns w, fold ex ns c)"
  by (induction ns arbitrary: w c) simp_all

lemma fold_del_vecs:
  "set (vecs (fold (\<lambda>n w. jlos_timer_wheel_del w n) ns w) l i) \<subseteq> set (vecs w l i)"
  "distinct (vecs w l i) \<Longrightarrow> distinct (vecs (fold (\<lambda>n w. jlos_timer_wheel_del w n) ns w) l i)
     \<and> set (vecs (fold (\<lambda>n w. jlos_timer_wheel_del w n) ns w) l i) = set (vecs w l i) - set ns"
  "jiffies (fold (\<lambda>n w. jlos_timer_wheel_del w n) ns w) = jiffies w"
  "expires (fold (\<lambda>n w. jlos_timer_wheel_del w n) ns w) = expires w"
proof (induction ns arbitrary: w)
  case (Cons n ns)
  { case 1 show ?case using Cons.IH(1) [of "jlos_timer_wheel_del w n"] by (auto dest: set_remove1_subset [THEN subsetD]) }
  { case 2 then show ?case using Cons.IH(2) [of "jlos_timer_wheel_del w n"] by (auto simp: distinct_remove1) }
  { case 3 show ?case using Cons.IH(3) by simp }
  { case 4 show ?case using Cons.IH(4) by simp }
qed simp_all

text \<open>
  \<open>fires w m xs w'\<close>: within \<open>m\<close> ticks from the state \<open>w\<close> the timers \<open>xs\<close> fire, in this order,
  which are those due by then, and the wheel \<open>w'\<close> keeps the others.
\<close>

definition fires :: "'n jlos_timer_wheel \<Rightarrow> nat \<Rightarrow> 'n list \<Rightarrow> 'n jlos_timer_wheel \<Rightarrow> bool" where
  "fires w m xs w' \<longleftrightarrow> wheel_inv w' \<and> expires w' = expires w \<and> distinct xs
     \<and> sorted (map (\<lambda>n. due (expires w n) (jiffies w)) xs)
     \<and> set xs = {n \<in> wheel_nodes w. due (expires w n) (jiffies w) \<le> m}
     \<and> wheel_nodes w' = {n \<in> wheel_nodes w. m < due (expires w n) (jiffies w)}"

lemma wheel_tick_result:
  assumes inv: "wheel_inv w"
  shows "\<exists>w' xs. wheel_tick ex (w, c) = Some (w', fold ex xs c) \<and> jiffies w' = jiffies w + 1 \<and> fires w 0 xs w'"
proof -
  obtain v where v: "cascade_levels w = Some v" "cascade_keeps w v" "\<forall>l. l \<noteq> 1 \<longrightarrow> level_ahead v l"
    using cascade_levels_result [OF inv] by blast
  have keep: "wheel_inv v" "wheel_nodes v = wheel_nodes w" "jiffies v = jiffies w" "expires v = expires w"
    using v(2) by (simp_all add: cascade_keeps_def)
  let ?j = "jiffies w" and ?e = "expires w"
  define xs where "xs = vecs v 1 (unat ?j mod 256)"
  define w' where "w' = fold (\<lambda>n w. jlos_timer_wheel_del w n) xs (v\<lparr>jiffies := ?j + 1\<rparr>)"
  have tick: "wheel_tick ex (w, c) = Some (w', fold ex xs c)"
    using v(1) keep(3) by (simp add: wheel_tick_def level_index_1 [simplified] Let_def expire_slot_fold w'_def xs_def)
  have ok: "node_ok ?j (?e n) l i" if "n \<in> set (vecs v l i)" for n l i
    using that keep by (auto simp: wheel_inv_def)
  have ahead: "unat (?e n) mod 2 ^ wheel_shift l < ticks_left (?e n) ?j" if "n \<in> set (vecs v l i)" "l \<noteq> 1" for n l i
    using that v(3) keep(3,4) by (auto simp: level_ahead_def)
  have due: "due (?e n) ?j = 0 \<longleftrightarrow> l = 1 \<and> i = unat ?j mod 256" if n: "n \<in> set (vecs v l i)" for n l i
  proof (cases "l = 1")
    case True
    then show ?thesis using due_level_1 ok [OF n] by simp
  next
    case False
    then show ?thesis using due_level_above [OF ok [OF n] False] ahead [OF n False] by simp
  qed
  have nodes_w: "wheel_nodes w = {n. \<exists>l i. n \<in> set (vecs v l i)}"
    using keep(2) by (simp add: wheel_nodes_def)
  have set_xs: "set xs = {n \<in> wheel_nodes w. due (?e n) ?j = 0}"
  proof (intro equalityI subsetI)
    fix n assume "n \<in> set xs"
    then have n: "n \<in> set (vecs v 1 (unat ?j mod 256))" by (simp add: xs_def)
    then show "n \<in> {n \<in> wheel_nodes w. due (?e n) ?j = 0}" using due [OF n] by (auto simp: nodes_w)
  next
    fix n assume "n \<in> {n \<in> wheel_nodes w. due (?e n) ?j = 0}"
    then obtain l i where n: "n \<in> set (vecs v l i)" and "due (?e n) ?j = 0" by (auto simp: nodes_w)
    then show "n \<in> set xs" using due [OF n] by (simp add: xs_def)
  qed
  have in_w': "n \<in> set (vecs w' l i) \<longleftrightarrow> n \<in> set (vecs v l i) \<and> n \<notin> set xs"
      "distinct (vecs w' l i)" for n l i
    using fold_del_vecs(2) [of "v\<lparr>jiffies := ?j + 1\<rparr>" l i xs] keep(1)
    by (auto simp: w'_def wheel_inv_def)
  have fields: "jiffies w' = ?j + 1" "expires w' = ?e"
    by (simp_all add: w'_def fold_del_vecs(3,4) keep(4))
  have next_ok: "node_ok (?j + 1) (?e n) l i" if n: "n \<in> set (vecs v l i)" "n \<notin> set xs" for n l i
  proof (rule node_ok_step [OF ok [OF n(1)]])
    show "0 < due (?e n) ?j" using due [OF n(1)] n by (auto simp: xs_def)
  qed (use ahead n in auto)
  have "wheel_inv w'"
    unfolding wheel_inv_def fields
  proof (intro conjI allI impI)
    fix n l i l' i' assume "n \<in> set (vecs w' l i)" "n \<in> set (vecs w' l' i')"
    then have "n \<in> set (vecs v l i)" "n \<in> set (vecs v l' i')" by (simp_all add: in_w')
    then show "l = l'" "i = i'" using keep(1) by (auto simp: wheel_inv_def)
  qed (simp_all add: in_w' next_ok)
  moreover have "wheel_nodes w' = {n \<in> wheel_nodes w. 0 < due (?e n) ?j}"
    unfolding wheel_nodes_def [of w'] in_w'(1) set_xs by (auto simp: nodes_w)
  moreover have "distinct xs" using keep(1) by (simp add: xs_def wheel_inv_def)
  moreover have "map (\<lambda>n. due (?e n) ?j) xs = replicate (length xs) 0"
    using set_xs by (simp add: map_replicate_const [symmetric])
  ultimately have "fires w 0 xs w'" using fields set_xs by (simp add: fires_def)
  then show ?thesis using tick fields by blast
qed

section \<open>Advancing the wheel\<close>

lemma fires_step:
  assumes first: "fires w 0 xs w1" and j: "jiffies w1 = jiffies w + 1" and rest: "fires w1 m ys w2"
  shows "fires w (Suc m) (xs @ ys) w2"
proof -
  let ?d = "\<lambda>n. due (expires w n) (jiffies w)"
  have f: "set xs = {n \<in> wheel_nodes w. ?d n = 0}" "wheel_nodes w1 = {n \<in> wheel_nodes w. 0 < ?d n}"
    "expires w1 = expires w" "distinct xs"
    using first by (auto simp: fires_def)
  have d1: "due (expires w1 n) (jiffies w1) = ?d n - 1" if "n \<in> wheel_nodes w1" for n
    using that f(2,3) j due_step by simp
  have r: "wheel_inv w2" "expires w2 = expires w" "distinct ys"
    "sorted (map (\<lambda>n. due (expires w1 n) (jiffies w1)) ys)"
    "set ys = {n \<in> wheel_nodes w1. due (expires w1 n) (jiffies w1) \<le> m}"
    "wheel_nodes w2 = {n \<in> wheel_nodes w1. m < due (expires w1 n) (jiffies w1)}"
    using rest f(3) by (auto simp: fires_def)
  have ys: "set ys = {n \<in> wheel_nodes w. 0 < ?d n \<and> ?d n \<le> Suc m}"
    using d1 f(2) unfolding r(5) by auto
  have "map (\<lambda>n. due (expires w1 n) (jiffies w1)) ys = map (\<lambda>n. ?d n - 1) ys"
    using d1 r(5) by (intro map_cong) auto
  then have "sorted (map ?d ys)"
    using r(4) ys by (auto simp: sorted_wrt_map elim!: sorted_wrt_mono_rel [rotated])
  then have "sorted (map ?d (xs @ ys))"
    using f(1) ys first by (auto simp: sorted_append fires_def)
  moreover have "wheel_nodes w2 = {n \<in> wheel_nodes w. Suc m < ?d n}"
    using d1 f(2) unfolding r(6) by auto
  moreover have "set (xs @ ys) = {n \<in> wheel_nodes w. ?d n \<le> Suc m}"
    using f(1) ys by auto
  ultimately show ?thesis
    using r(1-3) f ys by (auto simp: fires_def)
qed

lemma advance_fires:
  assumes "wheel_inv w" and "unat (now - jiffies w) = m" and "m < 2 ^ 31"
  shows "\<exists>w' xs. jlos_timer_wheel_advance ex now (w, c) = Some (w', fold ex xs c)
     \<and> jiffies w' = now + 1 \<and> fires w m xs w'"
  using assms
proof (induction m arbitrary: w c)
  case 0
  then have now: "now = jiffies w" by (simp add: unat_eq_0)
  obtain w' xs where t: "wheel_tick ex (w, c) = Some (w', fold ex xs c)" "jiffies w' = jiffies w + 1" "fires w 0 xs w'"
    using wheel_tick_result [OF 0(1), of ex c] by blast
  have "jlos_timer_wheel_advance ex now (w', fold ex xs c) = Some (w', fold ex xs c)"
    using t(2) now by (subst jlos_timer_wheel_advance.simps) simp
  then have "jlos_timer_wheel_advance ex now (w, c) = Some (w', fold ex xs c)"
    using t now by (subst jlos_timer_wheel_advance.simps) simp
  then show ?case using t now by blast
next
  case (Suc m)
  obtain w1 xs where t: "wheel_tick ex (w, c) = Some (w1, fold ex xs c)" "jiffies w1 = jiffies w + 1" "fires w 0 xs w1"
    using wheel_tick_result [OF Suc.prems(1), of ex c] by blast
  have "1 \<le> now - jiffies w" using Suc.prems(2) by (simp add: word_le_nat_alt)
  then have "unat (now - jiffies w - 1) = m"
    using Suc.prems(2) unat_sub [of 1 "now - jiffies w"] by simp
  then have m: "unat (now - jiffies w1) = m" by (simp add: t(2) diff_diff_eq)
  have w1: "wheel_inv w1" using t(3) by (simp add: fires_def)
  obtain w' ys where a: "jlos_timer_wheel_advance ex now (w1, fold ex xs c) = Some (w', fold ex ys (fold ex xs c))"
    "jiffies w' = now + 1" "fires w1 m ys w'"
    using Suc.IH [OF w1 m] Suc.prems(3) by fastforce
  have "0 \<le> sint (now - jiffies w)"
    using sint_negative_iff [of "now - jiffies w"] Suc.prems(2,3) by simp
  then have "jlos_timer_wheel_advance ex now (w, c) = Some (w', fold ex (xs @ ys) c)"
    using t(1) a(1) by (subst jlos_timer_wheel_advance.simps) simp
  then show ?case
    using fires_step [OF t(3,2) a(3)] a(2) by blast
qed

text \<open>
  C13: advancing a well-formed wheel to \<open>now\<close> returns; it fires exactly the timers whose tick
  has come by then, each once and in the order of their ticks, and keeps the others
  pending. Timers cross the five levels without being lost, delayed or hurried.
\<close>

theorem timer_wheel_advance_correct:
  assumes "wheel_inv w" and "unat (now - jiffies w) < 2 ^ 31"
  shows "\<exists>w' xs. jlos_timer_wheel_advance ex now (w, c) = Some (w', fold ex xs c)
     \<and> wheel_inv w' \<and> jiffies w' = now + 1
     \<and> distinct xs \<and> sorted (map (\<lambda>n. due (expires w n) (jiffies w)) xs)
     \<and> set xs = {n \<in> wheel_nodes w. due (expires w n) (jiffies w) \<le> unat (now - jiffies w)}
     \<and> wheel_nodes w' = {n \<in> wheel_nodes w. unat (now - jiffies w) < due (expires w n) (jiffies w)}"
proof -
  obtain w' xs where "jlos_timer_wheel_advance ex now (w, c) = Some (w', fold ex xs c)" "jiffies w' = now + 1"
      "fires w (unat (now - jiffies w)) xs w'"
    using advance_fires [OF assms(1) refl assms(2), of ex c] by blast
  then show ?thesis by (auto simp: fires_def)
qed

text \<open>
  The witness: two timers added at tick \<open>2 ^ 32 - 100\<close>, one for the past and one
  20000 ticks ahead, beyond the wrap of the counter and on the third level.
\<close>

definition wheel_demo :: "nat jlos_timer_wheel" where
  "wheel_demo = jlos_timer_wheel_add (jlos_timer_wheel_add
     (jlos_timer_wheel_init \<lparr>vecs = \<lambda>_ _. [], jiffies = 0, expires = (\<lambda>n. if n = 0 then 4294967000 else 19900)\<rparr>
       4294967196) 0) 1"

theorem timer_wheel_advance_correct_witness:
  "\<exists>w' xs. jlos_timer_wheel_advance (#) 19900 (wheel_demo, []) = Some (w', fold (#) xs [])
     \<and> wheel_inv w' \<and> jiffies w' = 19901
     \<and> distinct xs \<and> sorted (map (\<lambda>n. due (expires wheel_demo n) (jiffies wheel_demo)) xs)
     \<and> set xs = {1, 0} \<and> wheel_nodes w' = {}"
proof -
  have inv: "wheel_inv wheel_demo"
    unfolding wheel_demo_def by (intro inv_intros wheel_inv_init) (simp_all add: wheel_inv_init)
  have n: "wheel_nodes wheel_demo = {0, 1}"
    unfolding wheel_demo_def by (simp add: wheel_inv_init(2) insert_commute)
  have f: "jiffies wheel_demo = 4294967196" "expires wheel_demo 0 = 4294967000" "expires wheel_demo (Suc 0) = 19900"
    unfolding wheel_demo_def by (simp_all add: jlos_timer_wheel_init_def)
  have d: "unat (19900 - jiffies wheel_demo) = 20000"
    "due (expires wheel_demo 0) (jiffies wheel_demo) = 0" "due (expires wheel_demo (Suc 0)) (jiffies wheel_demo) = 20000"
    by (simp_all add: f due_def ticks_left_def)
  show ?thesis
    using timer_wheel_advance_correct [OF inv, of 19900 "(#)" "[]"] unfolding d(1) n
    by (simp add: d Collect_disj_eq conj_disj_distribR cong: conj_cong)
qed

end
