(* ===== verification/Page_Frame.thy ===== *)
theory Page_Frame
  imports Intrusive_List
begin

text \<open>
  \<^verbatim>\<open>kernel/page_frame_allocator.c\<close>: the binary buddy allocator of physical page frames
  with its per-CPU caches. Frames are page numbers below \<open>s_total_frames\<close>; the page
  array is a function from frames to page records, the free lists are HOL lists (the
  list functions that \<open>Intrusive_List\<close> proves the linked lists to implement). A path
  on which the code prints an emergency message and halts is \<open>None\<close>. Addresses are
  physical; an operation that holds the buddy lock, or runs with interrupts off on the
  cache of its own CPU, is one step, and so is a compare-and-exchange loop.
\<close>

section \<open>State\<close>

datatype jlos_page_frame_type = TYPE_FREE | TYPE_SLAB_OBJ | TYPE_KV_CONTIG | TYPE_KV_HEAP
  | TYPE_KERN_STACK | TYPE_PAGE_TABLE | TYPE_FILE_PAGE

record jlos_page =
  occupied :: bool
  ptype :: jlos_page_frame_type
  porder :: nat
  pt_present_count :: u8
  refcount :: int
  owner :: u64

text \<open>\<open>occupied\<close> is the only bit of \<open>flags\<close> in use. \<open>percpu c\<close> is the free list of CPU \<open>c\<close>;
  its \<open>count\<close> field is the length of the list. \<open>s_free_frames\<close> is an atomic 32-bit integer in
  the code; here it is exact, and the code's value is this one modulo \<open>2 ^ 32\<close>, which is how
  \<open>jlos_page_frame_get_free\<close>, the only reader, returns it.\<close>

record pfa =
  s_total_frames :: nat
  s_start_addr :: u32
  s_free_frames :: int
  s_free_order_bitmap :: u32
  s_pages :: "nat \<Rightarrow> jlos_page"
  s_free_area :: "nat \<Rightarrow> nat list"
  s_percpu :: "nat \<Rightarrow> nat list"

abbreviation MAX_ORDER :: nat where "MAX_ORDER \<equiv> 10"
abbreviation ORDER_INVALID :: nat where "ORDER_INVALID \<equiv> 255"
abbreviation PERCPU_HIGH :: nat where "PERCPU_HIGH \<equiv> 16"
abbreviation PERCPU_BATCH :: nat where "PERCPU_BATCH \<equiv> 8"
abbreviation FREE_N_MAX :: nat where "FREE_N_MAX \<equiv> 1024"
abbreviation REFCOUNT_MAX :: int where "REFCOUNT_MAX \<equiv> 255"

definition set_page :: "nat \<Rightarrow> (jlos_page \<Rightarrow> jlos_page) \<Rightarrow> pfa \<Rightarrow> pfa" where
  "set_page f u s = s\<lparr>s_pages := (s_pages s)(f := u (s_pages s f))\<rparr>"

definition set_area :: "nat \<Rightarrow> nat list \<Rightarrow> pfa \<Rightarrow> pfa" where
  "set_area o' xs s = s\<lparr>s_free_area := (s_free_area s)(o' := xs)\<rparr>"

definition set_percpu :: "nat \<Rightarrow> nat list \<Rightarrow> pfa \<Rightarrow> pfa" where
  "set_percpu c xs s = s\<lparr>s_percpu := (s_percpu s)(c := xs)\<rparr>"

section \<open>Boot allocator\<close>

definition PAGE_ALIGN_UP :: "u32 \<Rightarrow> u32" where
  "PAGE_ALIGN_UP a = JLOS_ALIGN_UP a 4096"

definition jlos_pfa_boot_alloc_init :: "u32 \<Rightarrow> u32" where
  "jlos_pfa_boot_alloc_init start_phys = PAGE_ALIGN_UP start_phys"

text \<open>State and result are the heap pointer; the allocated address is the old pointer.\<close>

definition jlos_pfa_boot_alloc :: "u32 \<Rightarrow> u32 \<Rightarrow> u32 \<times> u32" where
  "jlos_pfa_boot_alloc ptr sz = (ptr, ptr + PAGE_ALIGN_UP sz)"

definition jlos_pfa_boot_alloc_page :: "u32 \<Rightarrow> u32 \<times> u32" where
  "jlos_pfa_boot_alloc_page ptr = jlos_pfa_boot_alloc ptr 4096"

section \<open>Buddy lists\<close>

definition order_to_frames :: "nat \<Rightarrow> nat" where
  "order_to_frames order = 2 ^ order"

fun order_loop :: "nat \<Rightarrow> nat \<Rightarrow> nat" where
  "order_loop v order = (if v = 0 then order else order_loop (v div 2) (order + 1))"

declare order_loop.simps [simp del]

definition frames_to_order :: "nat \<Rightarrow> nat" where
  "frames_to_order n = (if n \<le> 1 then 0 else order_loop (n - 1) 0)"

definition buddy_mergeable :: "pfa \<Rightarrow> nat \<Rightarrow> nat \<Rightarrow> bool" where
  "buddy_mergeable s frame order =
     (let block = order_to_frames order; buddy = frame XOR block
      in if s_total_frames s \<le> buddy then False
         else let merged_start = (if buddy < frame then buddy else frame)
              in if s_total_frames s < merged_start + block * 2 then False
                 else porder (s_pages s buddy) = order \<and> \<not> occupied (s_pages s buddy))"

definition buddy_insert :: "nat \<Rightarrow> nat \<Rightarrow> pfa \<Rightarrow> pfa option" where
  "buddy_insert frame order s =
     (let block = order_to_frames order; pg = s_pages s frame
      in if s_total_frames s \<le> frame \<or> s_total_frames s < frame + block then None
         else if frame AND (block - 1) \<noteq> 0 then None
         else if occupied pg then None
         else if porder pg \<noteq> ORDER_INVALID \<and> porder pg \<noteq> order then None
         else let s = (if s_free_area s order = []
                       then s\<lparr>s_free_order_bitmap := s_free_order_bitmap s OR push_bit order 1\<rparr> else s);
                  s = set_area order (frame # s_free_area s order) s
              in Some (set_page frame (\<lambda>p. p\<lparr>porder := order\<rparr>) s))"

text \<open>A page's list node is unlinked exactly when the frame is on none of the lists.\<close>

definition node_unlinked :: "pfa \<Rightarrow> nat \<Rightarrow> bool" where
  "node_unlinked s frame \<longleftrightarrow> list_all (\<lambda>o'. frame \<notin> set (s_free_area s o')) [0..<Suc MAX_ORDER]"

definition buddy_remove :: "nat \<Rightarrow> nat \<Rightarrow> pfa \<Rightarrow> pfa option" where
  "buddy_remove frame order s =
     (let block = order_to_frames order; pg = s_pages s frame
      in if s_total_frames s \<le> frame \<or> s_total_frames s < frame + block then None
         else if porder pg \<noteq> order \<or> porder pg = ORDER_INVALID \<or> node_unlinked s frame then None
         else let s = set_area order (remove1 frame (s_free_area s order)) s;
                  s = (if s_free_area s order = []
                       then s\<lparr>s_free_order_bitmap := s_free_order_bitmap s AND NOT (push_bit order 1)\<rparr> else s)
              in Some (set_page frame (\<lambda>p. p\<lparr>porder := ORDER_INVALID\<rparr>) s))"

text \<open>\<open>k\<close> is the distance of \<open>order\<close> to \<open>target_order\<close>.\<close>

fun order_split_loop :: "nat \<Rightarrow> nat \<Rightarrow> nat \<Rightarrow> pfa \<Rightarrow> pfa option" where
  "order_split_loop frame order 0 s = Some s"
| "order_split_loop frame order (Suc k) s =
     Option.bind (buddy_insert (frame OR order_to_frames (order - 1)) (order - 1) s)
       (order_split_loop frame (order - 1) k)"

definition jlos_page_frame_order_split :: "nat \<Rightarrow> nat \<Rightarrow> nat \<Rightarrow> pfa \<Rightarrow> pfa option" where
  "jlos_page_frame_order_split frame order target_order s =
     order_split_loop frame order (order - target_order) s"

definition jlos_page_frame_mark_recycle :: "nat \<Rightarrow> pfa \<Rightarrow> pfa" where
  "jlos_page_frame_mark_recycle frame s =
     (if s_total_frames s \<le> frame then s
      else set_page frame (\<lambda>p. p\<lparr>occupied := False, refcount := 0, porder := ORDER_INVALID\<rparr>) s)"

definition jlos_page_frame_mark_reserve :: "nat \<Rightarrow> pfa \<Rightarrow> pfa" where
  "jlos_page_frame_mark_reserve frame s =
     (if s_total_frames s \<le> frame then s
      else set_page frame (\<lambda>p. p\<lparr>occupied := True, refcount := 1, porder := ORDER_INVALID,
             ptype := TYPE_FREE, pt_present_count := 0\<rparr>) s)"

text \<open>The merge loop; \<open>k\<close> rounds are left before \<open>MAX_ORDER\<close>.\<close>

fun buddy_merge_loop :: "nat \<Rightarrow> nat \<Rightarrow> nat \<Rightarrow> pfa \<Rightarrow> (nat \<times> nat \<times> pfa) option" where
  "buddy_merge_loop 0 frame order s = Some (frame, order, s)"
| "buddy_merge_loop (Suc k) frame order s =
     (if buddy_mergeable s frame order then
        let buddy = frame XOR order_to_frames order
        in Option.bind (buddy_remove buddy order s)
             (buddy_merge_loop k (if buddy < frame then buddy else frame) (order + 1))
      else Some (frame, order, s))"

definition buddy_free_nolock :: "nat \<Rightarrow> nat \<Rightarrow> pfa \<Rightarrow> pfa option" where
  "buddy_free_nolock frame order s =
     Option.bind (buddy_merge_loop (MAX_ORDER - order) frame order s) (\<lambda>(f, o', s).
     map_option (\<lambda>s. s\<lparr>s_free_frames := s_free_frames s + int (order_to_frames order)\<rparr>)
       (buddy_insert f o' s))"

section \<open>Per-CPU caches\<close>

fun percpu_drain_loop :: "nat \<Rightarrow> nat \<Rightarrow> pfa \<Rightarrow> pfa option" where
  "percpu_drain_loop c 0 s = Some s"
| "percpu_drain_loop c (Suc k) s =
     (case s_percpu s c of
        [] \<Rightarrow> None
      | frame # rest \<Rightarrow>
          Option.bind (buddy_free_nolock frame 0 (set_percpu c rest s)) (percpu_drain_loop c k))"

definition percpu_drain :: "nat \<Rightarrow> pfa \<Rightarrow> pfa option" where
  "percpu_drain c s =
     (let drain_count = PERCPU_BATCH;
          drain_count = (if drain_count > length (s_percpu s c) then length (s_percpu s c) else drain_count)
      in percpu_drain_loop c drain_count s)"

fun percpu_refill_loop :: "nat \<Rightarrow> nat \<Rightarrow> pfa \<Rightarrow> pfa option" where
  "percpu_refill_loop c 0 s = Some s"
| "percpu_refill_loop c (Suc k) s =
     (if s_free_order_bitmap s = 0 then Some s
      else let order = builtin_ctz (s_free_order_bitmap s)
           in case s_free_area s order of
                [] \<Rightarrow> None
              | frame # _ \<Rightarrow>
                  Option.bind (buddy_remove frame order s) (\<lambda>s.
                  Option.bind (jlos_page_frame_order_split frame order 0 s) (\<lambda>s.
                    let s = set_page frame (\<lambda>p. p\<lparr>occupied := False, ptype := TYPE_FREE,
                              porder := ORDER_INVALID, refcount := 0\<rparr>) s;
                        s = set_percpu c (frame # s_percpu s c) s
                    in percpu_refill_loop c k (s\<lparr>s_free_frames := s_free_frames s - 1\<rparr>))))"

definition percpu_refill :: "nat \<Rightarrow> pfa \<Rightarrow> pfa option" where
  "percpu_refill c s = percpu_refill_loop c (PERCPU_BATCH - length (s_percpu s c)) s"

definition frame_to_phys :: "pfa \<Rightarrow> nat \<Rightarrow> u32" where
  "frame_to_phys s frame = s_start_addr s + of_nat frame * 4096"

definition pfa_phys_to_frame :: "pfa \<Rightarrow> u32 \<Rightarrow> nat" where
  "pfa_phys_to_frame s p = unat ((p - s_start_addr s) div 4096)"

text \<open>The result of an allocation is the physical address, or \<open>None\<close> for the null pointer.\<close>

definition jlos_page_frame_malloc :: "nat \<Rightarrow> pfa \<Rightarrow> (pfa \<times> u32 option) option" where
  "jlos_page_frame_malloc cpu s =
     Option.bind (if s_percpu s cpu = [] then percpu_refill cpu s else Some s) (\<lambda>s.
       case s_percpu s cpu of
         [] \<Rightarrow> Some (s, None)
       | frame # rest \<Rightarrow>
           (let s = set_percpu cpu rest s;
                s = set_page frame (\<lambda>p. p\<lparr>occupied := True, refcount := 1\<rparr>) s
            in Some (s, Some (frame_to_phys s frame))))"

section \<open>Ranges of frames\<close>

lemma less_order_to_frames: "order < order_to_frames (order + 1)"
  unfolding order_to_frames_def by (rule less_trans [OF _ less_exp]) simp

function free_range_order :: "nat \<Rightarrow> nat \<Rightarrow> nat \<Rightarrow> nat" where
  "free_range_order base len order =
     (if order_to_frames (order + 1) \<le> len \<and> base AND (order_to_frames (order + 1) - 1) = 0
      then free_range_order base len (order + 1) else order)"
  by pat_completeness auto

termination
proof (relation "measure (\<lambda>(base, len, order). len - order)")
  fix base len order :: nat
  assume "order_to_frames (order + 1) \<le> len \<and> base AND (order_to_frames (order + 1) - 1) = 0"
  then have "order < len" using less_order_to_frames [of order] by linarith
  then show "((base, len, order + 1), base, len, order) \<in> measure (\<lambda>(base, len, order). len - order)"
    by simp
qed simp

declare free_range_order.simps [simp del]

fun clear_pages :: "nat \<Rightarrow> nat \<Rightarrow> pfa \<Rightarrow> pfa" where
  "clear_pages base 0 s = s"
| "clear_pages base (Suc k) s =
     set_page (base + k) (\<lambda>p. p\<lparr>occupied := False, porder := ORDER_INVALID, ptype := TYPE_FREE,
       pt_present_count := 0\<rparr>) (clear_pages base k s)"

function buddy_free_range :: "nat \<Rightarrow> nat \<Rightarrow> pfa \<Rightarrow> pfa option" where
  "buddy_free_range base_frame len s =
     (if len = 0 then Some s
      else let order = free_range_order base_frame len 0; block = order_to_frames order
           in Option.bind (buddy_free_nolock base_frame order (clear_pages base_frame block s))
                (buddy_free_range (base_frame + block) (len - block)))"
  by pat_completeness auto

termination
  by (relation "measure (\<lambda>(base, len, s). len)") (simp_all add: order_to_frames_def)

declare buddy_free_range.simps [simp del]

subsection \<open>Freeing\<close>

definition jlos_page_frame_refcount_dec :: "nat \<Rightarrow> u32 \<Rightarrow> pfa \<Rightarrow> pfa option" where
  "jlos_page_frame_refcount_dec cpu phys s =
     (let frame = pfa_phys_to_frame s phys
      in if s_total_frames s \<le> frame then Some s
         else let old = refcount (s_pages s frame)
              in if 0 < old then
                   (let s = set_page frame (\<lambda>p. p\<lparr>refcount := old - 1\<rparr>) s
                    in if old = 1 then
                         (let s = set_page frame (\<lambda>p. p\<lparr>occupied := False, porder := ORDER_INVALID,
                                    ptype := TYPE_FREE, pt_present_count := 0, refcount := 0\<rparr>) s;
                              s = set_percpu cpu (frame # s_percpu s cpu) s
                          in if PERCPU_HIGH < length (s_percpu s cpu) then percpu_drain cpu s else Some s)
                       else Some s)
                 else None)"

definition jlos_page_frame_refcount_inc :: "u32 \<Rightarrow> pfa \<Rightarrow> pfa option" where
  "jlos_page_frame_refcount_inc phys s =
     (let frame = pfa_phys_to_frame s phys
      in if s_total_frames s \<le> frame then Some s
         else let old = refcount (s_pages s frame)
              in if 0 < old \<and> old < REFCOUNT_MAX then Some (set_page frame (\<lambda>p. p\<lparr>refcount := old + 1\<rparr>) s)
                 else None)"

definition jlos_page_frame_refcount_get :: "u32 \<Rightarrow> pfa \<Rightarrow> u8" where
  "jlos_page_frame_refcount_get phys s =
     (let frame = pfa_phys_to_frame s phys
      in if s_total_frames s \<le> frame then 0 else of_int (refcount (s_pages s frame)))"

definition jlos_page_frame_free :: "nat \<Rightarrow> u32 \<Rightarrow> pfa \<Rightarrow> pfa option" where
  "jlos_page_frame_free cpu addr s = jlos_page_frame_refcount_dec cpu addr s"

text \<open>The first loop of \<open>free_n\<close> drops one reference per frame and collects the frames whose
  count reached zero, in the order of their addresses.\<close>

fun drop_references :: "u32 \<Rightarrow> nat \<Rightarrow> nat \<Rightarrow> nat list \<Rightarrow> pfa \<Rightarrow> (nat list \<times> pfa) option" where
  "drop_references phys_start i 0 acc s = Some (acc, s)"
| "drop_references phys_start i (Suc k) acc s =
     (let frame = pfa_phys_to_frame s (phys_start + of_nat i * 4096)
      in if s_total_frames s \<le> frame then drop_references phys_start (Suc i) k acc s
         else let old = refcount (s_pages s frame)
              in if old = 0 then None
                 else if 0 < old then
                   (let s = set_page frame (\<lambda>p. p\<lparr>refcount := old - 1\<rparr>) s
                    in if old = 1 then
                         (if length acc = FREE_N_MAX then None
                          else drop_references phys_start (Suc i) k (acc @ [frame]) s)
                       else drop_references phys_start (Suc i) k acc s)
                 else drop_references phys_start (Suc i) k acc s)"

text \<open>The insertion sort on the collected frames; the sorted prefix is kept reversed, so the
  comparisons of the inner loop run from its head.\<close>

fun shift_in :: "nat \<Rightarrow> nat list \<Rightarrow> nat list" where
  "shift_in v [] = [v]"
| "shift_in v (y # ys) = (if v < y then y # shift_in v ys else v # y # ys)"

definition sort_frames :: "nat list \<Rightarrow> nat list" where
  "sort_frames xs = rev (fold shift_in xs [])"

fun free_runs :: "nat \<Rightarrow> nat \<Rightarrow> nat list \<Rightarrow> pfa \<Rightarrow> pfa option" where
  "free_runs start len [] s = buddy_free_range start len s"
| "free_runs start len (f # fs) s =
     (if f = start + len then free_runs start (len + 1) fs s
      else Option.bind (buddy_free_range start len s) (free_runs f 1 fs))"

definition jlos_page_frame_free_n :: "u32 \<Rightarrow> nat \<Rightarrow> pfa \<Rightarrow> pfa option" where
  "jlos_page_frame_free_n phys_start num_frames s =
     (let head_frame = pfa_phys_to_frame s phys_start
      in Option.bind (drop_references phys_start 0 num_frames [] s) (\<lambda>(frames, s).
           if frames = [] then Some s
           else let head_order = porder (s_pages s head_frame)
                in if head_frame < s_total_frames s \<and> head_order \<noteq> ORDER_INVALID
                      \<and> order_to_frames head_order < num_frames then None
                   else case sort_frames frames of
                          [] \<Rightarrow> None
                        | f # fs \<Rightarrow> free_runs f 1 fs s))"

subsection \<open>Allocating\<close>

fun reserve_pages :: "nat \<Rightarrow> nat \<Rightarrow> pfa \<Rightarrow> pfa" where
  "reserve_pages frame 0 s = s"
| "reserve_pages frame (Suc k) s = jlos_page_frame_mark_reserve (frame + k) (reserve_pages frame k s)"

definition jlos_page_frame_alloc_n :: "nat \<Rightarrow> pfa \<Rightarrow> (pfa \<times> u32 option) option" where
  "jlos_page_frame_alloc_n num_frames s =
     (if num_frames = 0 \<or> s_total_frames s < num_frames then Some (s, None)
      else let target_order = frames_to_order num_frames;
               masked = s_free_order_bitmap s AND push_bit target_order (NOT 0)
           in if masked = 0 then Some (s, None)
              else let order = builtin_ctz masked
                   in case s_free_area s order of
                        [] \<Rightarrow> None
                      | frame # _ \<Rightarrow>
                          Option.bind (buddy_remove frame order s) (\<lambda>s.
                          Option.bind (if target_order < order then jlos_page_frame_order_split frame order target_order s
                                       else Some s) (\<lambda>s.
                            let extra = order_to_frames target_order - num_frames
                            in Option.bind (if extra \<noteq> 0 then buddy_free_range (frame + num_frames) extra s else Some s) (\<lambda>s.
                                 let s = reserve_pages frame num_frames s;
                                     s = set_page frame (\<lambda>p. p\<lparr>porder := target_order\<rparr>) s;
                                     s = s\<lparr>s_free_frames := s_free_frames s - int num_frames\<rparr>
                                 in Some (s, Some (frame_to_phys s frame))))))"

definition jlos_page_frame_alloc_order :: "nat \<Rightarrow> pfa \<Rightarrow> (pfa \<times> u32 option) option" where
  "jlos_page_frame_alloc_order order s =
     (if MAX_ORDER < order then Some (s, None) else jlos_page_frame_alloc_n (order_to_frames order) s)"

definition jlos_page_frame_free_order :: "u32 \<Rightarrow> nat \<Rightarrow> pfa \<Rightarrow> pfa option" where
  "jlos_page_frame_free_order addr order s =
     (if MAX_ORDER < order then Some s else jlos_page_frame_free_n addr (order_to_frames order) s)"

subsection \<open>Reserving at boot\<close>

fun mark_occupied_loop :: "nat \<Rightarrow> nat \<Rightarrow> pfa \<Rightarrow> pfa option" where
  "mark_occupied_loop i 0 s = Some s"
| "mark_occupied_loop i (Suc k) s =
     (let pg = s_pages s i
      in if occupied pg then mark_occupied_loop (Suc i) k s
         else Option.bind
                (if porder pg \<noteq> ORDER_INVALID
                 then map_option (\<lambda>s. s\<lparr>s_free_frames := s_free_frames s - int (order_to_frames (porder pg))\<rparr>)
                        (buddy_remove i (porder pg) s)
                 else Some s)
                (\<lambda>s. mark_occupied_loop (Suc i) k (jlos_page_frame_mark_reserve i s)))"

definition jlos_page_frame_mark_occupied :: "u32 \<Rightarrow> u32 \<Rightarrow> pfa \<Rightarrow> pfa option" where
  "jlos_page_frame_mark_occupied phys_start phys_end s =
     (if phys_end \<le> phys_start then Some s
      else let start_frame = pfa_phys_to_frame s phys_start;
               end_frame = unat (JLOS_EXCEPT_CEIL (phys_end - s_start_addr s) 4096)
           in if s_total_frames s \<le> start_frame then Some s
              else let end_frame = (if s_total_frames s < end_frame then s_total_frames s else end_frame)
                   in mark_occupied_loop start_frame (end_frame - start_frame) s)"

text \<open>Boot memory map entries: address, size, usable flag.\<close>

record boot_mem =
  bm_addr :: u64
  bm_size :: u64
  bm_usable :: bool

definition mark_boot_mem :: "u32 \<Rightarrow> u32 \<Rightarrow> boot_mem \<Rightarrow> pfa \<Rightarrow> pfa option" where
  "mark_boot_mem phys_start phys_end m s =
     (if bm_usable m then Some s
      else let start = bm_addr m; fin = start + bm_size m
           in if fin \<le> ucast phys_start \<or> ucast phys_end \<le> start then Some s
              else let s32 = (if start < ucast phys_start then phys_start else ucast start);
                       e32 = (if ucast phys_end < fin then phys_end else ucast fin)
                   in if s32 < e32 then jlos_page_frame_mark_occupied s32 e32 s else Some s)"

fun mark_boot_mems :: "u32 \<Rightarrow> u32 \<Rightarrow> boot_mem list \<Rightarrow> pfa \<Rightarrow> pfa option" where
  "mark_boot_mems ps pe [] s = Some s"
| "mark_boot_mems ps pe (m # ms) s = Option.bind (mark_boot_mem ps pe m s) (mark_boot_mems ps pe ms)"

definition blank_page :: "jlos_page \<Rightarrow> jlos_page" where
  "blank_page p = p\<lparr>occupied := False, ptype := TYPE_FREE, porder := ORDER_INVALID, refcount := 0\<rparr>"

fun for_frames :: "(nat \<Rightarrow> pfa \<Rightarrow> pfa) \<Rightarrow> nat \<Rightarrow> nat \<Rightarrow> pfa \<Rightarrow> pfa" where
  "for_frames op i 0 s = s"
| "for_frames op i (Suc k) s = for_frames op (Suc i) k (op i s)"

fun insert_free_frames :: "nat \<Rightarrow> nat \<Rightarrow> pfa \<Rightarrow> pfa option" where
  "insert_free_frames i 0 s = Some s"
| "insert_free_frames i (Suc k) s =
     Option.bind (if \<not> occupied (s_pages s i) \<and> porder (s_pages s i) = ORDER_INVALID
                  then buddy_insert i 0 s else Some s) (insert_free_frames (Suc i) k)"

text \<open>One pass of the upward merge: \<open>k\<close> pairs of blocks of this order are left.\<close>

fun merge_pass :: "nat \<Rightarrow> nat \<Rightarrow> nat \<Rightarrow> pfa \<Rightarrow> pfa option" where
  "merge_pass order frame 0 s = Some s"
| "merge_pass order frame (Suc k) s =
     (let block = order_to_frames order; next_frame = frame + block * 2
      in if porder (s_pages s frame) \<noteq> order \<or> \<not> buddy_mergeable s frame order
         then merge_pass order next_frame k s
         else let buddy = frame XOR block
              in Option.bind (buddy_remove buddy order s) (\<lambda>s.
                 Option.bind (buddy_remove frame order s) (\<lambda>s.
                 Option.bind (buddy_insert (if buddy < frame then buddy else frame) (order + 1) s)
                   (merge_pass order next_frame k))))"

fun merge_passes :: "nat list \<Rightarrow> pfa \<Rightarrow> pfa option" where
  "merge_passes [] s = Some s"
| "merge_passes (order # os) s =
     Option.bind (merge_pass order 0 (s_total_frames s div (order_to_frames order * 2)) s) (merge_passes os)"

definition count_free :: "pfa \<Rightarrow> int" where
  "count_free s = (\<Sum>o'\<leftarrow>[0..<Suc MAX_ORDER]. int (length (s_free_area s o') * order_to_frames o'))"

text \<open>The root of the boot page tables is released through its reference count.\<close>

definition jlos_arch_paging_free_boot_tables :: "nat \<Rightarrow> u64 \<Rightarrow> pfa \<Rightarrow> pfa option" where
  "jlos_arch_paging_free_boot_tables cpu boot_pml4 s = jlos_page_frame_refcount_dec cpu (ucast boot_pml4) s"

text \<open>
  The initialisation on CPU \<open>cpu\<close>, from the physical range, the end of the kernel image, the
  end of the boot image, the address of the boot page tables, the boot heap pointer and the
  boot memory map. \<open>sizeof_page\<close> is the size of a page record. The local copy of the start
  of the range has 64 bits, so the differences are taken in 64 bits and cut to 32.
\<close>

definition jlos_page_frame_allocator_init ::
  "nat \<Rightarrow> u32 \<Rightarrow> u32 \<Rightarrow> u64 \<Rightarrow> u64 \<Rightarrow> u64 \<Rightarrow> u32 \<Rightarrow> u32 \<Rightarrow> boot_mem list \<Rightarrow> pfa \<Rightarrow> (u32 \<times> pfa) option" where
  "jlos_page_frame_allocator_init cpu memory_start phys_end kernel_end boot_end boot_pml4 sizeof_page heap_ptr mems s =
     (let phys_start = (ucast memory_start :: u64);
          total = unat (ucast ((ucast phys_end - phys_start) div 4096) :: u32);
          heap = snd (jlos_pfa_boot_alloc heap_ptr (of_nat total * sizeof_page));
          s = s\<lparr>s_start_addr := ucast phys_start, s_total_frames := total,
                s_free_area := (\<lambda>_. []), s_percpu := (\<lambda>_. []),
                s_pages := (\<lambda>f. if f < total then blank_page (s_pages s f) else s_pages s f)\<rparr>;
          kernel_frames = unat (ucast ((kernel_end - phys_start) div 4096) :: u32);
          s = for_frames jlos_page_frame_mark_reserve 0 (min kernel_frames total) s;
          boot_frames = unat (ucast ((boot_end - phys_start) div 4096) :: u32);
          s = for_frames jlos_page_frame_mark_recycle kernel_frames (min boot_frames total - kernel_frames) s;
          boot_alloc_end = unat (ucast (JLOS_EXCEPT_CEIL (ucast heap - phys_start) 4096) :: u32);
          s = for_frames jlos_page_frame_mark_reserve kernel_frames (min boot_alloc_end total - kernel_frames) s
      in Option.bind (if 0 < phys_start then jlos_page_frame_mark_occupied 0 (ucast phys_start) s else Some s) (\<lambda>s.
         Option.bind (mark_boot_mems (ucast phys_start) phys_end mems s) (\<lambda>s.
         Option.bind (insert_free_frames 0 total s) (\<lambda>s.
         Option.bind (merge_passes [0..<MAX_ORDER] s) (\<lambda>s.
         Option.bind (jlos_arch_paging_free_boot_tables cpu boot_pml4 (s\<lparr>s_free_frames := count_free s\<rparr>)) (\<lambda>s.
           Some (heap, s)))))))"

section \<open>Accessors\<close>

definition jlos_page_frame_get_type :: "u32 \<Rightarrow> pfa \<Rightarrow> jlos_page_frame_type" where
  "jlos_page_frame_get_type phys s =
     (if phys < s_start_addr s then TYPE_FREE
      else let f = pfa_phys_to_frame s phys in if f < s_total_frames s then ptype (s_pages s f) else TYPE_FREE)"

definition jlos_page_frame_get_owner :: "u32 \<Rightarrow> pfa \<Rightarrow> u64" where
  "jlos_page_frame_get_owner phys s =
     (if phys < s_start_addr s then 0
      else let f = pfa_phys_to_frame s phys in if f < s_total_frames s then owner (s_pages s f) else 0)"

definition jlos_page_frame_set_owner_type :: "u32 \<Rightarrow> u64 \<Rightarrow> jlos_page_frame_type \<Rightarrow> pfa \<Rightarrow> pfa option" where
  "jlos_page_frame_set_owner_type phys ow ty s =
     (if phys < s_start_addr s then Some s
      else let f = pfa_phys_to_frame s phys
           in if s_total_frames s \<le> f then Some s
              else if \<not> occupied (s_pages s f) then None
              else Some (set_page f (\<lambda>p. p\<lparr>ptype := ty, owner := ow\<rparr>) s))"

definition jlos_page_frame_clear_owner_type :: "u32 \<Rightarrow> pfa \<Rightarrow> pfa option" where
  "jlos_page_frame_clear_owner_type phys s = jlos_page_frame_set_owner_type phys 0 TYPE_FREE s"

definition jlos_page_frame_to_page :: "u32 \<Rightarrow> pfa \<Rightarrow> nat option" where
  "jlos_page_frame_to_page phys s =
     (if phys < s_start_addr s then None
      else let f = pfa_phys_to_frame s phys in if s_total_frames s \<le> f then None else Some f)"

definition jlos_page_frame_page_addr :: "nat \<Rightarrow> pfa \<Rightarrow> u32 option" where
  "jlos_page_frame_page_addr page s =
     (if s_total_frames s \<le> page then None else Some (frame_to_phys s page))"

definition jlos_page_frame_get_free :: "nat \<Rightarrow> pfa \<Rightarrow> u32" where
  "jlos_page_frame_get_free num_cpus s =
     fold (\<lambda>c n. n + of_nat (length (s_percpu s c))) [0..<num_cpus] (of_int (s_free_frames s))"

definition jlos_page_frame_contains_phys :: "u32 \<Rightarrow> pfa \<Rightarrow> bool" where
  "jlos_page_frame_contains_phys phys s \<longleftrightarrow>
     s_start_addr s \<le> phys \<and> unat ((phys - s_start_addr s) div 4096) < s_total_frames s"

definition jlos_page_frame_pt_present_count_set :: "u32 \<Rightarrow> u8 \<Rightarrow> pfa \<Rightarrow> pfa" where
  "jlos_page_frame_pt_present_count_set phys cnt s =
     (let f = pfa_phys_to_frame s phys
      in if s_total_frames s \<le> f then s else set_page f (\<lambda>p. p\<lparr>pt_present_count := cnt\<rparr>) s)"

definition jlos_page_frame_pt_present_count_get :: "u32 \<Rightarrow> pfa \<Rightarrow> u32" where
  "jlos_page_frame_pt_present_count_get phys s =
     (let f = pfa_phys_to_frame s phys
      in if s_total_frames s \<le> f then 0 else ucast (pt_present_count (s_pages s f)))"

definition jlos_page_frame_pt_present_count_inc :: "u32 \<Rightarrow> pfa \<Rightarrow> pfa" where
  "jlos_page_frame_pt_present_count_inc phys s =
     (let f = pfa_phys_to_frame s phys
      in if s_total_frames s \<le> f then s else set_page f (\<lambda>p. p\<lparr>pt_present_count := pt_present_count p + 1\<rparr>) s)"

definition jlos_page_frame_pt_present_count_dec :: "u32 \<Rightarrow> pfa \<Rightarrow> pfa" where
  "jlos_page_frame_pt_present_count_dec phys s =
     (let f = pfa_phys_to_frame s phys
      in if f < s_total_frames s \<and> 0 < pt_present_count (s_pages s f)
         then set_page f (\<lambda>p. p\<lparr>pt_present_count := pt_present_count p - 1\<rparr>) s else s)"

end
