(* ===== verification/Buddy.thy ===== *)
theory Buddy
  imports Page_Frame
begin

text \<open>
  The invariant of the page frame allocator and its preservation by every operation.
  The invariant carries a set of frames in transit, which an operation has taken out of
  one category and not yet put into another; between operations the set is empty and
  every frame is in exactly one category: occupied, in a free block, or cached on a CPU.
\<close>

section \<open>Buddies\<close>

lemma or_power: "even (f div 2 ^ k) \<Longrightarrow> f OR 2 ^ k = f + 2 ^ k" for f :: nat
proof -
  assume "even (f div 2 ^ k)"
  then have "\<not> bit f k" by (simp add: bit_iff_odd)
  then show ?thesis using set_bit_eq_or [of k f] by (simp add: set_bit_eq)
qed

lemma xor_power_even: "even (f div 2 ^ k) \<Longrightarrow> f XOR 2 ^ k = f + 2 ^ k" for f :: nat
proof -
  assume even: "even (f div 2 ^ k)"
  then have "\<not> bit f k" by (simp add: bit_iff_odd)
  then have "f XOR 2 ^ k = f OR 2 ^ k"
    by (intro bit_eqI) (auto simp: bit_xor_iff bit_or_iff bit_exp_iff)
  then show ?thesis using or_power [OF even] by simp
qed

lemma xor_power:
  "f XOR 2 ^ k = (if even (f div 2 ^ k) then f + 2 ^ k else f - 2 ^ k)" for f :: nat
proof (cases "even (f div 2 ^ k)")
  case False
  then have "f div 2 ^ k \<noteq> 0" by (metis even_zero)
  then have le: "2 ^ k \<le> f" by (simp add: div_eq_0_iff)
  then have "(f - 2 ^ k) div 2 ^ k = f div 2 ^ k - 1" by (simp add: le_div_geq)
  then have "even ((f - 2 ^ k) div 2 ^ k)" using False by simp
  then have "(f - 2 ^ k) XOR 2 ^ k = f" using le by (simp add: xor_power_even)
  then have "f XOR 2 ^ k = ((f - 2 ^ k) XOR 2 ^ k) XOR 2 ^ k" by simp
  then show ?thesis using False by (simp add: xor.assoc)
qed (simp add: xor_power_even)

lemma and_mask_dvd: "f AND (2 ^ k - 1) = 0 \<longleftrightarrow> 2 ^ k dvd f" for f :: nat
proof -
  have "2 ^ k - 1 = (mask k :: nat)" by (simp only: mask_eq_exp_minus_1)
  then have "f AND (2 ^ k - 1) = f mod 2 ^ k"
    by (simp only: take_bit_eq_mask [symmetric] take_bit_eq_mod)
  then show ?thesis by (simp add: mod_eq_0_iff_dvd)
qed

definition block :: "nat \<Rightarrow> nat \<Rightarrow> nat set" where
  "block f k = {f..<f + 2 ^ k}"

lemma block_self [simp]: "f \<in> block f k"
  by (simp add: block_def)

lemma block_0 [simp]: "block f 0 = {f}"
  by (auto simp: block_def)

lemma finite_block [simp]: "finite (block f k)"
  by (simp add: block_def)

lemma block_halves: "block f (Suc k) = block f k \<union> block (f + 2 ^ k) k" "block f k \<inter> block (f + 2 ^ k) k = {}"
  by (auto simp: block_def)

lemma block_mono: "i \<le> j \<Longrightarrow> block f i \<subseteq> block f j"
proof -
  assume "i \<le> j"
  then have "(2 :: nat) ^ i \<le> 2 ^ j" by simp
  then show ?thesis by (auto simp: block_def)
qed

text \<open>Two aligned buddies make an aligned block of the next order.\<close>

lemma buddy_cases:
  assumes "2 ^ k dvd (f :: nat)" and "b = f XOR 2 ^ k"
  obtains (low) q where "f = 2 ^ Suc k * q" "b = f + 2 ^ k"
    | (high) q where "b = 2 ^ Suc k * q" "f = b + 2 ^ k"
proof -
  obtain q where q: "f = 2 ^ k * q" using assms(1) by (elim dvdE)
  have div: "f div 2 ^ k = q" by (simp add: q)
  show thesis
  proof (cases "even q")
    case True
    then obtain r where "q = 2 * r" by (elim evenE)
    moreover have "b = f + 2 ^ k" using True by (simp add: assms(2) xor_power div)
    ultimately show thesis using low [of r] q by simp
  next
    case False
    then obtain r where r: "q = 2 * r + 1" by (elim oddE)
    then have "f = 2 ^ Suc k * r + 2 ^ k" using q by (simp add: algebra_simps)
    moreover have "b = f - 2 ^ k" using False by (simp add: assms(2) xor_power div)
    ultimately show thesis using high [of r] by simp
  qed
qed

lemma buddy_merge:
  assumes "2 ^ k dvd f" and "b = f XOR 2 ^ k"
  shows "2 ^ k dvd b" and "2 ^ Suc k dvd min b f" and "block (min b f) (Suc k) = block f k \<union> block b k"
    and "block f k \<inter> block b k = {}" and "b \<noteq> f"
proof -
  note cases = buddy_cases [OF assms, case_names low high]
  show "2 ^ k dvd b" by (rule cases) simp_all
  show "2 ^ Suc k dvd min b f" by (rule cases) (simp_all add: min_def del: power_Suc)
  show "block (min b f) (Suc k) = block f k \<union> block b k"
  proof (cases rule: cases)
    case (low q)
    then have "min b f = f" by simp
    then show ?thesis using low by (simp only: block_halves(1))
  next
    case (high q)
    then have "min b f = b" by simp
    then show ?thesis using high by (simp only: block_halves(1) Un_commute)
  qed
  show "block f k \<inter> block b k = {}"
  proof (cases rule: cases)
    case (low q)
    then show ?thesis by (simp only: block_halves(2))
  next
    case (high q)
    then show ?thesis by (simp only: block_halves(2) Int_commute)
  qed
  show "b \<noteq> f" by (rule cases) simp_all
qed

section \<open>The invariant\<close>

text \<open>
  A free block is a pair of a head frame and an order. Every frame is in exactly one of
  four places: in a free block, in a per-CPU cache, in use, or in transit inside an
  operation (the set \<open>L\<close>).
\<close>

definition free_blocks :: "pfa \<Rightarrow> (nat \<times> nat) set" where
  "free_blocks s = {(f, k). k \<le> MAX_ORDER \<and> f \<in> set (s_free_area s k)}"

definition covered :: "pfa \<Rightarrow> nat set" where
  "covered s = (\<Union>(f, k)\<in>free_blocks s. block f k)"

definition cached :: "pfa \<Rightarrow> nat set" where
  "cached s = (\<Union>c. set (s_percpu s c))"

definition clean_page :: "jlos_page \<Rightarrow> bool" where
  "clean_page p \<longleftrightarrow> \<not> occupied p \<and> refcount p = 0 \<and> porder p = ORDER_INVALID"

definition clean :: "pfa \<Rightarrow> nat set \<Rightarrow> bool" where
  "clean s F \<longleftrightarrow> (\<forall>f\<in>F. clean_page (s_pages s f))"

definition area_inv :: "pfa \<Rightarrow> bool" where
  "area_inv s \<longleftrightarrow>
     (\<forall>k. bit (s_free_order_bitmap s) k \<longleftrightarrow> k \<le> MAX_ORDER \<and> s_free_area s k \<noteq> [])
     \<and> (\<forall>k \<le> MAX_ORDER. distinct (s_free_area s k))"

definition block_ok :: "pfa \<Rightarrow> nat \<Rightarrow> nat \<Rightarrow> bool" where
  "block_ok s f k \<longleftrightarrow> 2 ^ k dvd f \<and> f + 2 ^ k \<le> s_total_frames s \<and> porder (s_pages s f) = k
     \<and> \<not> occupied (s_pages s f) \<and> refcount (s_pages s f) = 0 \<and> clean s (block f k - {f})"

definition block_inv :: "pfa \<Rightarrow> bool" where
  "block_inv s \<longleftrightarrow> (\<forall>(f, k)\<in>free_blocks s. block_ok s f k)
     \<and> (\<forall>(f, k)\<in>free_blocks s. \<forall>(g, j)\<in>free_blocks s. (f, k) \<noteq> (g, j) \<longrightarrow> block f k \<inter> block g j = {})"

definition cache_inv :: "pfa \<Rightarrow> bool" where
  "cache_inv s \<longleftrightarrow> (\<forall>c. distinct (s_percpu s c))
     \<and> (\<forall>c d. c \<noteq> d \<longrightarrow> set (s_percpu s c) \<inter> set (s_percpu s d) = {})
     \<and> cached s \<inter> covered s = {} \<and> clean s (cached s)"

definition limbo_inv :: "pfa \<Rightarrow> nat set \<Rightarrow> bool" where
  "limbo_inv s L \<longleftrightarrow> L \<inter> covered s = {} \<and> L \<inter> cached s = {}
     \<and> (\<forall>f\<in>L. porder (s_pages s f) = ORDER_INVALID \<or> occupied (s_pages s f))"

definition in_use :: "jlos_page \<Rightarrow> bool" where
  "in_use p \<longleftrightarrow> occupied p \<and> 0 < refcount p \<and> refcount p \<le> REFCOUNT_MAX"

definition frame_inv :: "pfa \<Rightarrow> nat set \<Rightarrow> bool" where
  "frame_inv s L \<longleftrightarrow> cached s \<union> L \<subseteq> {..< s_total_frames s}
     \<and> (\<forall>f < s_total_frames s. f \<in> covered s \<union> cached s \<union> L \<or> in_use (s_pages s f))"

definition buddy_inv :: "pfa \<Rightarrow> nat set \<Rightarrow> bool" where
  "buddy_inv s L \<longleftrightarrow> area_inv s \<and> block_inv s \<and> cache_inv s \<and> limbo_inv s L \<and> frame_inv s L"

text \<open>What an operation on the lists leaves alone outside a set of frames.\<close>

definition same_upto :: "nat set \<Rightarrow> pfa \<Rightarrow> pfa \<Rightarrow> bool" where
  "same_upto F s t \<longleftrightarrow> s_total_frames t = s_total_frames s \<and> s_start_addr t = s_start_addr s
     \<and> s_percpu t = s_percpu s \<and> (\<forall>f. f \<notin> F \<longrightarrow> s_pages t f = s_pages s f)
     \<and> (\<forall>f. occupied (s_pages t f) = occupied (s_pages s f) \<and> refcount (s_pages t f) = refcount (s_pages s f))"

lemma upto_refl [simp]: "same_upto F s s"
  by (simp add: same_upto_def)

lemma upto_trans: "\<lbrakk>same_upto F s t; same_upto G t u; F \<subseteq> H; G \<subseteq> H\<rbrakk> \<Longrightarrow> same_upto H s u"
  unfolding same_upto_def by (metis subsetD)

lemma upto_clean: "\<lbrakk>same_upto F s t; clean s G; F \<inter> G = {}\<rbrakk> \<Longrightarrow> clean t G"
  unfolding same_upto_def clean_def by (metis IntI empty_iff)

lemma upto_cached: "same_upto F s t \<Longrightarrow> cached t = cached s"
  by (simp add: same_upto_def cached_def)

lemma covered_block: "(f, k) \<in> free_blocks s \<Longrightarrow> block f k \<subseteq> covered s"
  by (auto simp: covered_def)

lemma block_inv_ok: "block_inv s \<Longrightarrow> (f, k) \<in> free_blocks s \<Longrightarrow> block_ok s f k"
  by (auto simp: block_inv_def)

lemma block_inv_disjoint:
  "\<lbrakk>block_inv s; (f, k) \<in> free_blocks s; (g, j) \<in> free_blocks s; (f, k) \<noteq> (g, j)\<rbrakk>
   \<Longrightarrow> block f k \<inter> block g j = {}"
  unfolding block_inv_def by fast

lemma block_invI:
  assumes "\<And>f k. (f, k) \<in> free_blocks s \<Longrightarrow> block_ok s f k"
    and "\<And>f k g j. \<lbrakk>(f, k) \<in> free_blocks s; (g, j) \<in> free_blocks s; (f, k) \<noteq> (g, j)\<rbrakk>
           \<Longrightarrow> block f k \<inter> block g j = {}"
  shows "block_inv s"
  unfolding block_inv_def
proof (intro conjI ballI)
  fix x assume "x \<in> free_blocks s"
  then show "case x of (f, k) \<Rightarrow> block_ok s f k" using assms(1) by (cases x) simp
next
  fix x assume x: "x \<in> free_blocks s"
  show "case x of (f, k) \<Rightarrow> \<forall>(g, j)\<in>free_blocks s. (f, k) \<noteq> (g, j) \<longrightarrow> block f k \<inter> block g j = {}"
    using assms(2) x by (cases x) force
qed

text \<open>The frame counter plays no part in the invariant.\<close>

lemma free_blocks_counter [simp]: "free_blocks (s\<lparr>s_free_frames := n\<rparr>) = free_blocks s"
  by (simp add: free_blocks_def)

lemma covered_counter [simp]: "covered (s\<lparr>s_free_frames := n\<rparr>) = covered s"
  by (simp add: covered_def)

lemma cached_counter [simp]: "cached (s\<lparr>s_free_frames := n\<rparr>) = cached s"
  by (simp add: cached_def)

lemma clean_counter [simp]: "clean (s\<lparr>s_free_frames := n\<rparr>) F = clean s F"
  by (simp add: clean_def)

lemma buddy_inv_counter [simp]: "buddy_inv (s\<lparr>s_free_frames := n\<rparr>) L = buddy_inv s L"
  by (simp add: buddy_inv_def area_inv_def block_inv_def block_ok_def cache_inv_def limbo_inv_def frame_inv_def)

lemma bitmap_nth:
  "bit (b OR 2 ^ k) i \<longleftrightarrow> bit b i \<or> (i = k \<and> k < 32)"
  "bit (b AND NOT (2 ^ k)) i \<longleftrightarrow> bit b i \<and> i \<noteq> k" for b :: u32
  by (auto simp: bit_or_iff bit_and_iff bit_not_iff bit_exp_iff dest: bit_imp_le_length)

section \<open>List operations\<close>

lemma buddy_remove_free_blocks:
  assumes "buddy_remove f k s = Some t" and "area_inv s" and "k \<le> MAX_ORDER"
  shows "free_blocks t = free_blocks s - {(f, k)}" and "area_inv t" and "same_upto {f} s t"
    and "s_free_frames t = s_free_frames s" and "porder (s_pages t f) = ORDER_INVALID"
proof -
  have t: "s_free_area t = (s_free_area s)(k := remove1 f (s_free_area s k))"
    "s_free_order_bitmap t = (if remove1 f (s_free_area s k) = []
       then s_free_order_bitmap s AND NOT (push_bit k 1) else s_free_order_bitmap s)"
    "s_pages t = (s_pages s)(f := (s_pages s f)\<lparr>porder := ORDER_INVALID\<rparr>)"
    "s_total_frames t = s_total_frames s" "s_start_addr t = s_start_addr s"
    "s_percpu t = s_percpu s" "s_free_frames t = s_free_frames s"
    using assms(1) by (auto simp: buddy_remove_def Let_def set_area_def set_page_def split: if_splits)
  have dist: "distinct (s_free_area s i)" if "i \<le> MAX_ORDER" for i
    using assms(2) that by (simp add: area_inv_def)
  show "free_blocks t = free_blocks s - {(f, k)}"
    using dist [OF assms(3)] by (auto simp: free_blocks_def t(1) split: if_splits)
  show "area_inv t"
    using assms(2,3) unfolding area_inv_def t
    by (auto simp: bitmap_nth)
  show "same_upto {f} s t" "s_free_frames t = s_free_frames s" "porder (s_pages t f) = ORDER_INVALID"
    by (simp_all add: same_upto_def t)
qed

lemma buddy_insert_free_blocks:
  assumes "buddy_insert f k s = Some t" and "area_inv s" and "k \<le> MAX_ORDER" and "(f, k) \<notin> free_blocks s"
  shows "free_blocks t = insert (f, k) (free_blocks s)" and "area_inv t" and "same_upto {f} s t"
    and "s_free_frames t = s_free_frames s" and "porder (s_pages t f) = k"
proof -
  have t: "s_free_area t = (s_free_area s)(k := f # s_free_area s k)"
    "s_free_order_bitmap t = (if s_free_area s k = []
       then s_free_order_bitmap s OR push_bit k 1 else s_free_order_bitmap s)"
    "s_pages t = (s_pages s)(f := (s_pages s f)\<lparr>porder := k\<rparr>)"
    "s_total_frames t = s_total_frames s" "s_start_addr t = s_start_addr s"
    "s_percpu t = s_percpu s" "s_free_frames t = s_free_frames s"
    using assms(1) by (auto simp: buddy_insert_def Let_def set_area_def set_page_def split: if_splits)
  show "free_blocks t = insert (f, k) (free_blocks s)"
    using assms(3) by (auto simp: free_blocks_def t(1) split: if_splits)
  show "area_inv t"
    using assms(2,3,4) unfolding area_inv_def t
    by (auto simp: bitmap_nth free_blocks_def)
  show "same_upto {f} s t" "s_free_frames t = s_free_frames s" "porder (s_pages t f) = k"
    by (simp_all add: same_upto_def t)
qed

lemma block_ok_upto:
  assumes "block_ok s g j" and "same_upto F s t" and "F \<inter> block g j = {}"
  shows "block_ok t g j"
proof -
  have "s_pages t i = s_pages s i" if "i \<in> block g j" for i
    using assms(2,3) that by (auto simp: same_upto_def)
  then show ?thesis using assms(1,2) by (simp add: block_ok_def clean_def same_upto_def)
qed

lemma block_ok_clean: "block_ok s f k \<Longrightarrow> same_upto {f} s t \<Longrightarrow> porder (s_pages t f) = ORDER_INVALID \<Longrightarrow> clean t (block f k)"
  unfolding clean_def
proof
  fix i
  assume ok: "block_ok s f k" "same_upto {f} s t" "porder (s_pages t f) = ORDER_INVALID" and "i \<in> block f k"
  show "clean_page (s_pages t i)"
  proof (cases "i = f")
    case True
    then show ?thesis using ok by (simp add: clean_page_def same_upto_def block_ok_def)
  next
    case False
    then show ?thesis using ok \<open>i \<in> block f k\<close> by (simp add: block_ok_def clean_def same_upto_def)
  qed
qed

lemma clean_block_ok:
  assumes "clean s (block f k)" and "same_upto {f} s t" and "porder (s_pages t f) = k"
    and "2 ^ k dvd f" and "f + 2 ^ k \<le> s_total_frames s"
  shows "block_ok t f k"
proof -
  have "clean_page (s_pages s f)" using assms(1) by (simp add: clean_def)
  moreover have "clean t (block f k - {f})" using assms(1,2) by (simp add: clean_def same_upto_def)
  ultimately show ?thesis using assms(2-5) by (simp add: block_ok_def same_upto_def clean_page_def)
qed

lemma upto_cache_inv:
  assumes "cache_inv s" and "same_upto F s t" and "F \<inter> cached s = {}" and "cached s \<inter> covered t = {}"
  shows "cache_inv t"
  using assms upto_cached [OF assms(2)] upto_clean [OF assms(2)] by (auto simp: cache_inv_def same_upto_def)

lemma limbo_upto:
  "same_upto F s t \<Longrightarrow> f \<notin> F \<Longrightarrow> porder (s_pages s f) = ORDER_INVALID \<or> occupied (s_pages s f)
   \<Longrightarrow> porder (s_pages t f) = ORDER_INVALID \<or> occupied (s_pages t f)"
  by (simp add: same_upto_def)

lemma clean_limbo: "clean s F \<Longrightarrow> f \<in> F \<Longrightarrow> porder (s_pages s f) = ORDER_INVALID"
  by (simp add: clean_def clean_page_def)

lemma upto_in_use: "same_upto F s t \<Longrightarrow> in_use (s_pages t f) = in_use (s_pages s f)"
  by (simp add: same_upto_def in_use_def)

lemma buddy_remove_inv:
  assumes inv: "buddy_inv s L" and fb: "(f, k) \<in> free_blocks s"
  obtains t where "buddy_remove f k s = Some t" and "buddy_inv t (L \<union> block f k)"
    and "covered t = covered s - block f k" and "clean t (block f k)" and "same_upto {f} s t"
    and "s_free_frames t = s_free_frames s" and "free_blocks t = free_blocks s - {(f, k)}"
proof -
  have ok: "block_ok s f k" and k: "k \<le> MAX_ORDER" and mem: "f \<in> set (s_free_area s k)"
    and ai: "area_inv s" and bi: "block_inv s"
    using inv fb by (auto simp: buddy_inv_def block_inv_def free_blocks_def)
  have "\<not> node_unlinked s f" unfolding node_unlinked_def list_all_iff using k mem by (auto simp: less_Suc_eq_le)
  moreover have "f < f + 2 ^ k" by simp
  then have "f < s_total_frames s" using ok unfolding block_ok_def by linarith
  ultimately obtain t where t: "buddy_remove f k s = Some t"
    using ok k by (auto simp: buddy_remove_def Let_def block_ok_def order_to_frames_def)
  note rem = buddy_remove_free_blocks [OF t ai k]
  have disj: "block f k \<inter> block g j = {}" if "(g, j) \<in> free_blocks t" for g j
    using that block_inv_disjoint [OF bi fb, of g j] by (auto simp: rem(1))
  have cov: "covered t = covered s - block f k"
  proof
    show "covered t \<subseteq> covered s - block f k"
      using disj by (fastforce simp: covered_def rem(1))
    show "covered s - block f k \<subseteq> covered t" by (auto simp: covered_def rem(1))
  qed
  have cl: "clean t (block f k)" by (rule block_ok_clean [OF ok rem(3,5)])
  have fc: "f \<in> covered s" "block f k \<subseteq> covered s" using covered_block [OF fb] by auto
  have "block_inv t"
  proof (rule block_invI)
    fix g j assume gj: "(g, j) \<in> free_blocks t"
    then have "block_ok s g j" using block_inv_ok [OF bi] by (simp add: rem(1))
    moreover have "{f} \<inter> block g j = {}" using disj [OF gj] block_self [of f k] by blast
    ultimately show "block_ok t g j" by (rule block_ok_upto [OF _ rem(3)])
  next
    fix g j g' j' assume "(g, j) \<in> free_blocks t" "(g', j') \<in> free_blocks t" "(g, j) \<noteq> (g', j')"
    then show "block g j \<inter> block g' j' = {}" unfolding rem(1) by (intro block_inv_disjoint [OF bi]) simp_all
  qed
  moreover have "cache_inv t"
    using inv fc by (intro upto_cache_inv [OF _ rem(3)]) (auto simp: buddy_inv_def cache_inv_def cov)
  moreover have "limbo_inv t (L \<union> block f k)"
    unfolding limbo_inv_def upto_cached [OF rem(3)] cov
  proof (intro conjI ballI)
    fix i assume "i \<in> L \<union> block f k"
    then show "porder (s_pages t i) = ORDER_INVALID \<or> occupied (s_pages t i)"
    proof
      assume "i \<in> L"
      then have "i \<notin> {f}" "porder (s_pages s i) = ORDER_INVALID \<or> occupied (s_pages s i)"
        using inv fc by (auto simp: buddy_inv_def limbo_inv_def)
      then show ?thesis by (rule limbo_upto [OF rem(3)])
    qed (use clean_limbo [OF cl] in simp)
  qed (use inv fc in \<open>auto simp: buddy_inv_def limbo_inv_def cache_inv_def\<close>)
  moreover have "frame_inv t (L \<union> block f k)"
  proof -
    have tot: "s_total_frames t = s_total_frames s" using rem(3) by (simp add: same_upto_def)
    have "block f k \<subseteq> {..< s_total_frames s}" using ok by (auto simp: block_ok_def block_def)
    then show ?thesis using inv
      unfolding frame_inv_def buddy_inv_def upto_cached [OF rem(3)] cov tot upto_in_use [OF rem(3)] by auto
  qed
  ultimately have "buddy_inv t (L \<union> block f k)" using rem(2) by (simp add: buddy_inv_def)
  then show thesis using that [OF t _ cov cl rem(3,4,1)] by simp
qed

lemma buddy_insert_inv:
  assumes inv: "buddy_inv s L" and sub: "block f k \<subseteq> L" and cl: "clean s (block f k)"
    and al: "2 ^ k dvd f" and k: "k \<le> MAX_ORDER"
  obtains t where "buddy_insert f k s = Some t" and "buddy_inv t (L - block f k)"
    and "covered t = covered s \<union> block f k" and "same_upto {f} s t"
    and "s_free_frames t = s_free_frames s" and "free_blocks t = insert (f, k) (free_blocks s)"
proof -
  have ai: "area_inv s" and bi: "block_inv s" using inv by (simp_all add: buddy_inv_def)
  have "0 < (2 :: nat) ^ k" by simp
  then have "f + 2 ^ k - 1 \<in> block f k" unfolding block_def atLeastLessThan_iff by linarith
  then have "f + 2 ^ k - 1 < s_total_frames s" using inv sub by (auto simp: buddy_inv_def frame_inv_def)
  then have range: "f + 2 ^ k \<le> s_total_frames s" by simp
  then have "f < s_total_frames s" using less_le_trans [of f "f + 2 ^ k"] by simp
  moreover have "clean_page (s_pages s f)" using cl by (simp add: clean_def)
  ultimately obtain t where t: "buddy_insert f k s = Some t"
    using range al and_mask_dvd [of f k]
    by (auto simp: buddy_insert_def Let_def order_to_frames_def clean_page_def)
  have dis: "block f k \<inter> covered s = {}" using inv sub by (auto simp: buddy_inv_def limbo_inv_def)
  then have nfb: "(f, k) \<notin> free_blocks s" using covered_block [of f k s] block_self [of f k] by blast
  note ins = buddy_insert_free_blocks [OF t ai k nfb]
  have cov: "covered t = covered s \<union> block f k" by (auto simp: covered_def ins(1))
  have disj: "block f k \<inter> block g j = {}" if "(g, j) \<in> free_blocks s" for g j
    using dis covered_block [OF that] by auto
  have "block_inv t"
  proof (rule block_invI)
    fix g j assume gj: "(g, j) \<in> free_blocks t"
    show "block_ok t g j"
    proof (cases "(g, j) = (f, k)")
      case True
      then show ?thesis using clean_block_ok [OF cl ins(3,5) al range] by simp
    next
      case False
      then have gj: "(g, j) \<in> free_blocks s" using gj by (auto simp: ins(1))
      then have "block_ok s g j" by (rule block_inv_ok [OF bi])
      moreover have "{f} \<inter> block g j = {}" using disj [OF gj] block_self [of f k] by blast
      ultimately show "block_ok t g j" by (rule block_ok_upto [OF _ ins(3)])
    qed
  next
    fix g j g' j' assume "(g, j) \<in> free_blocks t" "(g', j') \<in> free_blocks t" and ne: "(g, j) \<noteq> (g', j')"
    then consider "(g, j) = (f, k)" "(g', j') \<in> free_blocks s" | "(g', j') = (f, k)" "(g, j) \<in> free_blocks s"
      | "(g, j) \<in> free_blocks s" "(g', j') \<in> free_blocks s" unfolding ins(1) by blast
    then show "block g j \<inter> block g' j' = {}"
    proof cases
      case 1
      then show ?thesis using disj by simp
    next
      case 2
      then show ?thesis using disj [of g j] by (simp add: Int_commute)
    next
      case 3
      then show ?thesis by (rule block_inv_disjoint [OF bi _ _ ne])
    qed
  qed
  moreover have fl: "f \<in> L" using sub by auto
  have "cache_inv t"
    using inv sub fl by (intro upto_cache_inv [OF _ ins(3)]) (auto simp: buddy_inv_def cache_inv_def limbo_inv_def cov)
  moreover have "limbo_inv t (L - block f k)"
    unfolding limbo_inv_def upto_cached [OF ins(3)] cov
  proof (intro conjI ballI)
    fix i assume "i \<in> L - block f k"
    then have "i \<notin> {f}" "porder (s_pages s i) = ORDER_INVALID \<or> occupied (s_pages s i)"
      using inv by (auto simp: buddy_inv_def limbo_inv_def)
    then show "porder (s_pages t i) = ORDER_INVALID \<or> occupied (s_pages t i)"
      by (rule limbo_upto [OF ins(3)])
  qed (use inv in \<open>auto simp: buddy_inv_def limbo_inv_def\<close>)
  moreover have "frame_inv t (L - block f k)"
  proof -
    have tot: "s_total_frames t = s_total_frames s" using ins(3) by (simp add: same_upto_def)
    show ?thesis using inv
      unfolding frame_inv_def buddy_inv_def upto_cached [OF ins(3)] cov tot upto_in_use [OF ins(3)] by auto
  qed
  ultimately have "buddy_inv t (L - block f k)" using ins(2) by (simp add: buddy_inv_def)
  then show thesis using that [OF t _ cov ins(3,4,1)] by simp
qed

section \<open>Merging and splitting\<close>

lemma free_head:
  assumes inv: "buddy_inv s L" and b: "b < s_total_frames s" "porder (s_pages s b) = k" "\<not> occupied (s_pages s b)"
    and k: "k \<le> MAX_ORDER"
  shows "(b, k) \<in> free_blocks s"
proof -
  have "porder (s_pages s b) \<noteq> ORDER_INVALID" using b(2) k by simp
  then have "b \<notin> L" "b \<notin> cached s" and notclean: "\<not> clean_page (s_pages s b)"
    using inv b(3) by (auto simp: buddy_inv_def limbo_inv_def cache_inv_def clean_def clean_page_def)
  then have "b \<in> covered s" using inv b(1,3) by (auto simp: buddy_inv_def frame_inv_def in_use_def)
  then obtain g j where g: "(g, j) \<in> free_blocks s" "b \<in> block g j" by (auto simp: covered_def)
  then have ok: "block_ok s g j" using inv by (auto simp: buddy_inv_def intro: block_inv_ok)
  then have "b = g" using g(2) notclean by (auto simp: block_ok_def clean_def)
  then show ?thesis using ok b(2) g(1) by (simp add: block_ok_def)
qed

lemma buddy_mergeable_free:
  assumes inv: "buddy_inv s L" and m: "buddy_mergeable s f k" and k: "k \<le> MAX_ORDER"
  shows "(f XOR 2 ^ k, k) \<in> free_blocks s"
  by (rule free_head [OF inv _ _ _ k])
    (use m in \<open>simp_all add: buddy_mergeable_def Let_def order_to_frames_def split: if_splits\<close>)

definition merged :: "pfa \<Rightarrow> nat set \<Rightarrow> nat \<Rightarrow> nat \<Rightarrow> nat \<Rightarrow> nat \<Rightarrow> pfa \<Rightarrow> bool" where
  "merged s L f k f' k' t \<longleftrightarrow> buddy_inv t (L \<union> block f' k') \<and> block f k \<subseteq> block f' k'
     \<and> clean t (block f' k') \<and> 2 ^ k' dvd f' \<and> k' \<le> MAX_ORDER
     \<and> covered t \<union> block f' k' = covered s \<union> block f k
     \<and> same_upto (covered s) s t \<and> s_free_frames t = s_free_frames s"

lemma buddy_merge_loop_merged:
  assumes "buddy_inv s L" and "block f k \<subseteq> L" and "clean s (block f k)" and "2 ^ k dvd f"
    and "k + n \<le> MAX_ORDER"
  shows "\<exists>f' k' t. buddy_merge_loop n f k s = Some (f', k', t) \<and> merged s L f k f' k' t"
  using assms
proof (induction n arbitrary: f k s L)
  case 0
  then show ?case by (auto simp: merged_def Un_absorb2)
next
  case (Suc n)
  show ?case
  proof (cases "buddy_mergeable s f k")
    case False
    then show ?thesis using Suc.prems by (auto simp: merged_def Un_absorb2)
  next
    case True
    define b where "b = f XOR 2 ^ k"
    have fb: "(b, k) \<in> free_blocks s"
      unfolding b_def using Suc.prems by (intro buddy_mergeable_free [OF _ True]) simp_all
    obtain u where u: "buddy_remove b k s = Some u" "buddy_inv u (L \<union> block b k)"
      "covered u = covered s - block b k" "clean u (block b k)" "same_upto {b} s u" "s_free_frames u = s_free_frames s"
      by (rule buddy_remove_inv [OF Suc.prems(1) fb])
    note bm = buddy_merge [OF Suc.prems(4) b_def]
    have "b \<notin> block f k" using bm(4) block_self [of b k] by blast
    then have "clean u (block f k)" using upto_clean [OF u(5) Suc.prems(3)] by simp
    then have cl: "clean u (block (min b f) (Suc k))" using u(4) unfolding bm(3) by (auto simp: clean_def)
    have sub: "block (min b f) (Suc k) \<subseteq> L \<union> block b k" using Suc.prems(2) unfolding bm(3) by auto
    obtain f' k' t where loop: "buddy_merge_loop n (min b f) (Suc k) u = Some (f', k', t)"
      and mg: "merged u (L \<union> block b k) (min b f) (Suc k) f' k' t"
      using Suc.IH [OF u(2) sub cl bm(2)] Suc.prems(5) by auto
    have sub': "block f k \<union> block b k \<subseteq> block f' k'" using mg unfolding merged_def bm(3) by simp
    then have L: "L \<union> block b k \<union> block f' k' = L \<union> block f' k'" by auto
    have cb: "block b k \<subseteq> covered s" by (rule covered_block [OF fb])
    then have cov: "covered u \<union> block (min b f) (Suc k) = covered s \<union> block f k"
      unfolding bm(3) u(3) by auto
    have "same_upto (covered s) s t"
    proof (rule upto_trans [OF u(5)])
      show "same_upto (covered u) u t" using mg by (simp add: merged_def)
      show "{b} \<subseteq> covered s" "covered u \<subseteq> covered s" using cb u(3) by auto
    qed
    then have "merged s L f k f' k' t"
      using mg sub' u(6) unfolding merged_def L cov by simp
    moreover have "(if b < f then b else f) = min b f" by simp
    ultimately show ?thesis using True u(1) loop by (simp add: Let_def order_to_frames_def b_def [symmetric])
  qed
qed

lemma buddy_free_nolock_inv:
  assumes inv: "buddy_inv s L" and sub: "block f k \<subseteq> L" and cl: "clean s (block f k)"
    and al: "2 ^ k dvd f" and k: "k \<le> MAX_ORDER"
  obtains t where "buddy_free_nolock f k s = Some t" and "buddy_inv t (L - block f k)"
    and "covered t = covered s \<union> block f k" and "same_upto (covered s \<union> block f k) s t"
    and "s_free_frames t = s_free_frames s + 2 ^ k"
proof -
  obtain f' k' u where loop: "buddy_merge_loop (MAX_ORDER - k) f k s = Some (f', k', u)"
    and mg: "merged s L f k f' k' u"
    using buddy_merge_loop_merged [OF inv sub cl al, of "MAX_ORDER - k"] k by auto
  obtain t where t: "buddy_insert f' k' u = Some t" "buddy_inv t (L \<union> block f' k' - block f' k')"
    "covered t = covered u \<union> block f' k'" "same_upto {f'} u t" "s_free_frames t = s_free_frames u"
    using mg unfolding merged_def by (elim conjE buddy_insert_inv [where f = f' and k = k' and s = u]) auto
  have cov: "covered t = covered s \<union> block f k" using mg t(3) by (simp add: merged_def)
  have f': "block f' k' \<subseteq> covered s \<union> block f k" using mg by (auto simp: merged_def)
  moreover have "L \<inter> covered s = {}" using inv by (simp add: buddy_inv_def limbo_inv_def)
  moreover have "block f k \<subseteq> block f' k'" using mg by (simp add: merged_def)
  ultimately have L: "L \<union> block f' k' - block f' k' = L - block f k" by blast
  have "f' \<in> covered s \<union> block f k" using f' block_self by blast
  moreover have "same_upto (covered s) s u" using mg by (simp add: merged_def)
  ultimately have up: "same_upto (covered s \<union> block f k) s t" by (intro upto_trans [OF _ t(4)]) auto
  let ?t = "t\<lparr>s_free_frames := s_free_frames t + 2 ^ k\<rparr>"
  have "buddy_free_nolock f k s = Some ?t"
    by (simp add: buddy_free_nolock_def loop t(1) order_to_frames_def)
  moreover have "buddy_inv ?t (L - block f k)" using t(2) by (simp add: L)
  moreover have "same_upto (covered s \<union> block f k) s ?t" using up by (simp add: same_upto_def)
  moreover have "s_free_frames ?t = s_free_frames s + 2 ^ k" using t(5) mg by (simp add: merged_def)
  ultimately show thesis using that [of ?t] cov by simp
qed

lemma aligned_or: "2 ^ Suc k dvd f \<Longrightarrow> f OR 2 ^ k = f + 2 ^ k" for f :: nat
  by (rule or_power) (auto elim!: dvdE simp: mult.assoc)

definition split_off :: "pfa \<Rightarrow> nat set \<Rightarrow> nat \<Rightarrow> nat \<Rightarrow> nat \<Rightarrow> pfa \<Rightarrow> bool" where
  "split_off s L f k j t \<longleftrightarrow> buddy_inv t (L - (block f k - block f j))
     \<and> covered t = covered s \<union> (block f k - block f j) \<and> clean t (block f j)
     \<and> same_upto (block f k - block f j) s t \<and> s_free_frames t = s_free_frames s"

lemma order_split_loop_inv:
  assumes "buddy_inv s L" and "block f k \<subseteq> L" and "clean s (block f k)" and "2 ^ k dvd f"
    and "k \<le> MAX_ORDER" and "n \<le> k"
  shows "\<exists>t. order_split_loop f k n s = Some t \<and> split_off s L f k (k - n) t"
  using assms
proof (induction n arbitrary: k s L)
  case 0
  then show ?case by (simp add: split_off_def)
next
  case (Suc n)
  obtain j where j: "k = Suc j" using Suc.prems(6) by (cases k) auto
  let ?g = "f + 2 ^ j"
  have g: "f OR 2 ^ j = ?g" using Suc.prems(4) unfolding j by (rule aligned_or)
  have al: "2 ^ j dvd f" using Suc.prems(4) unfolding j power_Suc by (rule dvd_mult_right)
  note halves = block_halves [of f j]
  have clg: "clean s (block ?g j)" using Suc.prems(3) unfolding j halves(1) by (auto simp: clean_def)
  have bl: "block f j \<subseteq> L" "block ?g j \<subseteq> L" using Suc.prems(2) unfolding j halves(1) by simp_all
  obtain u where u: "buddy_insert ?g j s = Some u" "buddy_inv u (L - block ?g j)"
    "covered u = covered s \<union> block ?g j" "same_upto {?g} s u" "s_free_frames u = s_free_frames s"
  proof (rule buddy_insert_inv [OF Suc.prems(1) bl(2) clg])
    show "2 ^ j dvd ?g" using al by simp
    show "j \<le> MAX_ORDER" using Suc.prems(5) j by simp
  qed
  have sub: "block f j \<subseteq> L - block ?g j" using bl(1) halves(2) by blast
  have gn: "{?g} \<inter> block f j = {}" by (simp add: block_def)
  have "clean s (block f j)" using Suc.prems(3) unfolding j halves(1) by (simp add: clean_def)
  then have clf: "clean u (block f j)" by (rule upto_clean [OF u(4) _ gn])
  obtain t where t: "order_split_loop f j n u = Some t" "split_off u (L - block ?g j) f j (j - n) t"
    using Suc.IH [OF u(2) sub clf al] Suc.prems(5,6) by (auto simp: j)
  have "block f (j - n) \<subseteq> block f j" by (rule block_mono) simp
  then have eqs: "block f k - block f (j - n) = block ?g j \<union> (block f j - block f (j - n))"
    using halves unfolding j by blast
  have "same_upto (block f k - block f (j - n)) s t"
  proof (rule upto_trans [OF u(4)])
    show "same_upto (block f j - block f (j - n)) u t" using t(2) by (simp add: split_off_def)
    show "{?g} \<subseteq> block f k - block f (j - n)" unfolding eqs using block_self by blast
  qed (simp add: eqs)
  moreover have "L - block ?g j - (block f j - block f (j - n)) = L - (block f k - block f (j - n))"
    unfolding eqs by auto
  moreover have "covered s \<union> block ?g j \<union> (block f j - block f (j - n)) = covered s \<union> (block f k - block f (j - n))"
    unfolding eqs by (rule Un_assoc)
  ultimately have "split_off s L f k (j - n) t"
    using t(2) unfolding split_off_def u(3,5) by simp
  then show ?case using u(1) t(1) by (simp add: j order_to_frames_def g)
qed

end
