(* ===== verification/Page_Alloc.thy ===== *)
theory Page_Alloc
  imports Buddy
begin

text \<open>
  The exported operations of \<^verbatim>\<open>kernel/page_frame_allocator.c\<close> on a state that satisfies
  the buddy invariant: none of them halts where the caller is right, each returns to
  the invariant, and each moves exactly the frames it should between free and in use.
\<close>

section \<open>Moving single frames\<close>

definition free_set :: "pfa \<Rightarrow> nat set" where
  "free_set s = covered s \<union> cached s"

definition slack :: "pfa \<Rightarrow> int" where
  "slack s = s_free_frames s - int (card (covered s))"

text \<open>Rearranging free frames between the buddy lists and the caches.\<close>

definition shuffle :: "pfa \<Rightarrow> pfa \<Rightarrow> bool" where
  "shuffle s t \<longleftrightarrow> s_total_frames t = s_total_frames s \<and> s_start_addr t = s_start_addr s
     \<and> free_set t = free_set s \<and> (\<forall>f. f \<notin> free_set s \<longrightarrow> s_pages t f = s_pages s f) \<and> slack t = slack s"

lemma shuffle_refl [simp]: "shuffle s s"
  by (simp add: shuffle_def)

lemma shuffle_trans: "shuffle s t \<Longrightarrow> shuffle t u \<Longrightarrow> shuffle s u"
  by (simp add: shuffle_def)

lemma covered_less: "buddy_inv s L \<Longrightarrow> f \<in> covered s \<Longrightarrow> f < s_total_frames s"
  by (auto simp: buddy_inv_def covered_def block_def block_ok_def dest!: block_inv_ok)

lemma finite_covered: "buddy_inv s L \<Longrightarrow> finite (covered s)"
  by (rule finite_subset [of _ "{..< s_total_frames s}"]) (auto dest: covered_less)

lemma free_set_less: "buddy_inv s L \<Longrightarrow> f \<in> free_set s \<Longrightarrow> f < s_total_frames s"
  by (auto simp: free_set_def dest: covered_less) (auto simp: buddy_inv_def frame_inv_def)

lemma free_blocks_set_percpu [simp]: "free_blocks (set_percpu c xs s) = free_blocks s"
  and free_blocks_set_page [simp]: "free_blocks (set_page f u s) = free_blocks s"
  by (simp_all add: free_blocks_def set_percpu_def set_page_def)

lemma covered_set_percpu [simp]: "covered (set_percpu c xs s) = covered s"
  and covered_set_page [simp]: "covered (set_page f u s) = covered s"
  by (simp_all add: covered_def)

lemma cached_set_page [simp]: "cached (set_page f u s) = cached s"
  by (simp add: cached_def set_page_def)

lemma cached_set_percpu: "cached (set_percpu c xs s) = set xs \<union> (\<Union>d\<in>- {c}. set (s_percpu s d))"
  by (auto simp: cached_def set_percpu_def split: if_splits)

lemma set_page_fields [simp]:
  "s_total_frames (set_page f u s) = s_total_frames s" "s_start_addr (set_page f u s) = s_start_addr s"
  "s_free_frames (set_page f u s) = s_free_frames s" "s_percpu (set_page f u s) = s_percpu s"
  "s_pages (set_page f u s) = (s_pages s)(f := u (s_pages s f))"
  "s_free_area (set_page f u s) = s_free_area s" "s_free_order_bitmap (set_page f u s) = s_free_order_bitmap s"
  by (simp_all add: set_page_def)

lemma set_percpu_fields [simp]:
  "s_total_frames (set_percpu c xs s) = s_total_frames s" "s_start_addr (set_percpu c xs s) = s_start_addr s"
  "s_free_frames (set_percpu c xs s) = s_free_frames s" "s_percpu (set_percpu c xs s) = (s_percpu s)(c := xs)"
  "s_pages (set_percpu c xs s) = s_pages s"
  "s_free_area (set_percpu c xs s) = s_free_area s"
  "s_free_order_bitmap (set_percpu c xs s) = s_free_order_bitmap s"
  by (simp_all add: set_percpu_def)

lemma block_ok_cong:
  "\<lbrakk>block_ok s f k; s_total_frames t = s_total_frames s; \<And>i. i \<in> block f k \<Longrightarrow> s_pages t i = s_pages s i\<rbrakk>
   \<Longrightarrow> block_ok t f k"
  by (simp add: block_ok_def clean_def)

lemma block_inv_cong:
  assumes "block_inv s" and "free_blocks t = free_blocks s" and "s_total_frames t = s_total_frames s"
    and "\<And>i. i \<in> covered s \<Longrightarrow> s_pages t i = s_pages s i"
  shows "block_inv t"
proof (rule block_invI)
  fix f k assume fk: "(f, k) \<in> free_blocks t"
  then have "block_ok s f k" using assms(1,2) by (simp add: block_inv_ok)
  then show "block_ok t f k"
    by (rule block_ok_cong) (use assms(2-4) covered_block [of f k s] fk in auto)
qed (use assms(1,2) in \<open>auto dest: block_inv_disjoint\<close>)

text \<open>A frame in transit may be rewritten at will, and leaves transit once it is in use.\<close>

lemma inv_set_page:
  assumes inv: "buddy_inv s L" and f: "f \<in> L"
    and u: "porder (u (s_pages s f)) = ORDER_INVALID \<or> occupied (u (s_pages s f))"
  shows "buddy_inv (set_page f u s) L"
proof -
  have nc: "f \<notin> covered s" "f \<notin> cached s" using inv f by (auto simp: buddy_inv_def limbo_inv_def)
  have "block_inv (set_page f u s)"
    by (rule block_inv_cong [of s]) (use inv nc in \<open>auto simp: buddy_inv_def\<close>)
  moreover have "clean (set_page f u s) (cached s)"
    using inv nc by (auto simp: buddy_inv_def cache_inv_def clean_def)
  ultimately show ?thesis
    using inv u f by (auto simp: buddy_inv_def area_inv_def cache_inv_def limbo_inv_def frame_inv_def)
qed

lemma inv_used:
  assumes "buddy_inv s L" and "\<And>f. f \<in> F \<Longrightarrow> in_use (s_pages s f)"
  shows "buddy_inv s (L - F)"
  using assms by (auto simp: buddy_inv_def limbo_inv_def frame_inv_def)

lemma inv_take:
  assumes "buddy_inv s L" and "F \<inter> free_set s = {}" and "F \<subseteq> {..< s_total_frames s}"
    and "\<And>f. f \<in> F \<Longrightarrow> occupied (s_pages s f)"
  shows "buddy_inv s (L \<union> F)"
  using assms by (auto simp: buddy_inv_def limbo_inv_def frame_inv_def free_set_def)

lemma inv_used_set_page:
  assumes inv: "buddy_inv s {}" and f: "f < s_total_frames s" "f \<notin> free_set s" and use: "in_use (u (s_pages s f))" "occupied (s_pages s f)"
  shows "buddy_inv (set_page f u s) {}" and "free_set (set_page f u s) = free_set s"
proof -
  have "buddy_inv s ({} \<union> {f})" by (rule inv_take [OF inv]) (use f use(2) in auto)
  then have "buddy_inv (set_page f u s) {f}" using use(1) by (intro inv_set_page) (simp_all add: in_use_def)
  then have "buddy_inv (set_page f u s) ({f} - {f})" by (rule inv_used) (use use(1) in simp)
  then show "buddy_inv (set_page f u s) {}" by simp
  show "free_set (set_page f u s) = free_set s" by (simp add: free_set_def)
qed

lemma cached_push: "cached (set_percpu c (f # s_percpu s c) s) = insert f (cached s)"
  unfolding cached_set_percpu by (auto simp: cached_def)

lemma inv_cache_push:
  assumes inv: "buddy_inv s L" and f: "f \<in> L" and cl: "clean_page (s_pages s f)"
  shows "buddy_inv (set_percpu c (f # s_percpu s c) s) (L - {f})"
proof -
  let ?t = "set_percpu c (f # s_percpu s c) s"
  have nc: "f \<notin> covered s" "f \<notin> cached s" using inv f by (auto simp: buddy_inv_def limbo_inv_def)
  then have np: "f \<notin> set (s_percpu s d)" for d by (auto simp: cached_def)
  have "block_inv ?t" by (rule block_inv_cong [of s]) (use inv in \<open>auto simp: buddy_inv_def\<close>)
  moreover have "cache_inv ?t"
    using inv nc np cl unfolding buddy_inv_def cache_inv_def cached_push
    by (auto simp: clean_def)
  moreover have "limbo_inv ?t (L - {f})"
    using inv unfolding buddy_inv_def limbo_inv_def cached_push by auto
  moreover have "frame_inv ?t (L - {f})"
    using inv f unfolding buddy_inv_def frame_inv_def cached_push by auto
  ultimately show ?thesis using inv by (simp add: buddy_inv_def area_inv_def)
qed

lemma inv_cache_pop:
  assumes inv: "buddy_inv s L" and pc: "s_percpu s c = f # rest"
  shows "buddy_inv (set_percpu c rest s) (insert f L)" and "clean_page (s_pages s f)"
    and "cached (set_percpu c rest s) = cached s - {f}" and "f \<in> cached s" and "f < s_total_frames s"
proof -
  let ?t = "set_percpu c rest s"
  have ci: "cache_inv s" using inv by (simp add: buddy_inv_def)
  have fc: "f \<in> cached s" unfolding cached_def by (rule UN_I [of c]) (simp_all add: pc)
  have "f \<notin> set rest" "\<And>d. d \<noteq> c \<Longrightarrow> f \<notin> set (s_percpu s d)"
  proof -
    show "f \<notin> set rest" using ci pc unfolding cache_inv_def by (metis distinct.simps(2))
    fix d assume "d \<noteq> c"
    then have "set (s_percpu s c) \<inter> set (s_percpu s d) = {}" using ci by (simp add: cache_inv_def)
    then show "f \<notin> set (s_percpu s d)" by (auto simp: pc)
  qed
  moreover have "set (s_percpu s d) \<subseteq> cached s" for d by (auto simp: cached_def)
  moreover have "cached s = set (f # rest) \<union> (\<Union>d\<in>- {c}. set (s_percpu s d))"
    unfolding pc [symmetric] by (auto simp: cached_def)
  ultimately show cd: "cached ?t = cached s - {f}" unfolding cached_set_percpu by auto
  show cl: "clean_page (s_pages s f)" using ci fc by (auto simp: cache_inv_def clean_def)
  show "f \<in> cached s" by (rule fc)
  show "f < s_total_frames s" using inv fc by (auto simp: buddy_inv_def frame_inv_def)
  have nl: "f \<notin> covered s" using ci fc by (auto simp: cache_inv_def)
  have "block_inv ?t" by (rule block_inv_cong [of s]) (use inv in \<open>auto simp: buddy_inv_def\<close>)
  moreover have "cache_inv ?t"
  proof -
    have "distinct rest" using ci pc unfolding cache_inv_def by (metis distinct.simps(2))
    moreover have "set rest \<inter> set (s_percpu s d) = {}" if "d \<noteq> c" for d
      using ci pc that unfolding cache_inv_def by (metis Int_insert_left_if0 disjoint_insert(1) list.simps(15))
    ultimately show ?thesis using ci unfolding cache_inv_def cd by (auto simp: clean_def)
  qed
  moreover have "limbo_inv ?t (insert f L)"
    using inv nl cl unfolding buddy_inv_def limbo_inv_def cd by (auto simp: clean_page_def)
  moreover have "frame_inv ?t (insert f L)"
    using inv fc unfolding buddy_inv_def frame_inv_def cd by auto
  ultimately show "buddy_inv ?t (insert f L)" using inv by (simp add: buddy_inv_def area_inv_def)
qed

section \<open>Per-CPU caches\<close>

lemma shuffle_free_nolock:
  assumes inv: "buddy_inv s {}" and pc: "s_percpu s c = f # rest"
  obtains t where "buddy_free_nolock f 0 (set_percpu c rest s) = Some t" and "buddy_inv t {}"
    and "shuffle s t" and "s_percpu t = (s_percpu s)(c := rest)"
proof -
  note pop = inv_cache_pop [OF inv pc]
  let ?s = "set_percpu c rest s"
  obtain t where t: "buddy_free_nolock f 0 ?s = Some t" "buddy_inv t ({f} - block f 0)"
    "covered t = covered ?s \<union> block f 0" "same_upto (covered ?s \<union> block f 0) ?s t"
    "s_free_frames t = s_free_frames ?s + 2 ^ 0"
    by (rule buddy_free_nolock_inv [OF pop(1), of f 0]) (simp_all add: clean_def pop(2))
  have cov: "covered t = insert f (covered s)" using t(3) by simp
  have "f \<notin> covered s" using inv pop(4) by (auto simp: buddy_inv_def cache_inv_def)
  then have card: "card (covered t) = card (covered s) + 1"
    using finite_covered [OF inv] by (simp add: cov)
  have "cached t = cached s - {f}" using upto_cached [OF t(4)] pop(3) by simp
  then have fs: "free_set t = free_set s" using cov pop(4) by (auto simp: free_set_def)
  have "s_pages t i = s_pages s i" if "i \<notin> free_set s" for i
    using t(4) that pop(4) by (auto simp: same_upto_def free_set_def)
  then have "shuffle s t"
    using t(4,5) fs card by (simp add: shuffle_def slack_def same_upto_def)
  then show thesis using that [OF t(1)] t(2,4) by (simp add: same_upto_def)
qed

lemma percpu_drain_loop_inv:
  assumes "buddy_inv s {}" and "k \<le> length (s_percpu s c)"
  shows "\<exists>t. percpu_drain_loop c k s = Some t \<and> buddy_inv t {} \<and> shuffle s t
    \<and> s_percpu t = (s_percpu s)(c := drop k (s_percpu s c))"
  using assms
proof (induction k arbitrary: s)
  case (Suc k)
  then obtain f rest where pc: "s_percpu s c = f # rest" by (cases "s_percpu s c") auto
  obtain u where u: "buddy_free_nolock f 0 (set_percpu c rest s) = Some u" "buddy_inv u {}"
    "shuffle s u" "s_percpu u = (s_percpu s)(c := rest)"
    by (rule shuffle_free_nolock [OF Suc.prems(1) pc])
  have "k \<le> length (s_percpu u c)" using Suc.prems(2) by (simp add: u(4) pc)
  from Suc.IH [OF u(2) this] obtain t where "percpu_drain_loop c k u = Some t" "buddy_inv t {}"
    "shuffle u t" "s_percpu t = (s_percpu u)(c := drop k (s_percpu u c))" by blast
  then show ?case using shuffle_trans [OF u(3)] by (simp add: pc u(1,4) fun_eq_iff)
qed simp

lemma percpu_drain_inv:
  assumes "buddy_inv s {}"
  obtains t where "percpu_drain c s = Some t" and "buddy_inv t {}" and "shuffle s t"
    and "s_percpu t = (s_percpu s)(c := drop PERCPU_BATCH (s_percpu s c))"
proof -
  define k where "k = (if PERCPU_BATCH > length (s_percpu s c) then length (s_percpu s c) else PERCPU_BATCH)"
  then have "k \<le> length (s_percpu s c)" by simp
  from percpu_drain_loop_inv [OF assms this]
  obtain t where t: "percpu_drain_loop c k s = Some t" "buddy_inv t {}" "shuffle s t"
    "s_percpu t = (s_percpu s)(c := drop k (s_percpu s c))" by blast
  have "percpu_drain c s = Some t" using t(1) unfolding percpu_drain_def Let_def k_def .
  moreover have "drop k (s_percpu s c) = drop PERCPU_BATCH (s_percpu s c)" by (simp add: k_def)
  ultimately show thesis using that [of t] t(2-4) by simp
qed

lemma bitmap_area:
  "\<lbrakk>buddy_inv s L; bit (s_free_order_bitmap s) k\<rbrakk>
   \<Longrightarrow> k \<le> MAX_ORDER \<and> (\<exists>f rest. s_free_area s k = f # rest \<and> (f, k) \<in> free_blocks s)"
  by (auto simp: buddy_inv_def area_inv_def free_blocks_def neq_Nil_conv)

lemma bitmap_zero: "buddy_inv s L \<Longrightarrow> s_free_order_bitmap s = 0 \<Longrightarrow> covered s = {}"
  by (auto simp: buddy_inv_def area_inv_def covered_def free_blocks_def)

text \<open>Taking a block of order \<open>k\<close> off its list and splitting it down to order \<open>j\<close>.\<close>

lemma remove_split_inv:
  assumes inv: "buddy_inv s {}" and fb: "(f, k) \<in> free_blocks s" and j: "j \<le> k"
  obtains u t where "buddy_remove f k s = Some u" and "jlos_page_frame_order_split f k j u = Some t"
    and "buddy_inv t (block f j)" and "covered t = covered s - block f j" and "clean t (block f j)"
    and "same_upto (block f k) s t" and "s_free_frames t = s_free_frames s" and "block f j \<subseteq> covered s"
proof -
  have k: "k \<le> MAX_ORDER" and ok: "block_ok s f k"
    using inv fb by (auto simp: free_blocks_def buddy_inv_def intro: block_inv_ok)
  then have al: "2 ^ k dvd f" by (simp add: block_ok_def)
  obtain u where u: "buddy_remove f k s = Some u" "buddy_inv u (block f k)"
    "covered u = covered s - block f k" "clean u (block f k)" "same_upto {f} s u"
    "s_free_frames u = s_free_frames s"
    by (rule buddy_remove_inv [OF inv fb]) simp
  obtain t where t: "order_split_loop f k (k - j) u = Some t" "split_off u (block f k) f k j t"
    using order_split_loop_inv [OF u(2) order_refl u(4) al k, of "k - j"] j by auto
  have sub: "block f j \<subseteq> block f k" "block f k \<subseteq> covered s"
    using block_mono [OF j] covered_block [OF fb] by auto
  then have L: "block f k - (block f k - block f j) = block f j"
    and cov: "covered s - block f k \<union> (block f k - block f j) = covered s - block f j" by auto
  have "same_upto (block f k) s t"
  proof (rule upto_trans [OF u(5)])
    show "same_upto (block f k - block f j) u t" using t(2) by (simp add: split_off_def)
  qed auto
  moreover have "jlos_page_frame_order_split f k j u = Some t"
    using t(1) by (simp add: jlos_page_frame_order_split_def)
  moreover have "block f j \<subseteq> covered s" using sub by (rule order_trans)
  ultimately show thesis
    using that [OF u(1), of t] t(2) unfolding split_off_def u(3,6) L cov by simp
qed

definition refill_step :: "nat \<Rightarrow> nat \<Rightarrow> pfa \<Rightarrow> pfa" where
  "refill_step c f s = (set_percpu c (f # s_percpu s c) (set_page f (\<lambda>p. p\<lparr>occupied := False, ptype := TYPE_FREE,
     porder := ORDER_INVALID, refcount := 0\<rparr>) s))\<lparr>s_free_frames := s_free_frames s - 1\<rparr>"

lemma refill_step_inv:
  assumes inv: "buddy_inv s {}" and fb: "(f, k) \<in> free_blocks s"
  obtains u t where "buddy_remove f k s = Some u" and "jlos_page_frame_order_split f k 0 u = Some t"
    and "buddy_inv (refill_step c f t) {}" and "shuffle s (refill_step c f t)"
    and "s_percpu (refill_step c f t) = (s_percpu s)(c := f # s_percpu s c)"
proof -
  obtain u t where ut: "buddy_remove f k s = Some u" "jlos_page_frame_order_split f k 0 u = Some t"
    and inv': "buddy_inv t (block f 0)" and cov: "covered t = covered s - block f 0" and cl: "clean t (block f 0)"
    and up: "same_upto (block f k) s t" and ff: "s_free_frames t = s_free_frames s" and sub: "block f 0 \<subseteq> covered s"
    by (rule remove_split_inv [OF inv fb le0])
  define v where "v = set_page f (\<lambda>p. p\<lparr>occupied := False, ptype := TYPE_FREE, porder := ORDER_INVALID, refcount := 0\<rparr>) t"
  have step: "refill_step c f t = (set_percpu c (f # s_percpu v c) v)\<lparr>s_free_frames := s_free_frames t - 1\<rparr>"
    by (simp add: refill_step_def v_def)
  have invv: "buddy_inv v {f}"
    unfolding v_def using inv' by (intro inv_set_page) simp_all
  then have "buddy_inv (set_percpu c (f # s_percpu v c) v) ({f} - {f})"
    by (rule inv_cache_push) (simp_all add: v_def clean_page_def)
  then have i: "buddy_inv (refill_step c f t) {}" by (simp add: step)
  have covv: "covered (refill_step c f t) = covered s - {f}" by (simp add: step v_def cov)
  have "cached v = cached s" using upto_cached [OF up] by (simp add: v_def)
  then have "cached (refill_step c f t) = insert f (cached s)" by (simp add: step cached_push)
  then have fs: "free_set (refill_step c f t) = free_set s" using covv sub by (auto simp: free_set_def)
  have bc: "block f k \<subseteq> covered s" by (rule covered_block [OF fb])
  have "s_pages (refill_step c f t) i = s_pages s i" if "i \<notin> free_set s" for i
    using up that bc sub by (auto simp: step v_def same_upto_def free_set_def)
  moreover have "card (covered s) \<noteq> 0" using finite_covered [OF inv] sub by auto
  then have "int (card (covered s - {f})) = int (card (covered s)) - 1"
    using sub by (simp add: card_Diff_singleton)
  then have "slack (refill_step c f t) = slack s" unfolding slack_def covv by (simp add: step ff)
  ultimately have "shuffle s (refill_step c f t)"
    using up fs by (simp add: shuffle_def step v_def same_upto_def)
  moreover have "s_percpu (refill_step c f t) = (s_percpu s)(c := f # s_percpu s c)"
    using up by (simp add: step v_def same_upto_def)
  ultimately show thesis using that [OF ut i] by simp
qed

lemma percpu_refill_loop_inv:
  assumes "buddy_inv s {}"
  shows "\<exists>t xs. percpu_refill_loop c k s = Some t \<and> buddy_inv t {} \<and> shuffle s t
    \<and> s_percpu t = (s_percpu s)(c := xs @ s_percpu s c) \<and> (xs = [] \<longrightarrow> k = 0 \<or> covered s = {})"
  using assms
proof (induction k arbitrary: s)
  case 0
  then show ?case by (intro exI [of _ s] exI [of _ "[]"]) simp
next
  case (Suc k)
  let ?b = "s_free_order_bitmap s"
  show ?case
  proof (cases "?b = 0")
    case True
    then show ?thesis using Suc.prems bitmap_zero [OF Suc.prems]
      by (intro exI [of _ s] exI [of _ "[]"]) simp
  next
    case False
    define ord where "ord = builtin_ctz ?b"
    have "bit ?b ord" unfolding ord_def by (rule builtin_ctz_props(2) [OF False])
    then obtain f rest where f: "s_free_area s ord = f # rest" "(f, ord) \<in> free_blocks s"
      using bitmap_area [OF Suc.prems] by blast
    obtain u v where uv: "buddy_remove f ord s = Some u" "jlos_page_frame_order_split f ord 0 u = Some v"
      "buddy_inv (refill_step c f v) {}" "shuffle s (refill_step c f v)"
      "s_percpu (refill_step c f v) = (s_percpu s)(c := f # s_percpu s c)"
      by (rule refill_step_inv [OF Suc.prems f(2)])
    from Suc.IH [OF uv(3)] obtain t xs where t: "percpu_refill_loop c k (refill_step c f v) = Some t" "buddy_inv t {}"
      "shuffle (refill_step c f v) t"
      "s_percpu t = (s_percpu (refill_step c f v))(c := xs @ s_percpu (refill_step c f v) c)" by blast
    have "percpu_refill_loop c (Suc k) s = Some t"
      using False f(1) uv(1,2) t(1) by (simp add: ord_def [symmetric] Let_def refill_step_def)
    moreover have "s_percpu t = (s_percpu s)(c := (xs @ [f]) @ s_percpu s c)"
      using t(4) by (simp add: uv(5) fun_eq_iff)
    ultimately show ?thesis using t(2) shuffle_trans [OF uv(4) t(3)] by blast
  qed
qed

section \<open>Single frames\<close>

lemma shuffle_in_use:
  "buddy_inv s {} \<Longrightarrow> shuffle s t \<Longrightarrow> f < s_total_frames s \<Longrightarrow> f \<notin> free_set s
   \<Longrightarrow> s_pages t f = s_pages s f \<and> in_use (s_pages s f)"
  by (auto simp: shuffle_def buddy_inv_def frame_inv_def free_set_def)

text \<open>The frames that a caller gets: free before, in use afterwards; every other frame keeps
  its page record if it was in use and stays free if it was free.\<close>

definition takes :: "pfa \<Rightarrow> nat set \<Rightarrow> pfa \<Rightarrow> bool" where
  "takes s F t \<longleftrightarrow> s_total_frames t = s_total_frames s \<and> s_start_addr t = s_start_addr s
     \<and> F \<subseteq> free_set s \<and> free_set t = free_set s - F
     \<and> (\<forall>f\<in>F. occupied (s_pages t f) \<and> refcount (s_pages t f) = 1)
     \<and> (\<forall>f. f \<notin> free_set s \<longrightarrow> s_pages t f = s_pages s f)"

lemma malloc_cases:
  assumes inv: "buddy_inv s {}"
  obtains (empty) t where "jlos_page_frame_malloc c s = Some (t, None)" "buddy_inv t {}" "shuffle s t"
      "covered s = {}" "s_percpu s c = []" "s_percpu t = s_percpu s"
    | (frame) t f where "jlos_page_frame_malloc c s = Some (t, Some (frame_to_phys s f))" "buddy_inv t {}"
      "takes s {f} t" "slack t = slack s"
proof -
  obtain u where u: "(if s_percpu s c = [] then percpu_refill c s else Some s) = Some u" "buddy_inv u {}"
    "shuffle s u" "s_percpu u c = [] \<Longrightarrow> covered s = {} \<and> s_percpu s c = [] \<and> s_percpu u = s_percpu s"
  proof (cases "s_percpu s c = []")
    case True
    obtain t xs where t: "percpu_refill c s = Some t" "buddy_inv t {}" "shuffle s t"
      "s_percpu t = (s_percpu s)(c := xs @ s_percpu s c)" "xs = [] \<longrightarrow> covered s = {}"
      using percpu_refill_loop_inv [OF inv, of c PERCPU_BATCH] True unfolding percpu_refill_def by fastforce
    show thesis
    proof (rule that [OF _ t(2,3)])
      show "(if s_percpu s c = [] then percpu_refill c s else Some s) = Some t" using True t(1) by simp
      assume "s_percpu t c = []"
      then have xs: "xs = []" using t(4) by simp
      then have "s_percpu t = s_percpu s" using t(4) by (simp only: append_Nil fun_upd_triv)
      then show "covered s = {} \<and> s_percpu s c = [] \<and> s_percpu t = s_percpu s" using t(5) xs True by blast
    qed
  next
    case False
    then show thesis using that [of s] inv by simp
  qed
  show thesis
  proof (cases "s_percpu u c")
    case Nil
    then have "jlos_page_frame_malloc c s = Some (u, None)" using u(1) by (simp add: jlos_page_frame_malloc_def)
    then show thesis using empty [OF _ u(2,3)] u(4) [OF Nil] by blast
  next
    case (Cons f rest)
    let ?v = "set_percpu c rest u" and ?w = "\<lambda>p. p\<lparr>occupied := True, refcount := 1\<rparr>"
    note pop = inv_cache_pop [OF u(2) Cons]
    have "buddy_inv (set_page f ?w ?v) {f}" using pop(1) by (rule inv_set_page) simp_all
    then have "buddy_inv (set_page f ?w ?v) ({f} - {f})" by (rule inv_used) (simp add: in_use_def)
    then have i: "buddy_inv (set_page f ?w ?v) {}" by simp
    have "f \<notin> covered u" using u(2) pop(4) by (auto simp: buddy_inv_def cache_inv_def)
    then have "free_set (set_page f ?w ?v) = free_set u - {f}" by (auto simp: free_set_def pop(3))
    moreover have "f \<in> free_set u" using pop(4) by (simp add: free_set_def)
    moreover have "free_set u = free_set s" using u(3) by (simp add: shuffle_def)
    ultimately have "takes s {f} (set_page f ?w ?v)" using u(3) unfolding takes_def by (simp add: shuffle_def)
    moreover have "slack (set_page f ?w ?v) = slack s" using u(3) by (simp add: slack_def shuffle_def)
    moreover have "jlos_page_frame_malloc c s = Some (set_page f ?w ?v, Some (frame_to_phys s f))"
      using u(1,3) Cons by (simp add: jlos_page_frame_malloc_def Let_def frame_to_phys_def shuffle_def)
    ultimately show thesis using frame [OF _ i] by simp
  qed
qed

text \<open>
  Dropping the last reference to a frame frees it; the caches are rearranged at most.
\<close>

definition drops :: "pfa \<Rightarrow> nat set \<Rightarrow> pfa \<Rightarrow> bool" where
  "drops s F t \<longleftrightarrow> s_total_frames t = s_total_frames s \<and> s_start_addr t = s_start_addr s
     \<and> free_set t = free_set s \<union> F
     \<and> (\<forall>f. f \<notin> free_set s \<union> F \<longrightarrow> s_pages t f = s_pages s f)"

lemma drops_shuffle: "drops s F t \<Longrightarrow> shuffle t u \<Longrightarrow> drops s F u"
  by (simp add: drops_def shuffle_def)

lemma free_refcount:
  "buddy_inv s {} \<Longrightarrow> f \<in> free_set s \<Longrightarrow> refcount (s_pages s f) = 0"
proof -
  assume inv: "buddy_inv s {}" and f: "f \<in> free_set s"
  show ?thesis
  proof (cases "f \<in> cached s")
    case True
    then show ?thesis using inv by (auto simp: buddy_inv_def cache_inv_def clean_def clean_page_def)
  next
    case False
    then obtain g k where g: "(g, k) \<in> free_blocks s" "f \<in> block g k"
      using f unfolding free_set_def covered_def by blast
    then have "block_ok s g k" using inv by (auto simp: buddy_inv_def intro: block_inv_ok)
    then show ?thesis using g(2) by (cases "f = g") (auto simp: block_ok_def clean_def clean_page_def)
  qed
qed

lemma in_use_iff:
  "buddy_inv s {} \<Longrightarrow> f < s_total_frames s \<Longrightarrow> in_use (s_pages s f) \<longleftrightarrow> f \<notin> free_set s"
  using free_refcount [of s f] by (auto simp: in_use_def buddy_inv_def frame_inv_def free_set_def)

lemma refcount_dec_last:
  assumes inv: "buddy_inv s {}" and fr: "pfa_phys_to_frame s p = f" "f < s_total_frames s"
    and rc: "refcount (s_pages s f) = 1"
  obtains t where "jlos_page_frame_refcount_dec c p s = Some t" and "buddy_inv t {}" and "drops s {f} t"
    and "slack t = slack s"
proof -
  have nf: "f \<notin> free_set s" using free_refcount [OF inv] rc by auto
  then have "in_use (s_pages s f)" using in_use_iff [OF inv fr(2)] by simp
  then have take: "buddy_inv s ({} \<union> {f})"
    by (intro inv_take [OF inv]) (use nf fr(2) in \<open>auto simp: in_use_def\<close>)
  define u where "u = set_page f (\<lambda>p. p\<lparr>occupied := False, porder := ORDER_INVALID,
     ptype := TYPE_FREE, pt_present_count := 0, refcount := 0\<rparr>) (set_page f (\<lambda>p. p\<lparr>refcount := 0\<rparr>) s)"
  define v where "v = set_percpu c (f # s_percpu u c) u"
  have "u = set_page f (\<lambda>p. p\<lparr>occupied := False, porder := ORDER_INVALID,
     ptype := TYPE_FREE, pt_present_count := 0, refcount := 0\<rparr>) s"
    by (simp add: u_def set_page_def)
  then have "buddy_inv u {f}" using inv_set_page [OF take, of f] by simp
  then have "buddy_inv v ({f} - {f})" unfolding v_def by (rule inv_cache_push) (simp_all add: u_def clean_page_def)
  then have iv: "buddy_inv v {}" by simp
  have "free_set v = free_set s \<union> {f}" unfolding v_def free_set_def cached_push by (simp add: u_def)
  then have dv: "drops s {f} v" unfolding drops_def by (simp add: v_def u_def)
  have sv: "slack v = slack s" by (simp add: v_def u_def slack_def)
  have eq: "jlos_page_frame_refcount_dec c p s =
    (if PERCPU_HIGH < length (s_percpu v c) then percpu_drain c v else Some v)"
    using fr rc by (simp add: jlos_page_frame_refcount_dec_def Let_def u_def v_def)
  show thesis
  proof (cases "PERCPU_HIGH < length (s_percpu v c)")
    case True
    obtain t where "percpu_drain c v = Some t" "buddy_inv t {}" "shuffle v t" by (rule percpu_drain_inv [OF iv])
    then show thesis using that [of t] True eq drops_shuffle [OF dv] sv by (simp add: shuffle_def)
  next
    case False
    then show thesis using that [of v] eq iv dv sv by simp
  qed
qed

section \<open>Ranges\<close>

lemma free_range_order_props:
  "2 ^ order dvd base \<Longrightarrow> 2 ^ order \<le> len
   \<Longrightarrow> 2 ^ free_range_order base len order \<le> len \<and> 2 ^ free_range_order base len order dvd base"
proof (induction base len order rule: free_range_order.induct)
  case (1 base len order)
  show ?case
  proof (cases "order_to_frames (order + 1) \<le> len \<and> base AND (order_to_frames (order + 1) - 1) = 0")
    case True
    then have "2 ^ (order + 1) dvd base" "2 ^ (order + 1) \<le> len"
      unfolding order_to_frames_def and_mask_dvd by simp_all
    then have "2 ^ free_range_order base len (order + 1) \<le> len
      \<and> 2 ^ free_range_order base len (order + 1) dvd base" using 1 True by simp
    moreover have "free_range_order base len order = free_range_order base len (order + 1)"
      using if_P [OF True] by (subst free_range_order.simps)
    ultimately show ?thesis by simp
  next
    case False
    then have "free_range_order base len order = order"
      by (subst free_range_order.simps) (simp only: if_False)
    then show ?thesis using 1(2,3) by simp
  qed
qed

lemma clear_pages_fields [simp]:
  "s_total_frames (clear_pages b n s) = s_total_frames s" "s_start_addr (clear_pages b n s) = s_start_addr s"
  "s_percpu (clear_pages b n s) = s_percpu s" "s_free_frames (clear_pages b n s) = s_free_frames s"
  "covered (clear_pages b n s) = covered s" "cached (clear_pages b n s) = cached s"
  by (induction n) simp_all

lemma clear_pages_page:
  "s_pages (clear_pages b n s) f = (if f \<in> {b..<b + n} then (s_pages s f)\<lparr>occupied := False, porder := ORDER_INVALID,
     ptype := TYPE_FREE, pt_present_count := 0\<rparr> else s_pages s f)"
  by (induction n) auto

lemma clear_pages_inv: "buddy_inv s L \<Longrightarrow> {b..<b + n} \<subseteq> L \<Longrightarrow> buddy_inv (clear_pages b n s) L"
proof (induction n)
  case (Suc n)
  have "b + n \<in> L" "{b..<b + n} \<subseteq> L" using Suc.prems(2) by auto
  with Suc show ?case by (simp add: inv_set_page)
qed simp

text \<open>Returning a range of frames in transit whose counts are zero.\<close>

definition returned :: "pfa \<Rightarrow> nat set \<Rightarrow> nat set \<Rightarrow> pfa \<Rightarrow> bool" where
  "returned s L R t \<longleftrightarrow> buddy_inv t (L - R) \<and> covered t = covered s \<union> R
     \<and> s_total_frames t = s_total_frames s \<and> s_start_addr t = s_start_addr s \<and> s_percpu t = s_percpu s
     \<and> (\<forall>f. f \<notin> covered s \<union> R \<longrightarrow> s_pages t f = s_pages s f)
     \<and> s_free_frames t = s_free_frames s + int (card R)"

lemma returned_trans:
  assumes "returned s L R t" and "returned t (L - R) R' u" and "R \<inter> R' = {}" and "finite R" and "finite R'"
  shows "returned s L (R \<union> R') u"
proof -
  have "L - R - R' = L - (R \<union> R')" by auto
  then show ?thesis using assms by (simp add: returned_def card_Un_disjoint Un_assoc)
qed

lemma free_block_returned:
  assumes inv: "buddy_inv s L" and sub: "block b k \<subseteq> L" and al: "2 ^ k dvd b" and k: "k \<le> MAX_ORDER"
    and rc: "\<And>f. f \<in> block b k \<Longrightarrow> refcount (s_pages s f) = 0"
  obtains t where "buddy_free_nolock b k (clear_pages b (order_to_frames k) s) = Some t"
    and "returned s L (block b k) t"
proof -
  let ?c = "clear_pages b (order_to_frames k) s"
  have ci: "buddy_inv ?c L"
    using clear_pages_inv [OF inv, of b "order_to_frames k"] sub by (simp add: block_def order_to_frames_def)
  have cl: "clean ?c (block b k)"
    using rc by (simp add: clean_def clean_page_def clear_pages_page block_def order_to_frames_def)
  obtain t where t: "buddy_free_nolock b k ?c = Some t" "buddy_inv t (L - block b k)"
    "covered t = covered ?c \<union> block b k" "same_upto (covered ?c \<union> block b k) ?c t"
    "s_free_frames t = s_free_frames ?c + 2 ^ k"
    by (rule buddy_free_nolock_inv [OF ci sub cl al k])
  have "s_pages t f = s_pages s f" if "f \<notin> covered s \<union> block b k" for f
  proof -
    have "s_pages t f = s_pages ?c f" using t(4) that by (simp add: same_upto_def)
    moreover have "f \<notin> {b..<b + order_to_frames k}" using that by (simp add: block_def order_to_frames_def)
    ultimately show ?thesis by (simp only: clear_pages_page if_False)
  qed
  then have "returned s L (block b k) t"
    using t(2-5) by (simp add: returned_def same_upto_def block_def)
  then show thesis using that t(1) by simp
qed

lemma buddy_free_range_returned:
  assumes "buddy_inv s L" and "{b..<b + n} \<subseteq> L" and "\<And>f. f \<in> {b..<b + n} \<Longrightarrow> refcount (s_pages s f) = 0"
    and "n \<le> FREE_N_MAX"
  shows "\<exists>t. buddy_free_range b n s = Some t \<and> returned s L {b..<b + n} t"
  using assms
proof (induction b n s arbitrary: L rule: buddy_free_range.induct)
  case (1 b n s)
  show ?case
  proof (cases "n = 0")
    case True
    then show ?thesis using 1(2) by (subst buddy_free_range.simps) (simp add: returned_def)
  next
    case False
    define k where "k = free_range_order b n 0"
    have k: "2 ^ k \<le> n" "2 ^ k dvd b"
      unfolding k_def using free_range_order_props [of 0 b n] False by simp_all
    then have "(2 :: nat) ^ k \<le> 2 ^ MAX_ORDER" using 1(5) by simp
    then have kmax: "k \<le> MAX_ORDER" by (rule power_le_imp_le_exp [rotated]) simp
    have sub: "block b k \<subseteq> {b..<b + n}" using k(1) by (auto simp: block_def)
    obtain u where u: "buddy_free_nolock b k (clear_pages b (order_to_frames k) s) = Some u"
      and ret: "returned s L (block b k) u"
      by (rule free_block_returned [OF 1(2) _ k(2) kmax]) (use sub 1(3,4) in blast)+
    let ?R = "{b + 2 ^ k..<b + 2 ^ k + (n - 2 ^ k)}"
    have split: "{b..<b + n} = block b k \<union> ?R" "block b k \<inter> ?R = {}" using k(1) by (auto simp: block_def)
    have disj: "L \<inter> covered s = {}" using 1(2) by (simp add: buddy_inv_def limbo_inv_def)
    have rc: "refcount (s_pages u f) = 0" if "f \<in> ?R" for f
    proof -
      have "f \<in> L" "f \<notin> block b k" "f \<in> {b..<b + n}" using that split 1(3) by auto
      then have "s_pages u f = s_pages s f" using ret disj by (auto simp: returned_def)
      then show ?thesis using 1(4) \<open>f \<in> {b..<b + n}\<close> by simp
    qed
    have "buddy_inv u (L - block b k)" using ret by (simp add: returned_def)
    moreover have "?R \<subseteq> L - block b k" using split 1(3) by blast
    ultimately have "\<exists>t. buddy_free_range (b + 2 ^ k) (n - 2 ^ k) u = Some t \<and> returned u (L - block b k) ?R t"
      using 1(1) [OF False k_def refl _ _ _ rc, of "L - block b k"] u 1(5) by (simp add: order_to_frames_def)
    then obtain t where t: "buddy_free_range (b + 2 ^ k) (n - 2 ^ k) u = Some t"
      "returned u (L - block b k) ?R t" by blast
    have "returned s L {b..<b + n} t"
      unfolding split(1) by (rule returned_trans [OF ret t(2) split(2)]) simp_all
    moreover have "buddy_free_range b n s = Some t"
      using False u t(1) by (subst buddy_free_range.simps) (simp add: Let_def k_def [symmetric] order_to_frames_def)
    ultimately show ?thesis by blast
  qed
qed

section \<open>Contiguous allocation\<close>

lemma order_loop_bound:
  "k \<le> order_loop v k \<and> v < 2 ^ (order_loop v k - k) \<and> (v \<noteq> 0 \<longrightarrow> 2 ^ (order_loop v k - k) \<le> 2 * v)"
proof (induction v k rule: order_loop.induct)
  case (1 v k)
  show ?case
  proof (cases "v = 0")
    case True
    then show ?thesis by (subst (1 2 3) order_loop.simps) simp
  next
    case False
    have eq: "order_loop v k = order_loop (v div 2) (k + 1)" using False by (subst order_loop.simps) simp
    define r where "r = order_loop (v div 2) (k + 1) - (k + 1)"
    have ih: "k + 1 \<le> order_loop (v div 2) (k + 1)" "v div 2 < 2 ^ r"
      "v div 2 \<noteq> 0 \<longrightarrow> 2 ^ r \<le> 2 * (v div 2)"
      using 1 [OF False] by (simp_all add: r_def)
    then have r: "order_loop v k - k = Suc r" by (simp add: eq r_def)
    have "v < 2 ^ Suc r" using ih(2) by simp
    moreover have "2 ^ Suc r \<le> 2 * v"
    proof (cases "v div 2 = 0")
      case True
      then have "r = 0" unfolding r_def by (subst order_loop.simps) simp
      then show ?thesis using False by simp
    next
      case False
      then have "2 ^ r \<le> 2 * (v div 2)" using ih(3) by simp
      moreover have "2 * (v div 2) \<le> v" by simp
      ultimately have "2 ^ r \<le> v" by (rule order_trans)
      then show ?thesis by simp
    qed
    ultimately show ?thesis using ih(1) r by (simp add: eq)
  qed
qed

lemma frames_to_order_bounds:
  assumes "0 < n"
  shows "n \<le> 2 ^ frames_to_order n" and "2 ^ j < n \<longleftrightarrow> j < frames_to_order n"
proof -
  have le: "n \<le> 2 ^ frames_to_order n"
    using order_loop_bound [of 0 "n - 1"] by (auto simp: frames_to_order_def)
  then show "n \<le> 2 ^ frames_to_order n" .
  have "j < frames_to_order n" if "2 ^ j < n"
  proof -
    have "(2 :: nat) ^ j < 2 ^ frames_to_order n" using that le by (rule less_le_trans)
    then show ?thesis by simp
  qed
  moreover have "2 ^ j < n" if "j < frames_to_order n"
  proof -
    have n: "\<not> n \<le> 1" using that by (auto simp: frames_to_order_def)
    then have "2 ^ frames_to_order n \<le> 2 * (n - 1)"
      using order_loop_bound [of 0 "n - 1"] by (simp add: frames_to_order_def)
    moreover have "(2 :: nat) ^ Suc j \<le> 2 ^ frames_to_order n" using that by (intro power_increasing) simp_all
    ultimately have "2 * 2 ^ j \<le> 2 * (n - 1)" by simp
    then show ?thesis using n by simp
  qed
  ultimately show "2 ^ j < n \<longleftrightarrow> j < frames_to_order n" by blast
qed

lemma masked_bit: "bit (b AND push_bit k (NOT 0)) i \<longleftrightarrow> bit b i \<and> k \<le> i" for b :: u32
  by (auto simp: bit_and_iff bit_push_bit_iff bit_not_iff bit_mask_iff dest: bit_imp_le_length)

lemma reserve_pages_fields [simp]:
  "s_total_frames (reserve_pages f n s) = s_total_frames s" "s_start_addr (reserve_pages f n s) = s_start_addr s"
  "s_percpu (reserve_pages f n s) = s_percpu s" "s_free_frames (reserve_pages f n s) = s_free_frames s"
  "covered (reserve_pages f n s) = covered s" "cached (reserve_pages f n s) = cached s"
  by (induction n) (simp_all add: jlos_page_frame_mark_reserve_def)

lemma reserve_pages_page:
  "f + n \<le> s_total_frames s \<Longrightarrow> s_pages (reserve_pages f n s) i = (if i \<in> {f..<f + n}
     then (s_pages s i)\<lparr>occupied := True, refcount := 1, porder := ORDER_INVALID, ptype := TYPE_FREE,
       pt_present_count := 0\<rparr> else s_pages s i)"
  by (induction n) (auto simp: jlos_page_frame_mark_reserve_def)

lemma reserve_pages_inv: "buddy_inv s L \<Longrightarrow> {f..<f + n} \<subseteq> L \<Longrightarrow> buddy_inv (reserve_pages f n s) L"
proof (induction n)
  case (Suc n)
  have "f + n \<in> L" "{f..<f + n} \<subseteq> L" using Suc.prems(2) by auto
  with Suc show ?case by (simp add: jlos_page_frame_mark_reserve_def inv_set_page)
qed simp

text \<open>The last steps of \<open>alloc_n\<close>, on a block in transit.\<close>

definition hand_out :: "nat \<Rightarrow> nat \<Rightarrow> nat \<Rightarrow> pfa \<Rightarrow> pfa" where
  "hand_out f n k s = (set_page f (\<lambda>p. p\<lparr>porder := k\<rparr>) (reserve_pages f n s))\<lparr>s_free_frames := s_free_frames s - int n\<rparr>"

lemma hand_out_inv:
  assumes inv: "buddy_inv s {f..<f + n}" and n: "0 < n" and tot: "f + n \<le> s_total_frames s"
  shows "buddy_inv (hand_out f n k s) {}"
proof -
  let ?t = "set_page f (\<lambda>p. p\<lparr>porder := k\<rparr>) (reserve_pages f n s)"
  have "buddy_inv (reserve_pages f n s) {f..<f + n}" by (rule reserve_pages_inv [OF inv order_refl])
  then have "buddy_inv ?t {f..<f + n}" by (rule inv_set_page) (use n tot in \<open>simp_all add: reserve_pages_page\<close>)
  then have "buddy_inv ?t ({f..<f + n} - {f..<f + n})"
    by (rule inv_used) (use tot in \<open>simp add: reserve_pages_page in_use_def\<close>)
  then show ?thesis by (simp add: hand_out_def)
qed

lemma alloc_n_block:
  assumes inv: "buddy_inv s {}" and fb: "(f, j) \<in> free_blocks s" and kj: "k \<le> j" and n: "0 < n" "n \<le> 2 ^ k"
  obtains u v w where "buddy_remove f j s = Some u"
    and "(if k < j then jlos_page_frame_order_split f j k u else Some u) = Some v"
    and "(if 2 ^ k - n \<noteq> 0 then buddy_free_range (f + n) (2 ^ k - n) v else Some v) = Some w"
    and "buddy_inv (hand_out f n k w) {}" and "takes s {f..<f + n} (hand_out f n k w)"
    and "slack (hand_out f n k w) = slack s + int (2 ^ k - n)" and "s_percpu w = s_percpu s"
    and "s_free_frames w = s_free_frames s + int (2 ^ k - n)"
proof -
  obtain u v where u: "buddy_remove f j s = Some u" and sp: "jlos_page_frame_order_split f j k u = Some v"
    and iv: "buddy_inv v (block f k)" and cov: "covered v = covered s - block f k" and cl: "clean v (block f k)"
    and up: "same_upto (block f j) s v" and ff: "s_free_frames v = s_free_frames s" and bs: "block f k \<subseteq> covered s"
    by (rule remove_split_inv [OF inv fb kj])
  have sp': "(if k < j then jlos_page_frame_order_split f j k u else Some u) = Some v"
    using sp kj by (auto simp: jlos_page_frame_order_split_def)
  have jm: "j \<le> MAX_ORDER" using fb by (simp add: free_blocks_def)
  have pw: "(2 :: nat) ^ k \<le> FREE_N_MAX" using power_increasing [of k MAX_ORDER "2 :: nat"] kj jm by simp
  let ?R = "{f + n..<f + n + (2 ^ k - n)}"
  have R: "?R \<subseteq> block f k" "block f k - ?R = {f..<f + n}" "{f..<f + n} \<subseteq> block f k"
    using n by (auto simp: block_def)
  have "\<exists>w. buddy_free_range (f + n) (2 ^ k - n) v = Some w \<and> returned v (block f k) ?R w"
    by (rule buddy_free_range_returned [OF iv R(1)])
      (use cl subsetD [OF R(1)] pw in \<open>simp_all add: clean_def clean_page_def\<close>)
  then obtain w where w: "buddy_free_range (f + n) (2 ^ k - n) v = Some w" and ret: "returned v (block f k) ?R w"
    by blast
  have w': "(if 2 ^ k - n \<noteq> 0 then buddy_free_range (f + n) (2 ^ k - n) v else Some v) = Some w"
    using w by (auto simp: buddy_free_range.simps [of _ 0])
  have iw: "buddy_inv w {f..<f + n}" using ret R(2) by (simp add: returned_def)
  have tw: "s_total_frames w = s_total_frames s" "s_start_addr w = s_start_addr s" "cached w = cached s"
    using ret up by (simp_all add: returned_def same_upto_def cached_def)
  have cw: "covered w = covered s - {f..<f + n}"
    using ret R bs unfolding returned_def cov by blast
  have tot: "f + n \<le> s_total_frames w"
    using iw n(1) by (auto simp: buddy_inv_def frame_inv_def dest: subsetD [where c = "f + n - 1"])
  have inv': "buddy_inv (hand_out f n k w) {}" by (rule hand_out_inv [OF iw n(1) tot])
  have sub: "{f..<f + n} \<subseteq> covered s" using R(3) bs by (rule order_trans)
  have "cached s \<inter> covered s = {}" using inv by (simp add: buddy_inv_def cache_inv_def)
  then have fs: "free_set (hand_out f n k w) = free_set s - {f..<f + n}"
    using sub by (auto simp: free_set_def hand_out_def cw tw(3))
  have pg: "s_pages (hand_out f n k w) i = s_pages s i" if "i \<notin> free_set s" for i
  proof -
    have i: "i \<notin> covered s" "i \<notin> {f..<f + n}" "i \<noteq> f" "i \<notin> block f j" "i \<notin> block f k"
      using that sub n(1) covered_block [OF fb] bs subsetD [OF bs block_self] by (auto simp: free_set_def)
    then have "s_pages (hand_out f n k w) i = s_pages w i"
      using tot i(2,3) by (simp add: hand_out_def reserve_pages_page [OF tot] del: atLeastLessThan_iff)
    also have "\<dots> = s_pages v i" using ret i(1,5) R(1) unfolding returned_def cov by blast
    also have "\<dots> = s_pages s i" using up i(4) by (simp add: same_upto_def)
    finally show ?thesis .
  qed
  have "takes s {f..<f + n} (hand_out f n k w)"
    using fs pg sub tot tw by (auto simp: takes_def free_set_def hand_out_def reserve_pages_page)
  moreover have "slack (hand_out f n k w) = slack s + int (2 ^ k - n)"
  proof -
    have "card (covered w) = card (covered s) - n" using sub by (simp add: cw card_Diff_subset)
    moreover have "n \<le> card (covered s)" using card_mono [OF finite_covered [OF inv] sub] by simp
    moreover have "s_free_frames w = s_free_frames s + int (2 ^ k - n)" using ret ff by (simp add: returned_def)
    ultimately show ?thesis by (simp add: slack_def hand_out_def)
  qed
  moreover have "s_percpu w = s_percpu s" "s_free_frames w = s_free_frames s + int (2 ^ k - n)"
    using ret up ff by (simp_all add: returned_def same_upto_def)
  ultimately show thesis using that [OF u sp' w' inv'] by simp
qed

lemma alloc_n_cases:
  assumes inv: "buddy_inv s {}" and n: "0 < n" "n \<le> s_total_frames s"
  obtains (none) "jlos_page_frame_alloc_n n s = Some (s, None)" "\<forall>(g, j)\<in>free_blocks s. 2 ^ j < n"
    | (some) f t where "jlos_page_frame_alloc_n n s = Some (t, Some (frame_to_phys s f))" "buddy_inv t {}"
      "takes s {f..<f + n} t" "slack t = slack s + int (2 ^ frames_to_order n - n)"
      "porder (s_pages t f) = frames_to_order n" "f + n \<le> s_total_frames s" "n \<le> FREE_N_MAX"
      "s_percpu t = s_percpu s" "s_free_frames t = s_free_frames s - int n + int (2 ^ frames_to_order n - n)"
proof -
  define k where "k = frames_to_order n"
  define m where "m = s_free_order_bitmap s AND push_bit k (NOT 0)"
  have nk: "n \<le> 2 ^ k" unfolding k_def by (rule frames_to_order_bounds(1) [OF n(1)])
  have guard: "\<not> (n = 0 \<or> s_total_frames s < n)" using n by simp
  show thesis
  proof (cases "m = 0")
    case True
    have "2 ^ j < n" if "(g, j) \<in> free_blocks s" for g j
    proof -
      have "bit (s_free_order_bitmap s) j"
        using that inv by (auto simp: buddy_inv_def area_inv_def free_blocks_def)
      moreover have "\<not> bit m j" using True by simp
      ultimately have "j < k" by (simp only: m_def masked_bit) simp
      then show ?thesis by (simp only: k_def frames_to_order_bounds(2) [OF n(1)])
    qed
    moreover have "jlos_page_frame_alloc_n n s = Some (s, None)"
      unfolding jlos_page_frame_alloc_n_def if_not_P [OF guard] Let_def k_def [symmetric] m_def [symmetric]
        if_P [OF True] ..
    ultimately show thesis using none by blast
  next
    case False
    define j where "j = builtin_ctz m"
    have "bit m j" unfolding j_def by (rule builtin_ctz_props(2) [OF False])
    then have j: "bit (s_free_order_bitmap s) j" "k \<le> j" by (simp_all only: m_def masked_bit)
    obtain f rest where f: "s_free_area s j = f # rest" "(f, j) \<in> free_blocks s"
      using bitmap_area [OF inv j(1)] by blast
    obtain u v w where w: "buddy_remove f j s = Some u"
      "(if k < j then jlos_page_frame_order_split f j k u else Some u) = Some v"
      "(if 2 ^ k - n \<noteq> 0 then buddy_free_range (f + n) (2 ^ k - n) v else Some v) = Some w"
      "buddy_inv (hand_out f n k w) {}" "takes s {f..<f + n} (hand_out f n k w)"
      "slack (hand_out f n k w) = slack s + int (2 ^ k - n)" "s_percpu w = s_percpu s"
      "s_free_frames w = s_free_frames s + int (2 ^ k - n)"
      by (rule alloc_n_block [OF inv f(2) j(2) n(1) nk])
    have "s_start_addr (hand_out f n k w) = s_start_addr s" using w(5) by (simp add: takes_def)
    then have fp: "frame_to_phys (hand_out f n k w) f = frame_to_phys s f" by (simp add: frame_to_phys_def)
    have ho: "(set_page f (\<lambda>p. p\<lparr>porder := k\<rparr>) (reserve_pages f n w))\<lparr>s_free_frames := s_free_frames
        (set_page f (\<lambda>p. p\<lparr>porder := k\<rparr>) (reserve_pages f n w)) - int n\<rparr> = hand_out f n k w"
      by (simp add: hand_out_def)
    have "jlos_page_frame_alloc_n n s = Some (hand_out f n k w, Some (frame_to_phys s f))"
      unfolding jlos_page_frame_alloc_n_def if_not_P [OF guard] Let_def k_def [symmetric] m_def [symmetric]
        if_not_P [OF False] j_def [symmetric] f(1) list.case w(1) bind.bind_lunit order_to_frames_def w(2,3) ho fp ..
    moreover have "f + n \<le> s_total_frames s"
    proof -
      have "f + n - 1 \<in> {f..<f + n}" using n(1) by simp
      then have "f + n - 1 \<in> free_set s" using w(5) unfolding takes_def by blast
      then show ?thesis using free_set_less [OF inv] by fastforce
    qed
    moreover have "porder (s_pages (hand_out f n k w) f) = k" by (simp add: hand_out_def)
    moreover have "n \<le> FREE_N_MAX"
    proof -
      have "k \<le> MAX_ORDER" using f(2) j(2) by (simp add: free_blocks_def)
      then have "(2 :: nat) ^ k \<le> 2 ^ MAX_ORDER" by (rule power_increasing) simp
      then show ?thesis using nk by simp
    qed
    moreover have "s_percpu (hand_out f n k w) = s_percpu s"
      "s_free_frames (hand_out f n k w) = s_free_frames s - int n + int (2 ^ k - n)"
      using w(7,8) by (simp_all add: hand_out_def)
    ultimately show thesis using some [OF _ w(4,5)] w(6) by (simp add: k_def)
  qed
qed

section \<open>Returning contiguous frames\<close>

definition lower_counts :: "nat set \<Rightarrow> pfa \<Rightarrow> pfa" where
  "lower_counts F s = s\<lparr>s_pages := (\<lambda>f. if f \<in> F then (s_pages s f)\<lparr>refcount := refcount (s_pages s f) - 1\<rparr> else s_pages s f)\<rparr>"

lemma lower_counts_fields [simp]:
  "s_total_frames (lower_counts F s) = s_total_frames s" "s_start_addr (lower_counts F s) = s_start_addr s"
  "s_percpu (lower_counts F s) = s_percpu s" "s_free_frames (lower_counts F s) = s_free_frames s"
  "s_free_area (lower_counts F s) = s_free_area s" "s_free_order_bitmap (lower_counts F s) = s_free_order_bitmap s"
  "covered (lower_counts F s) = covered s" "cached (lower_counts F s) = cached s"
  "free_blocks (lower_counts F s) = free_blocks s"
  by (simp_all add: lower_counts_def covered_def cached_def free_blocks_def)

lemma lower_counts_page:
  "s_pages (lower_counts F s) f =
     (if f \<in> F then (s_pages s f)\<lparr>refcount := refcount (s_pages s f) - 1\<rparr> else s_pages s f)"
  by (simp add: lower_counts_def)

lemma drop_references_eq:
  assumes "\<And>j. i \<le> j \<Longrightarrow> j < i + k \<Longrightarrow> pfa_phys_to_frame s (p + of_nat j * 4096) = F + j"
    and "F + i + k \<le> s_total_frames s" and "length acc + k \<le> FREE_N_MAX"
    and "\<And>f. f \<in> {F + i..<F + i + k} \<Longrightarrow> 0 < refcount (s_pages s f)"
  shows "drop_references p i k acc s = Some (acc @ filter (\<lambda>f. refcount (s_pages s f) = 1) [F + i..<F + i + k],
    lower_counts {F + i..<F + i + k} s)"
  using assms
proof (induction k arbitrary: i acc s)
  case 0
  then show ?case by (simp add: lower_counts_def)
next
  case (Suc k)
  let ?f = "F + i"
  define u where "u = set_page ?f (\<lambda>p. p\<lparr>refcount := refcount (s_pages s ?f) - 1\<rparr>) s"
  define acc' where "acc' = (if refcount (s_pages s ?f) = 1 then acc @ [?f] else acc)"
  have fr: "pfa_phys_to_frame s (p + of_nat i * 4096) = ?f" using Suc.prems(1) by simp
  have lt: "\<not> s_total_frames s \<le> ?f" using Suc.prems(2) by simp
  have pos: "0 < refcount (s_pages s ?f)" using Suc.prems(4) by simp
  have step: "drop_references p i (Suc k) acc s = drop_references p (Suc i) k acc' u"
    using fr lt pos Suc.prems(3) by (simp add: Let_def u_def acc'_def)
  have pg: "s_pages u f = s_pages s f" if "f \<noteq> ?f" for f using that by (simp add: u_def)
  have "drop_references p (Suc i) k acc' u = Some (acc' @ filter (\<lambda>f. refcount (s_pages u f) = 1) [F + Suc i..<F + Suc i + k],
    lower_counts {F + Suc i..<F + Suc i + k} u)"
  proof (rule Suc.IH)
    fix j assume "Suc i \<le> j" "j < Suc i + k"
    then show "pfa_phys_to_frame u (p + of_nat j * 4096) = F + j"
      using Suc.prems(1) [of j] by (simp add: u_def pfa_phys_to_frame_def)
  qed (use Suc.prems in \<open>auto simp: u_def acc'_def\<close>)
  moreover have "filter (\<lambda>f. refcount (s_pages u f) = 1) [F + Suc i..<F + Suc i + k]
      = filter (\<lambda>f. refcount (s_pages s f) = 1) [F + Suc i..<F + Suc i + k]"
    by (rule filter_cong) (auto simp: pg)
  moreover have "lower_counts {F + Suc i..<F + Suc i + k} u = lower_counts {F + i..<F + i + Suc k} s"
    by (auto simp: lower_counts_def u_def set_page_def fun_eq_iff)
  moreover have "[F + i..<F + i + Suc k] = ?f # [F + Suc i..<F + Suc i + k]" by (simp add: upt_rec)
  ultimately show ?case using step by (simp add: acc'_def)
qed

lemma lower_counts_inv:
  assumes inv: "buddy_inv s {}" and F: "F \<inter> free_set s = {}" "F \<subseteq> {..< s_total_frames s}"
  shows "buddy_inv (lower_counts F s) {f \<in> F. refcount (s_pages s f) = 1}"
proof -
  let ?t = "lower_counts F s" and ?Z = "{f \<in> F. refcount (s_pages s f) = 1}"
  have use: "in_use (s_pages s f)" if "f \<in> F" for f
    using in_use_iff [OF inv, of f] that F by auto
  have pg: "s_pages ?t f = s_pages s f" if "f \<in> free_set s" for f
    using that F(1) by (auto simp: lower_counts_page)
  have "block_inv ?t"
    by (rule block_inv_cong [of s]) (use inv pg in \<open>auto simp: buddy_inv_def free_set_def\<close>)
  moreover have "cache_inv ?t"
    using inv pg by (auto simp: buddy_inv_def cache_inv_def clean_def free_set_def)
  moreover have "limbo_inv ?t ?Z"
    using F(1) use by (auto simp: limbo_inv_def free_set_def lower_counts_page in_use_def)
  moreover have "in_use (s_pages ?t f)" if "f < s_total_frames s" "f \<notin> free_set s" "f \<notin> ?Z" for f
    using in_use_iff [OF inv that(1)] that(2,3) by (auto simp: lower_counts_page in_use_def)
  then have "frame_inv ?t ?Z"
    using inv F(2) unfolding frame_inv_def buddy_inv_def free_set_def by auto
  ultimately show ?thesis using inv by (simp add: buddy_inv_def area_inv_def)
qed

lemma sort_frames_sorted: "sorted xs \<Longrightarrow> sort_frames xs = xs"
proof -
  have "sorted xs \<Longrightarrow> fold shift_in xs [] = rev xs"
  proof (induction xs rule: rev_induct)
    case (snoc x xs)
    then have "fold shift_in xs [] = rev xs" "\<forall>y\<in>set xs. y \<le> x" by (simp_all add: sorted_append)
    then show ?case by (cases "rev xs") (auto simp: rev_swap)
  qed simp
  then show "sorted xs \<Longrightarrow> sort_frames xs = xs" by (simp add: sort_frames_def)
qed

lemma free_runs_returned:
  assumes "buddy_inv s L" and "{b..<b + n} \<union> set fs \<subseteq> L" and "n + length fs \<le> FREE_N_MAX"
    and "\<And>f. f \<in> {b..<b + n} \<union> set fs \<Longrightarrow> refcount (s_pages s f) = 0"
    and "sorted_wrt (<) fs" and "\<forall>f\<in>set fs. b + n \<le> f"
  shows "\<exists>t. free_runs b n fs s = Some t \<and> returned s L ({b..<b + n} \<union> set fs) t"
  using assms
proof (induction fs arbitrary: b n s L)
  case Nil
  then show ?case using buddy_free_range_returned [of s L b n] by simp
next
  case (Cons f fs)
  show ?case
  proof (cases "f = b + n")
    case True
    then have eq: "{b..<b + n} \<union> set (f # fs) = {b..<b + (n + 1)} \<union> set fs" by auto
    have "\<forall>g\<in>set fs. b + (n + 1) \<le> g" using Cons.prems(5) True by auto
    then show ?thesis
      using Cons.IH [of s L b "n + 1"] Cons.prems(1-5) True unfolding eq by simp
  next
    case False
    have fs: "\<forall>g\<in>set fs. f + 1 \<le> g" "sorted_wrt (<) fs" using Cons.prems(5) by auto
    have disj: "{b..<b + n} \<inter> ({f..<f + 1} \<union> set fs) = {}" using Cons.prems(6) by auto
    have "\<exists>u. buddy_free_range b n s = Some u \<and> returned s L {b..<b + n} u"
      by (rule buddy_free_range_returned [OF Cons.prems(1)]) (use Cons.prems(2-4) in auto)
    then obtain u where u: "buddy_free_range b n s = Some u" "returned s L {b..<b + n} u" by blast
    have ld: "L \<inter> covered s = {}" using Cons.prems(1) by (simp add: buddy_inv_def limbo_inv_def)
    have "\<exists>t. free_runs f 1 fs u = Some t \<and> returned u (L - {b..<b + n}) ({f..<f + 1} \<union> set fs) t"
    proof (rule Cons.IH)
      show "buddy_inv u (L - {b..<b + n})" using u(2) by (simp add: returned_def)
      show "{f..<f + 1} \<union> set fs \<subseteq> L - {b..<b + n}" using disj Cons.prems(2) by auto
      fix g assume g: "g \<in> {f..<f + 1} \<union> set fs"
      then have "g \<in> L" "g \<notin> {b..<b + n}" using disj Cons.prems(2) by auto
      then have "s_pages u g = s_pages s g" using u(2) ld unfolding returned_def by blast
      then show "refcount (s_pages u g) = 0" using Cons.prems(4) g by auto
    qed (use Cons.prems(3) fs in auto)
    then obtain t where t: "free_runs f 1 fs u = Some t"
      "returned u (L - {b..<b + n}) ({f..<f + 1} \<union> set fs) t" by blast
    have eq: "{b..<b + n} \<union> set (f # fs) = {b..<b + n} \<union> ({f..<f + 1} \<union> set fs)" by auto
    have "returned s L ({b..<b + n} \<union> set (f # fs)) t"
      unfolding eq by (rule returned_trans [OF u(2) t(2) disj]) simp_all
    then show ?thesis using False u(1) t(1) by simp
  qed
qed

lemma phys_frame:
  assumes "F + j < s_total_frames s" and "s_total_frames s * 4096 \<le> 2 ^ 32"
  shows "pfa_phys_to_frame s (frame_to_phys s F + of_nat j * 4096) = F + j"
proof -
  have "frame_to_phys s F + of_nat j * 4096 - s_start_addr s = (of_nat ((F + j) * 4096) :: u32)"
    by (simp add: frame_to_phys_def algebra_simps)
  moreover have "unat (of_nat ((F + j) * 4096) :: u32) = (F + j) * 4096"
    using assms by (intro unat_of_nat_u32) simp
  ultimately have "unat (frame_to_phys s F + of_nat j * 4096 - s_start_addr s) = (F + j) * 4096" by (simp only:)
  then show ?thesis unfolding pfa_phys_to_frame_def unat_div by simp
qed

text \<open>Frames whose last reference \<open>free_n\<close> drops.\<close>

definition last_refs :: "pfa \<Rightarrow> nat \<Rightarrow> nat \<Rightarrow> nat set" where
  "last_refs s F n = {f \<in> {F..<F + n}. refcount (s_pages s f) = 1}"

lemma free_n_inv:
  assumes inv: "buddy_inv s {}" and tot: "F + n \<le> s_total_frames s" "s_total_frames s * 4096 \<le> 2 ^ 32"
    and n: "n \<le> FREE_N_MAX" and used: "{F..<F + n} \<inter> free_set s = {}"
    and head: "porder (s_pages s F) = ORDER_INVALID \<or> n \<le> 2 ^ porder (s_pages s F)"
  obtains t where "jlos_page_frame_free_n (frame_to_phys s F) n s = Some t" and "buddy_inv t {}"
    and "free_set t = free_set s \<union> last_refs s F n" and "slack t = slack s"
    and "s_total_frames t = s_total_frames s" and "s_start_addr t = s_start_addr s"
    and "\<And>f. f \<notin> free_set t \<Longrightarrow> s_pages t f = s_pages (lower_counts {F..<F + n} s) f"
proof -
  let ?p = "frame_to_phys s F" and ?u = "lower_counts {F..<F + n} s"
  define zs where "zs = filter (\<lambda>f. refcount (s_pages s f) = 1) [F..<F + n]"
  have Z: "set zs = last_refs s F n" "finite (last_refs s F n)" by (auto simp: zs_def last_refs_def)
  have pos: "0 < refcount (s_pages s f)" if "f \<in> {F..<F + n}" for f
    using in_use_iff [OF inv, of f] that used tot(1) by (auto simp: in_use_def)
  have drop: "drop_references ?p 0 n [] s = Some (zs, ?u)"
    using drop_references_eq [of 0 n s ?p F "[]"] phys_frame [OF _ tot(2)] tot(1) n pos
    by (simp add: zs_def)
  have iu: "buddy_inv ?u (last_refs s F n)"
    unfolding last_refs_def by (rule lower_counts_inv [OF inv used]) (use tot(1) in auto)
  show thesis
  proof (cases "zs = []")
    case True
    then have "last_refs s F n = {}" using Z by simp
    moreover have "jlos_page_frame_free_n ?p n s = Some ?u"
      using drop True by (simp add: jlos_page_frame_free_n_def)
    ultimately show thesis
      using that [of ?u] iu by (simp add: free_set_def slack_def)
  next
    case False
    then obtain b fs where bs: "zs = b # fs" by (cases zs) auto
    have n0: "0 < n" using False by (cases n) (auto simp: zs_def)
    have ss: "sorted_wrt (<) zs" unfolding zs_def by (rule sorted_wrt_filter) simp
    have "sorted zs" unfolding zs_def by (rule sorted_wrt_filter) simp
    then have sort: "sort_frames zs = zs" by (rule sort_frames_sorted)
    have "pfa_phys_to_frame s ?p = F" using phys_frame [of F 0 s] tot n0 by simp
    then have hd: "\<not> (pfa_phys_to_frame s ?p < s_total_frames ?u
        \<and> porder (s_pages ?u (pfa_phys_to_frame s ?p)) \<noteq> ORDER_INVALID
        \<and> order_to_frames (porder (s_pages ?u (pfa_phys_to_frame s ?p))) < n)"
      using head by (auto simp: lower_counts_page order_to_frames_def)
    have set: "{b..<b + 1} \<union> set fs = last_refs s F n" using Z(1) bs by auto
    have "length zs \<le> n" unfolding zs_def by (rule order_trans [OF length_filter_le]) simp
    then have "\<exists>t. free_runs b 1 fs ?u = Some t \<and> returned ?u (last_refs s F n) ({b..<b + 1} \<union> set fs) t"
      by (intro free_runs_returned [OF iu])
        (use set bs n ss in \<open>auto simp: last_refs_def lower_counts_page\<close>)
    then obtain t where t: "free_runs b 1 fs ?u = Some t" "returned ?u (last_refs s F n) (last_refs s F n) t"
      unfolding set by blast
    have "jlos_page_frame_free_n ?p n s = Some t"
      unfolding jlos_page_frame_free_n_def Let_def drop bind.bind_lunit case_prod_conv if_not_P [OF False] if_not_P [OF hd]
        sort unfolding bs list.case t(1) ..
    moreover have "last_refs s F n \<inter> covered s = {}" using used by (auto simp: last_refs_def free_set_def)
    then have "card (covered s \<union> last_refs s F n) = card (covered s) + card (last_refs s F n)"
      by (subst card_Un_disjoint) (use finite_covered [OF inv] Z(2) in auto)
    then have "slack t = slack s" using t(2) by (simp add: returned_def slack_def)
    moreover have "cached t = cached s" using t(2) by (simp add: returned_def cached_def)
    then have "free_set t = free_set s \<union> last_refs s F n" using t(2) by (auto simp: returned_def free_set_def)
    ultimately show thesis using that [of t] t(2) by (simp add: returned_def free_set_def)
  qed
qed

section \<open>Correctness of the exported operations\<close>

text \<open>A small allocator for the examples: four free frames in one block.\<close>

definition pfa4 :: pfa where
  "pfa4 = \<lparr>s_total_frames = 4, s_start_addr = 0x100000, s_free_frames = 4, s_free_order_bitmap = 4,
     s_pages = (\<lambda>f. \<lparr>occupied = False, ptype = TYPE_FREE, porder = (if f = 0 then 2 else ORDER_INVALID),
       pt_present_count = 0, refcount = 0, owner = 0\<rparr>),
     s_free_area = (\<lambda>k. if k = 2 then [0] else []), s_percpu = (\<lambda>_. [])\<rparr>"

lemma pfa4_fields [simp]:
  "s_total_frames pfa4 = 4" "s_free_frames pfa4 = 4" "s_free_order_bitmap pfa4 = 4" "s_percpu pfa4 c = []"
  "s_free_area pfa4 k = (if k = 2 then [0] else [])" "occupied (s_pages pfa4 f) = False"
  "porder (s_pages pfa4 f) = (if f = 0 then 2 else ORDER_INVALID)" "refcount (s_pages pfa4 f) = 0"
  by (simp_all add: pfa4_def)

lemma pfa4_covered: "covered pfa4 = {..<4}" "free_blocks pfa4 = {(0, 2)}" "cached pfa4 = {}"
  by (auto simp: covered_def free_blocks_def block_def cached_def split: if_splits)

lemma pfa4_inv: "buddy_inv pfa4 {}"
proof -
  have "bit (4 :: u32) k \<longleftrightarrow> k = 2" for k
    using bit_exp_iff [of 2 k, where 'a = "32 word"] by auto
  then have "area_inv pfa4" by (simp add: area_inv_def)
  moreover have "block_inv pfa4"
    by (rule block_invI)
      (auto simp: pfa4_covered(2) block_ok_def clean_def clean_page_def)
  moreover have "cache_inv pfa4" "limbo_inv pfa4 {}" "frame_inv pfa4 {}"
    by (auto simp: cache_inv_def limbo_inv_def frame_inv_def clean_def pfa4_covered)
  ultimately show ?thesis by (simp add: buddy_inv_def)
qed

text \<open>
  C3: on an allocator that satisfies the buddy invariant, \<open>jlos_page_frame_malloc\<close> never
  halts, keeps the invariant and the exactness of the free-frame counter, and either
  hands out one frame that was free, or returns null when both the CPU's cache and the
  buddy lists are empty.
\<close>

theorem page_malloc_correct:
  assumes "buddy_inv s {}"
  shows "\<exists>t r. jlos_page_frame_malloc c s = Some (t, r) \<and> buddy_inv t {} \<and> slack t = slack s
    \<and> (case r of None \<Rightarrow> covered s = {} \<and> s_percpu s c = [] \<and> free_set t = free_set s
       | Some p \<Rightarrow> \<exists>f. p = frame_to_phys s f \<and> takes s {f} t)"
proof (cases rule: malloc_cases [OF assms, of c, case_names empty frame])
  case (empty t)
  then show ?thesis by (auto simp: shuffle_def)
next
  case (frame t f)
  then show ?thesis by auto
qed

theorem page_malloc_correct_witness:
  "\<exists>t r. jlos_page_frame_malloc 0 pfa4 = Some (t, r) \<and> buddy_inv t {} \<and> slack t = slack pfa4
    \<and> (case r of None \<Rightarrow> covered pfa4 = {} \<and> s_percpu pfa4 0 = [] \<and> free_set t = free_set pfa4
       | Some p \<Rightarrow> \<exists>f. p = frame_to_phys pfa4 f \<and> takes pfa4 {f} t)"
  using page_malloc_correct [OF pfa4_inv, of 0] .

lemma page_free_cases:
  assumes inv: "buddy_inv s {}" and f: "f < s_total_frames s" "s_total_frames s * 4096 \<le> 2 ^ 32"
  shows "case jlos_page_frame_free c (frame_to_phys s f) s of
      None \<Rightarrow> f \<in> free_set s
    | Some t \<Rightarrow> f \<notin> free_set s \<and> buddy_inv t {} \<and> slack t = slack s
        \<and> free_set t = free_set s \<union> (if refcount (s_pages s f) = 1 then {f} else {})
        \<and> refcount (s_pages t f) = refcount (s_pages s f) - 1
        \<and> (\<forall>g. g \<notin> free_set s \<union> {f} \<longrightarrow> s_pages t g = s_pages s g)"
proof -
  have fr: "pfa_phys_to_frame s (frame_to_phys s f) = f" using phys_frame [of f 0 s] f by simp
  consider (double) "f \<in> free_set s" | (last) "f \<notin> free_set s" "refcount (s_pages s f) = 1"
    | (shared) "f \<notin> free_set s" "1 < refcount (s_pages s f)"
    using in_use_iff [OF inv f(1)] by (force simp: in_use_def)
  then show ?thesis
  proof cases
    case double
    then have "refcount (s_pages s f) = 0" by (rule free_refcount [OF inv])
    then show ?thesis using double f(1) fr
      by (simp add: jlos_page_frame_free_def jlos_page_frame_refcount_dec_def Let_def)
  next
    case last
    obtain t where t: "jlos_page_frame_refcount_dec c (frame_to_phys s f) s = Some t" "buddy_inv t {}"
      "drops s {f} t" "slack t = slack s" by (rule refcount_dec_last [OF inv fr f(1) last(2)])
    have "refcount (s_pages t f) = 0" using free_refcount [OF t(2), of f] t(3) by (simp add: drops_def)
    then show ?thesis using last t by (simp add: jlos_page_frame_free_def drops_def)
  next
    case shared
    let ?t = "set_page f (\<lambda>p. p\<lparr>refcount := refcount (s_pages s f) - 1\<rparr>) s"
    have use: "in_use (s_pages s f)" using in_use_iff [OF inv f(1)] shared(1) by simp
    have "buddy_inv s ({} \<union> {f})" by (rule inv_take [OF inv]) (use shared(1) f(1) use in \<open>auto simp: in_use_def\<close>)
    then have "buddy_inv ?t {f}" using use by (intro inv_set_page) (simp_all add: in_use_def)
    then have "buddy_inv ?t ({f} - {f})"
      by (rule inv_used) (use use shared(2) in \<open>simp add: in_use_def\<close>)
    moreover have "jlos_page_frame_free c (frame_to_phys s f) s = Some ?t"
      using shared(2) f(1) fr by (simp add: jlos_page_frame_free_def jlos_page_frame_refcount_dec_def Let_def)
    ultimately show ?thesis using shared by (simp add: free_set_def slack_def)
  qed
qed

text \<open>
  C9: releasing a page frame halts exactly on a double free. Otherwise one reference is
  dropped, the frame becomes free if it was the last one, the invariant and the counter
  stay exact, and every other frame in use keeps its page record.
\<close>

theorem page_free_correct:
  assumes inv: "buddy_inv s {}" and f: "f < s_total_frames s" "s_total_frames s * 4096 \<le> 2 ^ 32"
  shows "case jlos_page_frame_free c (frame_to_phys s f) s of
      None \<Rightarrow> f \<in> free_set s
    | Some t \<Rightarrow> f \<notin> free_set s \<and> buddy_inv t {} \<and> slack t = slack s
        \<and> free_set t = free_set s \<union> (if refcount (s_pages s f) = 1 then {f} else {})
        \<and> refcount (s_pages t f) = refcount (s_pages s f) - 1
        \<and> (\<forall>g. g \<notin> free_set s \<union> {f} \<longrightarrow> s_pages t g = s_pages s g)"
  by (rule page_free_cases [OF assms])

theorem page_free_correct_witness:
  "case jlos_page_frame_free 0 (frame_to_phys pfa4 3) pfa4 of
      None \<Rightarrow> 3 \<in> free_set pfa4
    | Some t \<Rightarrow> 3 \<notin> free_set pfa4 \<and> buddy_inv t {} \<and> slack t = slack pfa4
        \<and> free_set t = free_set pfa4 \<union> (if refcount (s_pages pfa4 3) = 1 then {3} else {})
        \<and> refcount (s_pages t 3) = refcount (s_pages pfa4 3) - 1
        \<and> (\<forall>g. g \<notin> free_set pfa4 \<union> {3} \<longrightarrow> s_pages t g = s_pages pfa4 g)"
  by (rule page_free_correct [OF pfa4_inv]) simp_all

text \<open>
  C20: \<open>jlos_page_frame_alloc_n\<close> never halts on an allocator that satisfies the invariant. It
  returns null and changes nothing exactly when no free block is large enough, and
  otherwise hands out \<open>n\<close> adjacent frames that were all free.
\<close>

theorem page_alloc_n_correct:
  assumes "buddy_inv s {}" and "0 < n" and "n \<le> s_total_frames s"
  shows "\<exists>t r. jlos_page_frame_alloc_n n s = Some (t, r) \<and> buddy_inv t {}
    \<and> (case r of None \<Rightarrow> t = s \<and> (\<forall>(g, j)\<in>free_blocks s. 2 ^ j < n)
       | Some p \<Rightarrow> \<exists>f. p = frame_to_phys s f \<and> takes s {f..<f + n} t \<and> porder (s_pages t f) = frames_to_order n)"
proof (cases rule: alloc_n_cases [OF assms, case_names none some])
  case none
  then show ?thesis using assms(1) by simp
next
  case (some f t)
  then show ?thesis by auto
qed

theorem page_alloc_n_correct_witness:
  "\<exists>t r. jlos_page_frame_alloc_n 3 pfa4 = Some (t, r) \<and> buddy_inv t {}
    \<and> (case r of None \<Rightarrow> t = pfa4 \<and> (\<forall>(g, j)\<in>free_blocks pfa4. 2 ^ j < (3 :: nat))
       | Some p \<Rightarrow> \<exists>f. p = frame_to_phys pfa4 f \<and> takes pfa4 {f..<f + 3} t
           \<and> porder (s_pages t f) = frames_to_order 3)"
  by (rule page_alloc_n_correct [OF pfa4_inv]) simp_all

lemma last_refs_taken: "takes s {f..<f + n} t \<Longrightarrow> last_refs t f n = {f..<f + n}"
  by (auto simp: takes_def last_refs_def)

lemma alloc_then_free:
  assumes inv: "buddy_inv s {}" and n: "0 < n" "n \<le> s_total_frames s" and tot: "s_total_frames s * 4096 \<le> 2 ^ 32"
    and al: "jlos_page_frame_alloc_n n s = Some (t, Some p)"
  obtains u where "jlos_page_frame_free_n p n t = Some u" and "buddy_inv u {}" and "free_set u = free_set s"
    and "slack u = slack s + int (2 ^ frames_to_order n - n)"
proof (cases rule: alloc_n_cases [OF inv n, case_names none some])
  case none
  then show thesis using al by simp
next
  case (some f v)
  have eq: "v = t" "p = frame_to_phys s f" using al some(1) by simp_all
  have tk: "takes s {f..<f + n} t" using some(3) eq by simp
  have tt: "s_total_frames t = s_total_frames s" "frame_to_phys t f = p" "free_set t = free_set s - {f..<f + n}"
    "{f..<f + n} \<subseteq> free_set s"
    using tk eq by (simp_all add: takes_def frame_to_phys_def)
  obtain u where u: "jlos_page_frame_free_n (frame_to_phys t f) n t = Some u" "buddy_inv u {}"
    "free_set u = free_set t \<union> last_refs t f n" "slack u = slack t"
    by (rule free_n_inv [of t f n])
      (use some eq tt tot frames_to_order_bounds(1) [OF n(1)] in \<open>auto\<close>)
  have "free_set u = free_set s" using u(3) tt(3,4) unfolding last_refs_taken [OF tk] by blast
  then show thesis using that [of u] u(1,2,4) some(4) eq tt(2) by simp
qed

text \<open>
  C21: freeing what \<open>jlos_page_frame_alloc_n\<close> handed out succeeds and gives back exactly the
  set of free frames from before the allocation, with the invariant intact.
\<close>

theorem page_alloc_free_roundtrip:
  assumes "buddy_inv s {}" and "0 < n" and "n \<le> s_total_frames s" and "s_total_frames s * 4096 \<le> 2 ^ 32"
    and "jlos_page_frame_alloc_n n s = Some (t, Some p)"
  shows "\<exists>u. jlos_page_frame_free_n p n t = Some u \<and> buddy_inv u {} \<and> free_set u = free_set s"
  by (rule alloc_then_free [OF assms]) blast

lemma get_free_sum:
  "jlos_page_frame_get_free m s = of_int (s_free_frames s) + (\<Sum>c\<leftarrow>[0..<m]. of_nat (length (s_percpu s c)))"
proof -
  have "fold (\<lambda>c n. n + g c) xs b = b + (\<Sum>c\<leftarrow>xs. g c)" for g :: "nat \<Rightarrow> u32" and xs b
    by (induction xs arbitrary: b) (simp_all add: add.assoc)
  then show ?thesis by (simp add: jlos_page_frame_get_free_def)
qed

text \<open>
  C38: the free-frame counter drifts. An allocation of \<open>n\<close> adjacent frames takes exactly
  \<open>n\<close> frames off the free ones, but the number of free frames that the allocator reports, a
  32-bit value, falls by \<open>n\<close> less the frames trimmed from the block: the trimming goes through
  \<open>buddy_free_range\<close>, which adds frames to the counter that were never subtracted.
\<close>

theorem page_counter_drift:
  assumes "buddy_inv s {}" and "0 < n" and "n \<le> s_total_frames s" and "jlos_page_frame_alloc_n n s = Some (t, Some p)"
  shows "card (free_set t) + n = card (free_set s)
    \<and> jlos_page_frame_get_free num_cpus t
      = jlos_page_frame_get_free num_cpus s - of_nat n + of_nat (2 ^ frames_to_order n - n)"
proof (cases rule: alloc_n_cases [OF assms(1-3), case_names none some])
  case none
  then show ?thesis using assms(4) by simp
next
  case (some f v)
  then have t: "v = t" using assms(4) by simp
  have tk: "{f..<f + n} \<subseteq> free_set s" "free_set t = free_set s - {f..<f + n}" using some(3) t by (simp_all add: takes_def)
  have fin: "finite (free_set s)" using free_set_less [OF assms(1)] by (auto intro: finite_subset [of _ "{..<s_total_frames s}"])
  have "card (free_set t) + n = card (free_set s)"
    using card_Diff_subset [of "{f..<f + n}"] card_mono [OF fin tk(1)] tk by simp
  moreover have "jlos_page_frame_get_free num_cpus t
      = jlos_page_frame_get_free num_cpus s - of_nat n + of_nat (2 ^ frames_to_order n - n)"
    using some(8,9) t get_free_sum [of num_cpus t] get_free_sum [of num_cpus s] by simp
  ultimately show ?thesis ..
qed

lemma pfa4_alloc: "\<exists>t p. jlos_page_frame_alloc_n 3 pfa4 = Some (t, Some p)"
proof (cases rule: alloc_n_cases [OF pfa4_inv, of 3, case_names pos le none some])
  case none
  then show ?thesis by (simp add: pfa4_covered)
qed auto

theorem page_alloc_free_roundtrip_witness:
  "\<exists>t p u. jlos_page_frame_alloc_n 3 pfa4 = Some (t, Some p) \<and> jlos_page_frame_free_n p 3 t = Some u
     \<and> buddy_inv u {} \<and> free_set u = {..<4}"
proof -
  obtain t p where a: "jlos_page_frame_alloc_n 3 pfa4 = Some (t, Some p)" using pfa4_alloc by blast
  have "\<exists>u. jlos_page_frame_free_n p 3 t = Some u \<and> buddy_inv u {} \<and> free_set u = free_set pfa4"
    by (rule page_alloc_free_roundtrip [OF pfa4_inv _ _ _ a]) simp_all
  then show ?thesis using a by (auto simp: free_set_def pfa4_covered)
qed

theorem page_counter_drift_witness:
  "\<exists>t p. jlos_page_frame_alloc_n 3 pfa4 = Some (t, Some p) \<and> card (free_set t) = 1
     \<and> jlos_page_frame_get_free 1 t = 2"
proof -
  obtain t p where a: "jlos_page_frame_alloc_n 3 pfa4 = Some (t, Some p)" using pfa4_alloc by blast
  have h: "0 < (3 :: nat)" "3 \<le> s_total_frames pfa4" by simp_all
  have "frames_to_order 3 = 2" by (simp add: frames_to_order_def order_loop.simps)
  moreover have "jlos_page_frame_get_free 1 pfa4 = 4" by (simp add: jlos_page_frame_get_free_def)
  moreover have "card (free_set pfa4) = 4" by (simp add: free_set_def pfa4_covered)
  ultimately have "card (free_set t) = 1 \<and> jlos_page_frame_get_free 1 t = 2"
    using page_counter_drift [OF pfa4_inv h a, of 1] by simp
  then show ?thesis using a by blast
qed

end
