(* ===== verification/Page_Init.thy ===== *)
theory Page_Init
  imports Page_Alloc
begin

text \<open>
  The initialisation of the page frame allocator: whatever the boot memory map says, it
  never halts and ends in a state that satisfies the buddy invariant with an exact counter of
  the frames on the buddy lists. None of these lies in the kernel image or in the boot heap; the
  only frame of the kernel image that is free is the released root of the boot page tables.
\<close>

section \<open>Marking\<close>

text \<open>Before the lists are filled, every frame is blank or reserved.\<close>

definition boot_page :: "jlos_page \<Rightarrow> bool" where
  "boot_page p \<longleftrightarrow> porder p = ORDER_INVALID \<and> (clean_page p \<or> in_use p \<and> refcount p = 1)"

definition boot_state :: "pfa \<Rightarrow> bool" where
  "boot_state s \<longleftrightarrow> s_free_area s = (\<lambda>_. []) \<and> s_percpu s = (\<lambda>_. []) \<and> s_free_order_bitmap s = 0
     \<and> (\<forall>f < s_total_frames s. boot_page (s_pages s f))"

definition grows_occupied :: "pfa \<Rightarrow> pfa \<Rightarrow> bool" where
  "grows_occupied s t \<longleftrightarrow> s_total_frames t = s_total_frames s \<and> s_start_addr t = s_start_addr s
     \<and> (\<forall>f. occupied (s_pages s f) \<longrightarrow> occupied (s_pages t f))"

lemma grows_refl [simp]: "grows_occupied s s"
  by (simp add: grows_occupied_def)

lemma grows_trans: "grows_occupied s t \<Longrightarrow> grows_occupied t u \<Longrightarrow> grows_occupied s u"
  by (simp add: grows_occupied_def)

lemma mark_reserve_boot:
  "boot_state s \<Longrightarrow> boot_state (jlos_page_frame_mark_reserve f s)"
  "grows_occupied s (jlos_page_frame_mark_reserve f s)"
  "f < s_total_frames s \<Longrightarrow> occupied (s_pages (jlos_page_frame_mark_reserve f s) f)"
  by (simp_all add: boot_state_def grows_occupied_def jlos_page_frame_mark_reserve_def boot_page_def in_use_def)

lemma mark_recycle_boot:
  "boot_state s \<Longrightarrow> boot_state (jlos_page_frame_mark_recycle f s)"
  by (auto simp: boot_state_def jlos_page_frame_mark_recycle_def boot_page_def clean_page_def)

lemma mark_recycle_other:
  "g \<noteq> f \<Longrightarrow> s_pages (jlos_page_frame_mark_recycle f s) g = s_pages s g"
  "s_total_frames (jlos_page_frame_mark_recycle f s) = s_total_frames s"
  "s_start_addr (jlos_page_frame_mark_recycle f s) = s_start_addr s"
  by (simp_all add: jlos_page_frame_mark_recycle_def)

lemma for_frames_reserve:
  "boot_state s \<Longrightarrow> boot_state (for_frames jlos_page_frame_mark_reserve i k s)
     \<and> grows_occupied s (for_frames jlos_page_frame_mark_reserve i k s)
     \<and> (\<forall>f. i \<le> f \<and> f < i + k \<and> f < s_total_frames s
          \<longrightarrow> occupied (s_pages (for_frames jlos_page_frame_mark_reserve i k s) f))"
proof (induction k arbitrary: i s)
  case (Suc k)
  let ?r = "jlos_page_frame_mark_reserve i s"
  note ih = Suc.IH [OF mark_reserve_boot(1) [OF Suc.prems], of "Suc i" i]
  have g: "grows_occupied s ?r" by (rule mark_reserve_boot(2))
  have "occupied (s_pages (for_frames jlos_page_frame_mark_reserve (Suc i) k ?r) f)"
    if "i \<le> f" "f < i + Suc k" "f < s_total_frames s" for f
  proof (cases "f = i")
    case True
    then have "occupied (s_pages ?r f)" using mark_reserve_boot(3) that(3) by simp
    then show ?thesis using ih by (simp add: grows_occupied_def)
  next
    case False
    then show ?thesis using ih g that by (simp add: grows_occupied_def)
  qed
  then show ?case using ih grows_trans [OF g] by simp
qed auto

lemma for_frames_recycle:
  "boot_state s \<Longrightarrow> boot_state (for_frames jlos_page_frame_mark_recycle i k s)
     \<and> s_total_frames (for_frames jlos_page_frame_mark_recycle i k s) = s_total_frames s
     \<and> s_start_addr (for_frames jlos_page_frame_mark_recycle i k s) = s_start_addr s
     \<and> (\<forall>f < i. s_pages (for_frames jlos_page_frame_mark_recycle i k s) f = s_pages s f)"
  by (induction k arbitrary: i s) (simp_all add: mark_recycle_boot mark_recycle_other)

lemma mark_occupied_loop_boot:
  "boot_state s \<Longrightarrow> i + k \<le> s_total_frames s \<Longrightarrow>
   \<exists>t. mark_occupied_loop i k s = Some t \<and> boot_state t \<and> grows_occupied s t
     \<and> (\<forall>f. i \<le> f \<and> f < i + k \<longrightarrow> occupied (s_pages t f))"
proof (induction k arbitrary: i s)
  case (Suc k)
  let ?r = "if occupied (s_pages s i) then s else jlos_page_frame_mark_reserve i s"
  have g: "grows_occupied s ?r" and b: "boot_state ?r" using mark_reserve_boot Suc.prems(1) by simp_all
  have "porder (s_pages s i) = ORDER_INVALID" using Suc.prems by (simp add: boot_state_def boot_page_def)
  then have step: "mark_occupied_loop i (Suc k) s = mark_occupied_loop (Suc i) k ?r" by (simp add: Let_def)
  have le: "Suc i + k \<le> s_total_frames ?r" using g Suc.prems(2) by (simp add: grows_occupied_def)
  obtain t where t: "mark_occupied_loop (Suc i) k ?r = Some t" "boot_state t" "grows_occupied ?r t"
    "\<And>f. Suc i \<le> f \<Longrightarrow> f < Suc i + k \<Longrightarrow> occupied (s_pages t f)"
    using Suc.IH [OF b le] by blast
  have "occupied (s_pages ?r i)" using mark_reserve_boot(3) Suc.prems(2) by simp
  then have "occupied (s_pages t i)" using t(3) unfolding grows_occupied_def by blast
  then have "occupied (s_pages t f)" if "i \<le> f" "f < i + Suc k" for f
    using t(4) [of f] that by (cases "f = i") simp_all
  then show ?case using step t(1,2) grows_trans [OF g t(3)] by auto
qed auto

lemma mark_occupied_boot:
  assumes "boot_state s"
  shows "\<exists>t. jlos_page_frame_mark_occupied ps pe s = Some t \<and> boot_state t \<and> grows_occupied s t
    \<and> (ps < pe \<longrightarrow> (\<forall>f < s_total_frames s. pfa_phys_to_frame s ps \<le> f
         \<and> f < unat (JLOS_EXCEPT_CEIL (pe - s_start_addr s) 4096) \<longrightarrow> occupied (s_pages t f)))"
proof (cases "pe \<le> ps \<or> s_total_frames s \<le> pfa_phys_to_frame s ps")
  case True
  then have "jlos_page_frame_mark_occupied ps pe s = Some s" by (auto simp: jlos_page_frame_mark_occupied_def Let_def)
  then show ?thesis using True assms by auto
next
  case False
  define i where "i = pfa_phys_to_frame s ps"
  define e where "e = unat (JLOS_EXCEPT_CEIL (pe - s_start_addr s) 4096)"
  define e' where "e' = (if s_total_frames s < e then s_total_frames s else e)"
  have eq: "jlos_page_frame_mark_occupied ps pe s = mark_occupied_loop i (e' - i) s"
    using False by (simp add: jlos_page_frame_mark_occupied_def Let_def i_def e_def e'_def)
  have "i + (e' - i) \<le> s_total_frames s" using False by (auto simp: i_def e'_def)
  from mark_occupied_loop_boot [OF assms this]
  obtain t where t: "mark_occupied_loop i (e' - i) s = Some t" "boot_state t" "grows_occupied s t"
    "\<And>f. i \<le> f \<Longrightarrow> f < i + (e' - i) \<Longrightarrow> occupied (s_pages t f)" by blast
  have "occupied (s_pages t f)" if "f < s_total_frames s" "i \<le> f" "f < e" for f
    using that by (intro t(4)) (auto simp: e'_def)
  then show ?thesis using eq t by (auto simp: i_def e_def)
qed

text \<open>An address inside an unusable region and inside the managed range.\<close>

definition unusable_at :: "u32 \<Rightarrow> u32 \<Rightarrow> boot_mem \<Rightarrow> nat \<Rightarrow> bool" where
  "unusable_at ps pe m a \<longleftrightarrow> \<not> bm_usable m \<and> unat (bm_addr m) + unat (bm_size m) < 2 ^ 64
     \<and> unat (bm_addr m) \<le> a \<and> a < unat (bm_addr m) + unat (bm_size m) \<and> unat ps \<le> a \<and> a < unat pe"

lemma ceil_4096: "unat x + 4096 \<le> 2 ^ 32 \<Longrightarrow> unat (JLOS_EXCEPT_CEIL x 4096) = (unat x + 4095) div 4096" for x :: u32
proof -
  assume "unat x + 4096 \<le> 2 ^ 32"
  then have "unat (x + 4095) = unat x + 4095" by (subst unat_plus_noov) simp_all
  then show ?thesis unfolding JLOS_EXCEPT_CEIL_def unat_div by (simp add: add_diff_eq [symmetric])
qed

lemma clamp_low: "unat (if start < ucast ps then ps else ucast start :: u32) = max (unat start) (unat ps)"
  if "unat start < 2 ^ 32" for start :: u64 and ps :: u32
  using that by (auto simp: word_less_nat_alt unat_ucast64 unat_ucast32 max_def)

lemma clamp_high: "unat (if ucast pe < fin then pe else ucast fin :: u32) = min (unat fin) (unat pe)"
  for fin :: u64 and pe :: u32
proof (cases "ucast pe < fin")
  case False
  then have "unat fin \<le> unat pe" by (simp add: word_less_nat_alt unat_ucast64)
  moreover from this have "unat fin < 2 ^ 32" using le_less_trans [OF _ unat_lt_pow2 [of pe]] by simp
  ultimately show ?thesis using False by (simp add: unat_ucast32)
qed (simp add: word_less_nat_alt unat_ucast64)

lemma mark_boot_mem_boot:
  assumes bs: "boot_state s" and ps: "s_start_addr s = ps" and r: "unat pe \<le> unat ps + 2 ^ 32 - 4096"
  shows "\<exists>t. mark_boot_mem ps pe m s = Some t \<and> boot_state t \<and> grows_occupied s t
    \<and> (\<forall>a. unusable_at ps pe m a \<and> (a - unat ps) div 4096 < s_total_frames s
          \<longrightarrow> occupied (s_pages t ((a - unat ps) div 4096)))"
proof -
  define start where "start = bm_addr m"
  define fin where "fin = start + bm_size m"
  define s32 where "s32 = (if start < ucast ps then ps else ucast start)"
  define e32 where "e32 = (if ucast pe < fin then pe else ucast fin)"
  show ?thesis
  proof (cases "bm_usable m \<or> fin \<le> ucast ps \<or> ucast pe \<le> start \<or> \<not> s32 < e32")
    case True
    have "mark_boot_mem ps pe m s = Some s"
      using True by (auto simp: mark_boot_mem_def Let_def start_def fin_def s32_def e32_def)
    moreover have "\<not> unusable_at ps pe m a" for a
    proof
      assume u: "unusable_at ps pe m a"
      then have fin: "unat fin = unat start + unat (bm_size m)"
        unfolding fin_def start_def unusable_at_def by (intro unat_plus_noov) simp
      have "unat start < 2 ^ 32" using u order.strict_trans [OF _ unat_lt_pow2 [of pe]] by (simp add: unusable_at_def start_def)
      then have "unat s32 = max (unat start) (unat ps)" unfolding s32_def by (rule clamp_low)
      moreover have "unat e32 = min (unat fin) (unat pe)" unfolding e32_def by (rule clamp_high)
      ultimately have "unat s32 \<le> a" "a < unat e32" using u fin by (simp_all add: unusable_at_def start_def)
      then have "s32 < e32" by (simp add: word_less_nat_alt)
      moreover have "\<not> fin \<le> ucast ps" "\<not> ucast pe \<le> start"
        using u fin by (simp_all add: unusable_at_def start_def word_le_nat_alt unat_ucast64)
      ultimately show False using True u by (simp add: unusable_at_def)
    qed
    ultimately show ?thesis using bs by auto
  next
    case False
    have eq: "mark_boot_mem ps pe m s = jlos_page_frame_mark_occupied s32 e32 s"
      unfolding mark_boot_mem_def Let_def start_def [symmetric] fin_def [symmetric] s32_def [symmetric] e32_def [symmetric]
      using False by simp
    obtain t where t: "jlos_page_frame_mark_occupied s32 e32 s = Some t" "boot_state t" "grows_occupied s t"
      and occ: "\<And>f. f < s_total_frames s \<Longrightarrow> pfa_phys_to_frame s s32 \<le> f
        \<Longrightarrow> f < unat (JLOS_EXCEPT_CEIL (e32 - ps) 4096) \<Longrightarrow> occupied (s_pages t f)"
      using mark_occupied_boot [OF bs, of s32 e32] False unfolding ps by blast
    have "occupied (s_pages t ((a - unat ps) div 4096))"
      if u: "unusable_at ps pe m a" and lt: "(a - unat ps) div 4096 < s_total_frames s" for a
    proof (rule occ [OF lt])
      have fin: "unat fin = unat start + unat (bm_size m)"
        using u unfolding fin_def start_def unusable_at_def by (intro unat_plus_noov) simp
      have "unat start < 2 ^ 32" using u order.strict_trans [OF _ unat_lt_pow2 [of pe]] by (simp add: unusable_at_def start_def)
      then have us: "unat s32 = max (unat start) (unat ps)" unfolding s32_def by (rule clamp_low)
      have ue: "unat e32 = min (unat fin) (unat pe)" unfolding e32_def by (rule clamp_high)
      have a: "unat s32 \<le> a" "a < unat e32" "unat ps \<le> a" using u fin us ue by (simp_all add: unusable_at_def start_def)
      have "unat (s32 - ps) = unat s32 - unat ps" by (rule unat_minus_noov) (simp add: word_le_nat_alt us)
      then show "pfa_phys_to_frame s s32 \<le> (a - unat ps) div 4096"
        unfolding pfa_phys_to_frame_def ps unat_div using a(1) by (simp add: div_le_mono)
      have ee: "unat (e32 - ps) = unat e32 - unat ps"
        by (rule unat_minus_noov) (use a in \<open>simp add: word_le_nat_alt\<close>)
      then have "unat (e32 - ps) + 4096 \<le> 2 ^ 32" using ue r a by simp
      then have "unat (JLOS_EXCEPT_CEIL (e32 - ps) 4096) = (unat e32 - unat ps + 4095) div 4096"
        by (simp only: ceil_4096 ee)
      moreover have "(a - unat ps) div 4096 + 1 \<le> (unat e32 - unat ps + 4095) div 4096"
      proof -
        have "(a - unat ps) div 4096 + 1 = (a - unat ps + 4096) div 4096" by simp
        also have "\<dots> \<le> (unat e32 - unat ps + 4095) div 4096" by (rule div_le_mono) (use a in simp)
        finally show ?thesis .
      qed
      ultimately show "(a - unat ps) div 4096 < unat (JLOS_EXCEPT_CEIL (e32 - ps) 4096)" by (simp only: Suc_eq_plus1 [symmetric] Suc_le_eq)
    qed
    then show ?thesis using eq t by auto
  qed
qed

lemma mark_boot_mems_boot:
  assumes "boot_state s" and "s_start_addr s = ps" and "unat pe \<le> unat ps + 2 ^ 32 - 4096"
  shows "\<exists>t. mark_boot_mems ps pe ms s = Some t \<and> boot_state t \<and> grows_occupied s t
    \<and> (\<forall>m\<in>set ms. \<forall>a. unusable_at ps pe m a \<and> (a - unat ps) div 4096 < s_total_frames s
          \<longrightarrow> occupied (s_pages t ((a - unat ps) div 4096)))"
  using assms
proof (induction ms arbitrary: s)
  case (Cons m ms)
  obtain u where u: "mark_boot_mem ps pe m s = Some u" "boot_state u" "grows_occupied s u"
    and um: "\<And>a. unusable_at ps pe m a \<Longrightarrow> (a - unat ps) div 4096 < s_total_frames s
          \<Longrightarrow> occupied (s_pages u ((a - unat ps) div 4096))"
    using mark_boot_mem_boot [OF Cons.prems, of m] by blast
  have su: "s_start_addr u = ps" "s_total_frames u = s_total_frames s"
    using u(3) Cons.prems(2) by (simp_all add: grows_occupied_def)
  obtain t where t: "mark_boot_mems ps pe ms u = Some t" "boot_state t" "grows_occupied u t"
    and tm: "\<And>m a. m \<in> set ms \<Longrightarrow> unusable_at ps pe m a \<Longrightarrow> (a - unat ps) div 4096 < s_total_frames s
          \<Longrightarrow> occupied (s_pages t ((a - unat ps) div 4096))"
    using Cons.IH [OF u(2) su(1) Cons.prems(3)] unfolding su(2) by blast
  have "occupied (s_pages t ((a - unat ps) div 4096))"
    if "m' \<in> set (m # ms)" "unusable_at ps pe m' a" "(a - unat ps) div 4096 < s_total_frames s" for m' a
  proof (cases "m' = m")
    case True
    then show ?thesis using um that t(3) by (simp add: grows_occupied_def)
  next
    case False
    then show ?thesis using tm that by simp
  qed
  then show ?case using u(1) t(1,2) grows_trans [OF u(3) t(3)] by (intro exI [of _ t]) simp
qed simp

section \<open>Filling the lists\<close>

lemma boot_state_inv:
  assumes "boot_state s"
  shows "buddy_inv s {f. f < s_total_frames s \<and> \<not> occupied (s_pages s f)}" and "covered s = {}" and "cached s = {}"
proof -
  have fb: "free_blocks s = {}" using assms by (simp add: boot_state_def free_blocks_def)
  show "covered s = {}" "cached s = {}" using assms by (simp_all add: covered_def fb cached_def boot_state_def)
  then show "buddy_inv s {f. f < s_total_frames s \<and> \<not> occupied (s_pages s f)}"
    using assms unfolding boot_state_def buddy_inv_def area_inv_def cache_inv_def limbo_inv_def frame_inv_def block_inv_def fb
    by (auto simp: clean_def boot_page_def clean_page_def)
qed

text \<open>While the lists are filled, occupied frames carry no order and have one reference.\<close>

definition filling :: "pfa \<Rightarrow> nat set \<Rightarrow> bool" where
  "filling s L \<longleftrightarrow> buddy_inv s L \<and> clean s L \<and> (\<forall>f. occupied (s_pages s f) \<longrightarrow> f < s_total_frames s
     \<longrightarrow> porder (s_pages s f) = ORDER_INVALID \<and> refcount (s_pages s f) = 1)"

lemma filling_remove:
  assumes "filling s L" and fb: "(f, k) \<in> free_blocks s"
  obtains t where "buddy_remove f k s = Some t" and "filling t (L \<union> block f k)"
    and "covered t = covered s - block f k" and "same_upto {f} s t"
    and "free_blocks t = free_blocks s - {(f, k)}"
proof -
  have inv: "buddy_inv s L" using assms(1) by (simp add: filling_def)
  obtain t where t: "buddy_remove f k s = Some t" "buddy_inv t (L \<union> block f k)"
    "covered t = covered s - block f k" "clean t (block f k)" "same_upto {f} s t"
    "free_blocks t = free_blocks s - {(f, k)}"
    by (rule buddy_remove_inv [OF inv fb])
  have "f \<notin> L" using inv subsetD [OF covered_block [OF fb] block_self] by (auto simp: buddy_inv_def limbo_inv_def)
  then have "clean t L" using upto_clean [OF t(5), of L] assms(1) by (simp add: filling_def)
  then have cl: "clean t (L \<union> block f k)" using t(4) by (auto simp: clean_def)
  have "porder (s_pages t i) = ORDER_INVALID \<and> refcount (s_pages t i) = 1" if "occupied (s_pages t i)" "i < s_total_frames t" for i
    using that assms(1) t(5) clean_limbo [OF t(4) block_self] by (cases "i = f") (auto simp: filling_def same_upto_def)
  then show thesis using that [OF t(1) _ t(3,5,6)] cl t(2) by (simp add: filling_def)
qed

lemma filling_insert:
  assumes "filling s L" and sub: "block f k \<subseteq> L" and al: "2 ^ k dvd f" and k: "k \<le> MAX_ORDER"
  obtains t where "buddy_insert f k s = Some t" and "filling t (L - block f k)"
    and "covered t = covered s \<union> block f k" and "same_upto {f} s t"
proof -
  have inv: "buddy_inv s L" and cl: "clean s (block f k)" "clean s L"
    using assms(1) sub by (auto simp: filling_def clean_def)
  obtain t where t: "buddy_insert f k s = Some t" "buddy_inv t (L - block f k)"
    "covered t = covered s \<union> block f k" "same_upto {f} s t"
    by (rule buddy_insert_inv [OF inv sub cl(1) al k])
  have "clean s (L - block f k)" using cl(2) by (simp add: clean_def)
  then have "clean t (L - block f k)" by (rule upto_clean [OF t(4)]) (use block_self in blast)
  moreover have "\<not> occupied (s_pages t f)" using t(4) cl(1) by (simp add: same_upto_def clean_def clean_page_def)
  then have "porder (s_pages t i) = ORDER_INVALID \<and> refcount (s_pages t i) = 1" if "occupied (s_pages t i)" "i < s_total_frames t" for i
    using that assms(1) t(4) by (cases "i = f") (auto simp: filling_def same_upto_def)
  ultimately show thesis using that [OF t(1) _ t(3,4)] t(2) by (simp add: filling_def)
qed

lemma insert_free_frames_filling:
  assumes "filling s {f \<in> {i..< s_total_frames s}. \<not> occupied (s_pages s f)}" and "i + k = s_total_frames s"
  shows "\<exists>t. insert_free_frames i k s = Some t \<and> filling t {}
    \<and> covered t = covered s \<union> {f \<in> {i..< s_total_frames s}. \<not> occupied (s_pages s f)}
    \<and> (\<forall>f. occupied (s_pages t f) = occupied (s_pages s f))
    \<and> s_total_frames t = s_total_frames s \<and> s_start_addr t = s_start_addr s \<and> s_percpu t = s_percpu s"
  using assms
proof (induction k arbitrary: i s)
  case 0
  then have "{f \<in> {i..< s_total_frames s}. \<not> occupied (s_pages s f)} = {}" by auto
  then show ?case using 0 by simp
next
  case (Suc k)
  let ?L = "\<lambda>j s. {f \<in> {j..< s_total_frames s}. \<not> occupied (s_pages s f)}"
  have lt: "i < s_total_frames s" using Suc.prems(2) by simp
  show ?case
  proof (cases "occupied (s_pages s i)")
    case True
    then have "?L i s = ?L (Suc i) s" using not_less_eq_eq by fastforce
    then show ?thesis using Suc.IH [of s "Suc i"] Suc.prems True by simp
  next
    case False
    then have mem: "i \<in> ?L i s" using lt by simp
    then have "porder (s_pages s i) = ORDER_INVALID" using Suc.prems(1) by (auto simp: filling_def clean_def clean_page_def)
    moreover obtain u where u: "buddy_insert i 0 s = Some u" "filling u (?L i s - block i 0)"
      "covered u = covered s \<union> block i 0" "same_upto {i} s u"
      by (rule filling_insert [OF Suc.prems(1), of i 0]) (use mem in auto)
    ultimately have step: "insert_free_frames i (Suc k) s = insert_free_frames (Suc i) k u"
      using False by simp
    have up: "s_total_frames u = s_total_frames s" "s_start_addr u = s_start_addr s" "s_percpu u = s_percpu s"
      "\<And>f. occupied (s_pages u f) = occupied (s_pages s f)"
      using u(4) by (simp_all add: same_upto_def)
    have L: "?L i s - block i 0 = ?L (Suc i) u" using up by auto
    have "insert i (?L (Suc i) u) = ?L i s" unfolding L [symmetric] block_0 by (rule insert_Diff [OF mem])
    then have "covered u \<union> ?L (Suc i) u = covered s \<union> ?L i s" unfolding u(3) block_0 by blast
    then show ?thesis using Suc.IH [of u "Suc i"] u(2) Suc.prems(2) unfolding step L up by simp
  qed
qed

section \<open>Merging upwards\<close>

lemma merge_pass_filling:
  assumes "filling s {}" and "2 ^ Suc k dvd f" and "f + 2 ^ Suc k * n \<le> s_total_frames s" and "Suc k \<le> MAX_ORDER"
  shows "\<exists>t. merge_pass k f n s = Some t \<and> filling t {} \<and> covered t = covered s
    \<and> s_total_frames t = s_total_frames s \<and> s_start_addr t = s_start_addr s \<and> s_percpu t = s_percpu s
    \<and> (\<forall>g. occupied (s_pages t g) = occupied (s_pages s g))"
  using assms
proof (induction n arbitrary: f s)
  case (Suc n)
  let ?nf = "f + 2 ^ k * 2" and ?b = "f XOR 2 ^ k"
  have nf: "2 ^ Suc k dvd ?nf" "?nf + 2 ^ Suc k * n \<le> s_total_frames s"
    using Suc.prems(2,3) by (auto simp: mult.commute intro: dvd_add) 
  show ?case
  proof (cases "porder (s_pages s f) \<noteq> k \<or> \<not> buddy_mergeable s f k")
    case True
    then show ?thesis using Suc.IH [OF Suc.prems(1) nf Suc.prems(4)] by (simp add: Let_def order_to_frames_def)
  next
    case False
    then have m: "buddy_mergeable s f k" and pf: "porder (s_pages s f) = k" by simp_all
    have inv: "buddy_inv s {}" using Suc.prems(1) by (simp add: filling_def)
    have "0 < (2 :: nat) ^ Suc k * Suc n" by simp
    then have lt: "f < s_total_frames s" using Suc.prems(3) by linarith
    have "\<not> occupied (s_pages s f)" using Suc.prems(1,4) lt pf by (auto simp: filling_def)
    then have ff: "(f, k) \<in> free_blocks s" by (intro free_head [OF inv lt pf]) (use Suc.prems(4) in simp_all)
    have fb: "(?b, k) \<in> free_blocks s" using Suc.prems(4) by (intro buddy_mergeable_free [OF inv m]) simp
    have al: "2 ^ k dvd f" using Suc.prems(2) unfolding power_Suc by (rule dvd_mult_right)
    note bm = buddy_merge [OF al refl]
    obtain u where u: "buddy_remove ?b k s = Some u" "filling u ({} \<union> block ?b k)"
      "covered u = covered s - block ?b k" "same_upto {?b} s u" "free_blocks u = free_blocks s - {(?b, k)}"
      by (rule filling_remove [OF Suc.prems(1) fb])
    have fu: "(f, k) \<in> free_blocks u" using ff bm(5) by (simp add: u(5))
    obtain v where v: "buddy_remove f k u = Some v" "filling v ({} \<union> block ?b k \<union> block f k)"
      "covered v = covered u - block f k" "same_upto {f} u v" by (rule filling_remove [OF u(2) fu])
    have L: "{} \<union> block ?b k \<union> block f k = block (min ?b f) (Suc k)" unfolding bm(3) by auto
    obtain w where w: "buddy_insert (min ?b f) (Suc k) v = Some w"
      "filling w (block (min ?b f) (Suc k) - block (min ?b f) (Suc k))"
      "covered w = covered v \<union> block (min ?b f) (Suc k)" "same_upto {min ?b f} v w"
      by (rule filling_insert [OF v(2) [unfolded L] order_refl bm(2) Suc.prems(4)])
    have cov: "covered w = covered s"
      using w(3) covered_block [OF ff] covered_block [OF fb] unfolding v(3) u(3) bm(3) by blast
    have up: "s_total_frames w = s_total_frames s" "s_start_addr w = s_start_addr s" "s_percpu w = s_percpu s"
      "\<And>g. occupied (s_pages w g) = occupied (s_pages s g)"
      using u(4) v(4) w(4) by (simp_all add: same_upto_def)
    have "(if ?b < f then ?b else f) = min ?b f" by simp
    then have "merge_pass k f (Suc n) s = merge_pass k ?nf n w"
      using False u(1) v(1) w(1) by (simp add: Let_def order_to_frames_def)
    then show ?thesis using Suc.IH [of w ?nf] w(2) nf Suc.prems(4) by (simp add: cov up)
  qed
qed simp

lemma merge_passes_filling:
  assumes "filling s {}" and "\<forall>k\<in>set ks. Suc k \<le> MAX_ORDER"
  shows "\<exists>t. merge_passes ks s = Some t \<and> filling t {} \<and> covered t = covered s
    \<and> s_total_frames t = s_total_frames s \<and> s_start_addr t = s_start_addr s \<and> s_percpu t = s_percpu s
    \<and> (\<forall>g. occupied (s_pages t g) = occupied (s_pages s g))"
  using assms
proof (induction ks arbitrary: s)
  case (Cons k ks)
  let ?n = "s_total_frames s div (order_to_frames k * 2)"
  have n: "0 + 2 ^ Suc k * ?n \<le> s_total_frames s"
    by (simp add: order_to_frames_def mult.commute [of _ 2])
  have "\<exists>u. merge_pass k 0 ?n s = Some u \<and> filling u {} \<and> covered u = covered s
    \<and> s_total_frames u = s_total_frames s \<and> s_start_addr u = s_start_addr s \<and> s_percpu u = s_percpu s
    \<and> (\<forall>g. occupied (s_pages u g) = occupied (s_pages s g))"
    by (rule merge_pass_filling [OF Cons.prems(1) _ n]) (use Cons.prems(2) in simp_all)
  then obtain u where u: "merge_pass k 0 ?n s = Some u" "filling u {}" "covered u = covered s"
    "s_total_frames u = s_total_frames s" "s_start_addr u = s_start_addr s" "s_percpu u = s_percpu s"
    "\<And>g. occupied (s_pages u g) = occupied (s_pages s g)" by blast
  then show ?case using Cons.IH [OF u(2)] Cons.prems(2) by simp
qed simp

section \<open>Correctness\<close>

lemma count_free_card:
  assumes inv: "buddy_inv s L"
  shows "count_free s = int (card (covered s))"
proof -
  let ?A = "\<lambda>k. set (s_free_area s k)" and ?swap = "\<lambda>(k, f). (f, k)"
  have bi: "block_inv s" and ai: "area_inv s" using inv by (simp_all add: buddy_inv_def)
  have fb: "free_blocks s = ?swap ` (SIGMA k:{..MAX_ORDER}. ?A k)" by (auto simp: free_blocks_def image_iff)
  have inj: "inj_on ?swap (SIGMA k:{..MAX_ORDER}. ?A k)" by (auto simp: inj_on_def)
  have "card (covered s) = (\<Sum>x\<in>free_blocks s. card (case x of (f, k) \<Rightarrow> block f k))"
    unfolding covered_def
  proof (rule card_UN_disjoint)
    show "finite (free_blocks s)" unfolding fb by (intro finite_imageI finite_SigmaI) simp_all
  next
    show "\<forall>x\<in>free_blocks s. \<forall>y\<in>free_blocks s. x \<noteq> y
      \<longrightarrow> (case x of (f, k) \<Rightarrow> block f k) \<inter> (case y of (f, k) \<Rightarrow> block f k) = {}"
      using block_inv_disjoint [OF bi] by fastforce
  qed auto
  also have "\<dots> = (\<Sum>(f, k)\<in>free_blocks s. 2 ^ k)" by (rule sum.cong) (auto simp: block_def)
  also have "\<dots> = (\<Sum>(k, f)\<in>(SIGMA k:{..MAX_ORDER}. ?A k). 2 ^ k)"
    unfolding fb sum.reindex [OF inj] by (rule sum.cong) auto
  also have "\<dots> = (\<Sum>k\<le>MAX_ORDER. \<Sum>f\<in>?A k. 2 ^ k)" by (rule sum.Sigma [symmetric]) simp_all
  also have "\<dots> = (\<Sum>k\<le>MAX_ORDER. length (s_free_area s k) * 2 ^ k)"
    by (rule sum.cong) (use ai in \<open>auto simp: area_inv_def distinct_card\<close>)
  finally have "int (card (covered s)) = (\<Sum>k\<le>MAX_ORDER. int (length (s_free_area s k) * 2 ^ k))" by simp
  also have "\<dots> = (\<Sum>k\<in>set [0..<Suc MAX_ORDER]. int (length (s_free_area s k) * 2 ^ k))"
    by (rule sum.cong) auto
  also have "\<dots> = count_free s"
    unfolding count_free_def order_to_frames_def by (rule sum.distinct_set_conv_list) simp
  finally show ?thesis by simp
qed

lemma boot_blank:
  "s_free_order_bitmap s = 0 \<Longrightarrow>
   boot_state (s\<lparr>s_start_addr := ps, s_total_frames := n, s_free_area := (\<lambda>_. []), s_percpu := (\<lambda>_. []),
     s_pages := (\<lambda>f. if f < n then blank_page (s_pages s f) else s_pages s f)\<rparr>)"
  by (simp add: boot_state_def boot_page_def clean_page_def blank_page_def)

text \<open>From a marked boot state to the finished allocator.\<close>

definition finish_lists :: "pfa \<Rightarrow> pfa option" where
  "finish_lists s = Option.bind (insert_free_frames 0 (s_total_frames s) s) (\<lambda>s.
     Option.bind (merge_passes [0..<MAX_ORDER] s) (\<lambda>s. Some (s\<lparr>s_free_frames := count_free s\<rparr>)))"

lemma finish_lists_correct:
  assumes "boot_state s"
  obtains t where "finish_lists s = Some t" and "buddy_inv t {}" and "slack t = 0"
    and "free_set t = {f. f < s_total_frames s \<and> \<not> occupied (s_pages s f)}" and "covered t = free_set t"
    and "s_total_frames t = s_total_frames s" and "s_start_addr t = s_start_addr s" and "s_percpu t = (\<lambda>_. [])"
    and "\<forall>f < s_total_frames s. occupied (s_pages s f) \<longrightarrow> refcount (s_pages t f) = 1"
proof -
  let ?L = "{f \<in> {0..< s_total_frames s}. \<not> occupied (s_pages s f)}"
  have L: "?L = {f. f < s_total_frames s \<and> \<not> occupied (s_pages s f)}" by auto
  have "filling s ?L"
    using boot_state_inv(1) [OF assms] assms unfolding filling_def L
    by (auto simp: clean_def boot_state_def boot_page_def in_use_def clean_page_def)
  then obtain u where u: "insert_free_frames 0 (s_total_frames s) s = Some u" "filling u {}" "covered u = covered s \<union> ?L"
    "s_total_frames u = s_total_frames s" "s_start_addr u = s_start_addr s" "s_percpu u = s_percpu s"
    "\<forall>f. occupied (s_pages u f) = occupied (s_pages s f)"
    using insert_free_frames_filling [of s 0 "s_total_frames s"] by auto
  have "\<forall>k\<in>set [0..<MAX_ORDER]. Suc k \<le> MAX_ORDER" by auto
  from merge_passes_filling [OF u(2) this]
  obtain v where v: "merge_passes [0..<MAX_ORDER] u = Some v" "filling v {}" "covered v = covered u"
    "s_total_frames v = s_total_frames u" "s_start_addr v = s_start_addr u" "s_percpu v = s_percpu u"
    "\<forall>f. occupied (s_pages v f) = occupied (s_pages u f)" by blast
  let ?t = "v\<lparr>s_free_frames := count_free v\<rparr>"
  have inv: "buddy_inv v {}" using v(2) by (simp add: filling_def)
  have "cached v = {}" using u(6) v(6) boot_state_inv(3) [OF assms] by (simp add: cached_def)
  then have "free_set ?t = ?L" "covered ?t = free_set ?t"
    using boot_state_inv(2) [OF assms] u(3) v(3) by (simp_all add: free_set_def)
  moreover have "slack ?t = 0" using count_free_card [OF inv] by (simp add: slack_def)
  moreover have "finish_lists s = Some ?t" using u(1) v(1) by (simp add: finish_lists_def)
  moreover have "s_percpu ?t = (\<lambda>_. [])" using u(6) v(6) assms by (simp add: boot_state_def)
  moreover have "\<forall>f < s_total_frames s. occupied (s_pages s f) \<longrightarrow> refcount (s_pages ?t f) = 1"
    using v(2,4,7) u(4,7) by (simp add: filling_def)
  ultimately show thesis using that [of ?t] inv u(4,5) v(4,5) by (simp add: L)
qed

lemma reserve_image:
  assumes b0: "boot_state s"
    and t: "t = for_frames jlos_page_frame_mark_reserve kf (min be (s_total_frames s) - kf)
      (for_frames jlos_page_frame_mark_recycle kf (min bf (s_total_frames s) - kf)
        (for_frames jlos_page_frame_mark_reserve 0 (min kf (s_total_frames s)) s))"
  shows "boot_state t" and "s_total_frames t = s_total_frames s" and "s_start_addr t = s_start_addr s"
    and "\<And>f. f < s_total_frames s \<Longrightarrow> f < kf \<or> f < be \<Longrightarrow> occupied (s_pages t f)"
proof -
  let ?n = "s_total_frames s"
  define s1 where "s1 = for_frames jlos_page_frame_mark_reserve 0 (min kf ?n) s"
  define s2 where "s2 = for_frames jlos_page_frame_mark_recycle kf (min bf ?n - kf) s1"
  have t: "t = for_frames jlos_page_frame_mark_reserve kf (min be ?n - kf) s2" unfolding t s1_def s2_def ..
  have b1: "boot_state s1" "grows_occupied s s1" and o1: "\<And>f. f < min kf ?n \<Longrightarrow> occupied (s_pages s1 f)"
    using for_frames_reserve [OF b0, of 0 "min kf ?n"] unfolding s1_def by auto
  have b2: "boot_state s2" and f2: "s_total_frames s2 = ?n" "s_start_addr s2 = s_start_addr s"
    and p2: "\<And>f. f < kf \<Longrightarrow> s_pages s2 f = s_pages s1 f"
    using for_frames_recycle [OF b1(1), of kf "min bf ?n - kf"] b1(2) unfolding s2_def by (auto simp: grows_occupied_def)
  have b3: "boot_state t" "grows_occupied s2 t"
    and o3: "\<And>f. kf \<le> f \<Longrightarrow> f < kf + (min be ?n - kf) \<Longrightarrow> f < ?n \<Longrightarrow> occupied (s_pages t f)"
    using for_frames_reserve [OF b2, of kf "min be ?n - kf"] f2(1) unfolding t by auto
  show "boot_state t" by (rule b3(1))
  show "s_total_frames t = ?n" "s_start_addr t = s_start_addr s" using b3(2) f2 by (simp_all add: grows_occupied_def)
  fix f assume f: "f < ?n" "f < kf \<or> f < be"
  show "occupied (s_pages t f)"
  proof (cases "f < kf")
    case True
    then have "occupied (s_pages s2 f)" using o1 p2 f(1) by simp
    then show ?thesis using b3(2) by (simp add: grows_occupied_def)
  next
    case False
    then show ?thesis using f by (intro o3) auto
  qed
qed

text \<open>After all marks, what belongs to the image, the boot heap or unusable memory is occupied.\<close>

lemma boot_marks:
  assumes b0: "boot_state s0" and f0: "s_total_frames s0 = n" "s_start_addr s0 = ms"
    and range: "unat pe \<le> unat ms + 2 ^ 32 - 4096"
    and s3_def: "s3 = for_frames jlos_page_frame_mark_reserve kf (min be n - kf)
      (for_frames jlos_page_frame_mark_recycle kf (min bf n - kf)
        (for_frames jlos_page_frame_mark_reserve 0 (min kf n) s0))"
  obtains s4 s5 where "(if 0 < (ucast ms :: u64) then jlos_page_frame_mark_occupied 0 ms s3 else Some s3) = Some s4"
    and "mark_boot_mems ms pe mems s4 = Some s5" and "boot_state s5" and "s_total_frames s5 = n" and "s_start_addr s5 = ms"
    and "\<forall>f<n. f < kf \<or> f < be \<longrightarrow> occupied (s_pages s5 f)"
    and "\<forall>m\<in>set mems. \<forall>a. unusable_at ms pe m a \<longrightarrow> (a - unat ms) div 4096 < n \<longrightarrow> occupied (s_pages s5 ((a - unat ms) div 4096))"
proof -
  note s3 = reserve_image [OF b0, unfolded f0, OF s3_def]
  obtain s4 where s4: "(if 0 < (ucast ms :: u64) then jlos_page_frame_mark_occupied 0 ms s3 else Some s3) = Some s4"
    "boot_state s4" "grows_occupied s3 s4"
    using mark_occupied_boot [OF s3(1), of 0 ms] s3(1) by (cases "0 < (ucast ms :: u64)") auto
  have f4: "s_total_frames s4 = n" "s_start_addr s4 = ms" using s4(3) s3(2,3) by (simp_all add: grows_occupied_def)
  obtain s5 where s5: "mark_boot_mems ms pe mems s4 = Some s5" "boot_state s5" "grows_occupied s4 s5"
    and mem: "\<forall>m\<in>set mems. \<forall>a. unusable_at ms pe m a \<longrightarrow> (a - unat ms) div 4096 < n \<longrightarrow> occupied (s_pages s5 ((a - unat ms) div 4096))"
    using mark_boot_mems_boot [OF s4(2) f4(2) range, of mems] unfolding f4(1) by blast
  have "s_total_frames s5 = n" "s_start_addr s5 = ms" using s5(3) f4 by (simp_all add: grows_occupied_def)
  moreover have "\<forall>f<n. f < kf \<or> f < be \<longrightarrow> occupied (s_pages s5 f)"
    using s3(4) s4(3) s5(3) by (simp add: grows_occupied_def)
  ultimately show thesis using that [OF s4(1) s5(1,2)] mem by blast
qed

text \<open>Releasing the only reference of a frame with an empty cache: it goes into the cache.\<close>

lemma release_into_cache:
  assumes inv: "buddy_inv s {}" and fr: "pfa_phys_to_frame s p = f" "f < s_total_frames s"
    and rc: "refcount (s_pages s f) = 1" and e: "s_percpu s = (\<lambda>_. [])"
  obtains t where "jlos_page_frame_refcount_dec c p s = Some t" and "buddy_inv t {}" and "covered t = covered s"
    and "s_percpu t = (\<lambda>_. [])(c := [f])" and "free_set t = insert f (free_set s)" and "s_free_frames t = s_free_frames s"
    and "s_total_frames t = s_total_frames s" and "s_start_addr t = s_start_addr s"
proof -
  obtain t where t: "jlos_page_frame_refcount_dec c p s = Some t" "buddy_inv t {}" "drops s {f} t" by (rule refcount_dec_last [OF inv fr rc])
  have "t = set_percpu c [f] (set_page f (\<lambda>p. p\<lparr>occupied := False, porder := ORDER_INVALID,
     ptype := TYPE_FREE, pt_present_count := 0, refcount := 0\<rparr>) (set_page f (\<lambda>p. p\<lparr>refcount := 0\<rparr>) s))"
    using t(1) fr rc by (simp add: jlos_page_frame_refcount_dec_def Let_def e)
  then have "covered t = covered s" "s_percpu t = (\<lambda>_. [])(c := [f])" "s_free_frames t = s_free_frames s" by (simp_all add: e)
  then show thesis using that [OF t(1,2)] t(3) by (simp add: drops_def)
qed

text \<open>
  C5: the initialisation of the page frame allocator never halts and establishes the buddy
  invariant, for every boot memory map, when the root of the boot page tables lies inside the
  kernel image. The frames on the buddy lists are counted exactly; none of them belongs to the
  kernel image, to the boot heap (the page array included) or to a region that the memory
  map calls unusable. One more frame is free: the kernel image's frame with the root of the
  boot page tables, which ends up alone in the cache of the booting CPU.
\<close>

theorem page_frame_init_correct:
  assumes "s_free_order_bitmap s = 0" and "unat phys_end \<le> unat memory_start + 2 ^ 32 - 4096"
    and "n = unat (ucast ((ucast phys_end - ucast memory_start :: u64) div 4096) :: u32)"
    and "kernel_frames = unat (ucast ((kernel_end - ucast memory_start) div 4096) :: u32)"
    and "b = unat ((ucast boot_pml4 - memory_start) div 4096)" and "b < kernel_frames" and "b < n"
  shows "\<exists>heap t. jlos_page_frame_allocator_init cpu memory_start phys_end kernel_end boot_end boot_pml4 sizeof_page heap_ptr mems s
      = Some (heap, t) \<and> buddy_inv t {} \<and> s_free_frames t = int (card (covered t))
    \<and> s_start_addr t = memory_start \<and> s_total_frames t = n
    \<and> (\<forall>f\<in>covered t. f < n \<and> kernel_frames \<le> f
        \<and> unat (ucast (JLOS_EXCEPT_CEIL (ucast heap - ucast memory_start :: u64) 4096) :: u32) \<le> f)
    \<and> (\<forall>m\<in>set mems. \<forall>a. unusable_at memory_start phys_end m a \<longrightarrow> (a - unat memory_start) div 4096 \<notin> covered t)
    \<and> free_set t = insert b (covered t) \<and> b \<notin> covered t \<and> s_percpu t = (\<lambda>_. [])(cpu := [b])"
proof -
  have widen: "ucast (ucast memory_start :: u64) = memory_start" by (rule bit_word_eqI) (simp add: bit_unsigned_iff)
  define heap where "heap = snd (jlos_pfa_boot_alloc heap_ptr (of_nat n * sizeof_page))"
  define bf where "bf = unat (ucast ((boot_end - ucast memory_start) div 4096) :: u32)"
  define be where "be = unat (ucast (JLOS_EXCEPT_CEIL (ucast heap - ucast memory_start :: u64) 4096) :: u32)"
  define s0 where "s0 = s\<lparr>s_start_addr := memory_start, s_total_frames := n, s_free_area := (\<lambda>_. []), s_percpu := (\<lambda>_. []),
     s_pages := (\<lambda>f. if f < n then blank_page (s_pages s f) else s_pages s f)\<rparr>"
  define s3 where "s3 = for_frames jlos_page_frame_mark_reserve kernel_frames (min be n - kernel_frames)
      (for_frames jlos_page_frame_mark_recycle kernel_frames (min bf n - kernel_frames)
        (for_frames jlos_page_frame_mark_reserve 0 (min kernel_frames n) s0))"
  have b0: "boot_state s0" unfolding s0_def by (rule boot_blank [OF assms(1)])
  have f0: "s_total_frames s0 = n" "s_start_addr s0 = memory_start" by (simp_all add: s0_def)
  obtain s4 s5 where s4: "(if 0 < (ucast memory_start :: u64) then jlos_page_frame_mark_occupied 0 memory_start s3 else Some s3) = Some s4"
    and s5: "mark_boot_mems memory_start phys_end mems s4 = Some s5" "boot_state s5" "s_total_frames s5 = n" "s_start_addr s5 = memory_start"
    and occ5: "\<forall>f<n. f < kernel_frames \<or> f < be \<longrightarrow> occupied (s_pages s5 f)"
    and mem: "\<forall>m\<in>set mems. \<forall>a. unusable_at memory_start phys_end m a \<longrightarrow> (a - unat memory_start) div 4096 < n
      \<longrightarrow> occupied (s_pages s5 ((a - unat memory_start) div 4096))"
    by (rule boot_marks [OF b0 f0 assms(2) s3_def])
  obtain u where u: "finish_lists s5 = Some u" "buddy_inv u {}" "slack u = 0"
    "free_set u = {f. f < n \<and> \<not> occupied (s_pages s5 f)}" "covered u = free_set u"
    "s_total_frames u = n" "s_start_addr u = memory_start" "s_percpu u = (\<lambda>_. [])"
    "\<forall>f < n. occupied (s_pages s5 f) \<longrightarrow> refcount (s_pages u f) = 1"
    using finish_lists_correct [OF s5(2)] unfolding s5(3,4) by blast
  have fb: "pfa_phys_to_frame u (ucast boot_pml4) = b" "b < s_total_frames u" "refcount (s_pages u b) = 1"
    using u(6,7,9) occ5 assms(5-7) by (simp_all add: pfa_phys_to_frame_def)
  obtain t where t: "jlos_page_frame_refcount_dec cpu (ucast boot_pml4) u = Some t" "buddy_inv t {}" "covered t = covered u"
    "s_percpu t = (\<lambda>_. [])(cpu := [b])" "free_set t = insert b (free_set u)" "s_free_frames t = s_free_frames u"
    "s_total_frames t = s_total_frames u" "s_start_addr t = s_start_addr u"
    by (rule release_into_cache [OF u(2) fb u(8)])
  have "jlos_page_frame_allocator_init cpu memory_start phys_end kernel_end boot_end boot_pml4 sizeof_page heap_ptr mems s
      = Option.bind (finish_lists s5) (\<lambda>s. Option.bind (jlos_arch_paging_free_boot_tables cpu boot_pml4 s) (\<lambda>s. Some (heap, s)))"
    unfolding jlos_page_frame_allocator_init_def Let_def widen assms(3,4) [symmetric] heap_def [symmetric]
      bf_def [symmetric] be_def [symmetric] s0_def [symmetric] s3_def [symmetric] s4 bind.bind_lunit s5(1)
    by (simp add: finish_lists_def s5(3))
  then have "jlos_page_frame_allocator_init cpu memory_start phys_end kernel_end boot_end boot_pml4 sizeof_page heap_ptr mems s
      = Some (heap, t)" using u(1) t(1) by (simp add: jlos_arch_paging_free_boot_tables_def)
  moreover have "s_free_frames t = int (card (covered t))" using u(3) t(3,6) by (simp add: slack_def)
  moreover have "\<forall>f\<in>covered t. f < n \<and> kernel_frames \<le> f \<and> be \<le> f"
    using occ5 unfolding t(3) u(5,4) by (auto simp: not_le [symmetric])
  moreover have "\<forall>m\<in>set mems. \<forall>a. unusable_at memory_start phys_end m a \<longrightarrow> (a - unat memory_start) div 4096 \<notin> covered t"
    using mem unfolding t(3) u(5,4) by blast
  moreover have "b \<notin> covered t" using occ5 assms(6,7) unfolding t(3) u(5,4) by blast
  ultimately show ?thesis using t(2-5,7,8) u(5-7) unfolding be_def by (intro exI [of _ heap] exI [of _ t]) simp
qed

theorem page_frame_init_correct_witness:
  "\<exists>heap t. jlos_page_frame_allocator_init 0 0x100000 0x180000 0x110000 0x108000 0x101000 24 0x110000
        [\<lparr>bm_addr = 0x170000, bm_size = 0x8000, bm_usable = False\<rparr>] (pfa4\<lparr>s_free_order_bitmap := 0\<rparr>)
      = Some (heap, t) \<and> buddy_inv t {} \<and> s_total_frames t = 128 \<and> 0x70 \<notin> free_set t \<and> 1 \<in> free_set t"
proof -
  let ?m = "\<lparr>bm_addr = 0x170000, bm_size = 0x8000, bm_usable = False\<rparr>"
  have h: "s_free_order_bitmap (pfa4\<lparr>s_free_order_bitmap := 0\<rparr>) = 0"
    "unat (0x180000 :: u32) \<le> unat (0x100000 :: u32) + 2 ^ 32 - 4096"
    "128 = unat (ucast ((ucast (0x180000 :: u32) - ucast (0x100000 :: u32) :: u64) div 4096) :: u32)"
    "16 = unat (ucast ((0x110000 - ucast (0x100000 :: u32) :: u64) div 4096) :: u32)"
    "1 = unat ((ucast (0x101000 :: u64) - 0x100000 :: u32) div 4096)" "(1 :: nat) < 16" "(1 :: nat) < 128"
    by simp_all
  obtain heap t where t: "jlos_page_frame_allocator_init 0 0x100000 0x180000 0x110000 0x108000 0x101000 24 0x110000
      [?m] (pfa4\<lparr>s_free_order_bitmap := 0\<rparr>) = Some (heap, t)" "buddy_inv t {}" "s_total_frames t = 128"
    "\<forall>m\<in>set [?m]. \<forall>a. unusable_at 0x100000 0x180000 m a \<longrightarrow> (a - unat (0x100000 :: u32)) div 4096 \<notin> covered t"
    "free_set t = insert 1 (covered t)"
    using page_frame_init_correct [OF h, of 0 "0x108000" 24 "0x110000" "[?m]"] by blast
  have "unusable_at 0x100000 0x180000 ?m 0x170000" by (simp add: unusable_at_def)
  then have "(0x170000 - unat (0x100000 :: u32)) div 4096 \<notin> covered t" using t(4) by auto
  then show ?thesis using t(1-3,5) by auto
qed

end
