(* ===== verification/Spinlock.thy ===== *)
theory Spinlock
  imports Jlos_Prelude
begin

text \<open>
  The ticket spinlock of \<^verbatim>\<open>arch/x86/spinlock.c\<close> on the lock word of \<^verbatim>\<open>hal/spinlock.h\<close>:
  two 16-bit counters that wrap around. The atomic fetch-and-add that takes a ticket,
  each read of the spin loop and the increment that releases the lock are single steps
  of a transition system in which any number of CPUs interleave. The theorems justify
  that the rest of the library treats a critical section as one step.
\<close>

record jlos_spinlock =
  tnext :: u16
  towner :: u16

definition jlos_spinlock_init :: jlos_spinlock where
  "jlos_spinlock_init = \<lparr>tnext = 0, towner = 0\<rparr>"

text \<open>\<open>lock xaddw\<close>: the old value of \<open>next\<close> is the ticket.\<close>

definition spin_lock_ticket :: "jlos_spinlock \<Rightarrow> u16 \<times> jlos_spinlock" where
  "spin_lock_ticket lock = (tnext lock, lock\<lparr>tnext := tnext lock + 1\<rparr>)"

text \<open>The condition on which the spin loop ends.\<close>

definition spin_lock_done :: "jlos_spinlock \<Rightarrow> u16 \<Rightarrow> bool" where
  "spin_lock_done lock my_ticket \<longleftrightarrow> towner lock = my_ticket"

definition jlos_spin_unlock :: "jlos_spinlock \<Rightarrow> jlos_spinlock" where
  "jlos_spin_unlock lock = lock\<lparr>towner := towner lock + 1\<rparr>"

section \<open>Interleavings\<close>

text \<open>A CPU is outside, spins with its ticket, or is inside the critical section.\<close>

datatype phase = Outside | Spinning u16 | Inside

record 'c lock_run =
  lock_word :: jlos_spinlock
  phase_of :: "'c \<Rightarrow> phase"

inductive lock_step :: "'c set \<Rightarrow> 'c lock_run \<Rightarrow> 'c lock_run \<Rightarrow> bool" for C where
  take: "\<lbrakk>c \<in> C; phase_of r c = Outside; spin_lock_ticket (lock_word r) = (n, l)\<rbrakk>
    \<Longrightarrow> lock_step C r (r\<lparr>lock_word := l, phase_of := (phase_of r)(c := Spinning n)\<rparr>)"
| spin: "\<lbrakk>phase_of r c = Spinning n; \<not> spin_lock_done (lock_word r) n\<rbrakk> \<Longrightarrow> lock_step C r r"
| enter: "\<lbrakk>phase_of r c = Spinning n; spin_lock_done (lock_word r) n\<rbrakk>
    \<Longrightarrow> lock_step C r (r\<lparr>phase_of := (phase_of r)(c := Inside)\<rparr>)"
| release: "phase_of r c = Inside
    \<Longrightarrow> lock_step C r (r\<lparr>lock_word := jlos_spin_unlock (lock_word r), phase_of := (phase_of r)(c := Outside)\<rparr>)"

definition lock_start :: "'c lock_run" where
  "lock_start = \<lparr>lock_word = jlos_spinlock_init, phase_of = (\<lambda>_. Outside)\<rparr>"

inductive lock_reachable :: "'c set \<Rightarrow> 'c lock_run \<Rightarrow> bool" for C where
  start: "lock_reachable C lock_start"
| step: "\<lbrakk>lock_reachable C r; lock_step C r r'\<rbrakk> \<Longrightarrow> lock_reachable C r'"

text \<open>
  A run with its history: the CPUs in the order in which they took their tickets, and in the
  order in which they entered the critical section.
\<close>

inductive lock_history :: "'c set \<Rightarrow> 'c lock_run \<Rightarrow> 'c list \<Rightarrow> 'c list \<Rightarrow> bool" for C where
  h_start: "lock_history C lock_start [] []"
| h_take: "\<lbrakk>lock_history C r ts es; lock_step C r r'; phase_of r c = Outside; phase_of r' c \<noteq> Outside\<rbrakk>
    \<Longrightarrow> lock_history C r' (ts @ [c]) es"
| h_enter: "\<lbrakk>lock_history C r ts es; lock_step C r r'; phase_of r c \<noteq> Inside; phase_of r' c = Inside\<rbrakk>
    \<Longrightarrow> lock_history C r' ts (es @ [c])"
| h_other: "\<lbrakk>lock_history C r ts es; lock_step C r r'; \<forall>c. phase_of r' c = phase_of r c \<or> phase_of r c = Inside\<rbrakk>
    \<Longrightarrow> lock_history C r' ts es"

section \<open>The queue of tickets\<close>

text \<open>
  The CPUs with a ticket form a queue in the order of their tickets; the first of them
  may be inside.
\<close>

definition ticket_queue :: "'c lock_run \<Rightarrow> 'c list \<Rightarrow> bool" where
  "ticket_queue r q \<longleftrightarrow> distinct q
     \<and> tnext (lock_word r) = towner (lock_word r) + of_nat (length q)
     \<and> (\<forall>i < length q. phase_of r (q ! i) = Spinning (towner (lock_word r) + of_nat i)
          \<or> (i = 0 \<and> phase_of r (q ! i) = Inside))
     \<and> (\<forall>c. c \<notin> set q \<longrightarrow> phase_of r c = Outside)"

lemma of_nat_u16_inj: "i < 2 ^ 16 \<Longrightarrow> j < 2 ^ 16 \<Longrightarrow> (of_nat i :: u16) = of_nat j \<Longrightarrow> i = j"
proof -
  assume ij: "i < 2 ^ 16" "j < 2 ^ 16" and eq: "(of_nat i :: u16) = of_nat j"
  have "i = unat (of_nat i :: u16)" using ij(1) by (simp add: unat_of_nat take_bit_nat_eq_self)
  also have "\<dots> = unat (of_nat j :: u16)" by (simp only: eq)
  also have "\<dots> = j" using ij(2) by (simp add: unat_of_nat take_bit_nat_eq_self)
  finally show "i = j" .
qed

lemma queue_in:
  assumes "ticket_queue r q" and "phase_of r c \<noteq> Outside"
  obtains i where "i < length q" and "q ! i = c"
  using assms by (auto simp: ticket_queue_def in_set_conv_nth)

lemma queue_take:
  assumes q: "ticket_queue r q" and c: "phase_of r c = Outside" and t: "spin_lock_ticket (lock_word r) = (n, l)"
  shows "ticket_queue (r\<lparr>lock_word := l, phase_of := (phase_of r)(c := Spinning n)\<rparr>) (q @ [c])"
proof -
  have "c \<notin> set q"
  proof
    assume "c \<in> set q"
    then obtain i where "i < length q" "q ! i = c" by (auto simp: in_set_conv_nth)
    then show False using q c by (auto simp: ticket_queue_def)
  qed
  then show ?thesis
    using q t by (auto simp: ticket_queue_def spin_lock_ticket_def nth_append less_Suc_eq algebra_simps
      in_set_conv_nth split: if_splits)
qed

lemma queue_enter:
  assumes q: "ticket_queue r q" and len: "length q \<le> 2 ^ 16"
    and c: "phase_of r c = Spinning n" and dn: "spin_lock_done (lock_word r) n"
  shows "ticket_queue (r\<lparr>phase_of := (phase_of r)(c := Inside)\<rparr>) q" and "q \<noteq> []" and "hd q = c"
proof -
  obtain i where i: "i < length q" "q ! i = c" by (rule queue_in [OF q, of c]) (simp add: c)
  then have "Spinning n = Spinning (towner (lock_word r) + of_nat i)" using q c by (auto simp: ticket_queue_def)
  then have "(of_nat i :: u16) = of_nat 0" using dn by (simp add: spin_lock_done_def)
  then have i0: "i = 0" using of_nat_u16_inj [of i 0] i(1) len by simp
  have dist: "distinct q" using q by (simp add: ticket_queue_def)
  have "q ! j \<noteq> c" if "j < length q" "j \<noteq> 0" for j
    using nth_eq_iff_index_eq [OF dist that(1) i(1)] that(2) i(2) i0 by auto
  then show "ticket_queue (r\<lparr>phase_of := (phase_of r)(c := Inside)\<rparr>) q"
    using q i i0 by (auto simp: ticket_queue_def)
  show "q \<noteq> []" "hd q = c" using i i0 by (auto simp: hd_conv_nth)
qed

lemma queue_release:
  assumes q: "ticket_queue r q" and c: "phase_of r c = Inside"
  obtains q' where "q = c # q'"
    and "ticket_queue (r\<lparr>lock_word := jlos_spin_unlock (lock_word r), phase_of := (phase_of r)(c := Outside)\<rparr>) q'"
proof -
  obtain i where i: "i < length q" "q ! i = c" by (rule queue_in [OF q, of c]) (simp add: c)
  then have "i = 0" using q c by (auto simp: ticket_queue_def)
  then obtain q' where q': "q = c # q'" using i by (cases q) auto
  have nc: "c \<notin> set q'" using q by (simp add: ticket_queue_def q')
  have "phase_of r (q' ! j) = Spinning (towner (lock_word r) + 1 + of_nat j)" if "j < length q'" for j
  proof -
    have "Suc j < length q" using that by (simp add: q')
    then have "phase_of r (q ! Suc j) = Spinning (towner (lock_word r) + of_nat (Suc j))"
      using q by (auto simp: ticket_queue_def)
    then show ?thesis by (simp add: q' algebra_simps)
  qed
  moreover have "q' ! j \<noteq> c" if "j < length q'" for j using nc that by auto
  ultimately have "ticket_queue (r\<lparr>lock_word := jlos_spin_unlock (lock_word r), phase_of := (phase_of r)(c := Outside)\<rparr>) q'"
    using q nc by (auto simp: ticket_queue_def q' jlos_spin_unlock_def algebra_simps)
  then show thesis using that q' by blast
qed

lemma reachable_queue:
  assumes "lock_reachable C r" and "finite C" and "card C \<le> 2 ^ 16"
  shows "\<exists>q. ticket_queue r q \<and> set q \<subseteq> C"
  using assms(1)
proof induction
  case start
  then show ?case by (intro exI [of _ "[]"]) (simp add: ticket_queue_def lock_start_def jlos_spinlock_init_def)
next
  case (step r r')
  then obtain q where q: "ticket_queue r q" "set q \<subseteq> C" by blast
  have "length q \<le> card C"
    using q assms(2) by (metis card_mono distinct_card ticket_queue_def)
  then have len: "length q \<le> 2 ^ 16" using assms(3) by linarith
  from step(2) show ?case
  proof cases
    case (take c n l)
    then show ?thesis using queue_take [OF q(1)] q(2) by (intro exI [of _ "q @ [c]"]) simp
  next
    case (spin c n)
    then show ?thesis using q by blast
  next
    case (enter c n)
    then show ?thesis using queue_enter(1) [OF q(1) len] q(2) by blast
  next
    case (release c)
    obtain q' where "q = c # q'" "ticket_queue r' q'" using queue_release [OF q(1) release(2)] release(1) by blast
    then show ?thesis using q(2) by auto
  qed
qed

text \<open>What is left of the tickets after the entries is the queue behind the CPU that is inside.\<close>

definition history_queue :: "'c set \<Rightarrow> 'c lock_run \<Rightarrow> 'c list \<Rightarrow> 'c list \<Rightarrow> 'c list \<Rightarrow> bool" where
  "history_queue C r ts es ws \<longleftrightarrow> ts = es @ ws
     \<and> (if \<exists>c. phase_of r c = Inside
        then \<exists>c. phase_of r c = Inside \<and> ticket_queue r (c # ws) \<and> set (c # ws) \<subseteq> C
        else ticket_queue r ws \<and> set ws \<subseteq> C)"

lemma queue_inside_iff: "ticket_queue r q \<Longrightarrow> phase_of r c = Inside \<longleftrightarrow> (\<exists>q'. q = c # q' \<and> phase_of r c = Inside)"
  by (rule iffI, erule (1) queue_release [where c=c]) auto

lemma history_queueD:
  assumes "history_queue C r ts es ws"
  obtains q where "ticket_queue r q" and "set q \<subseteq> C" and "ts = es @ ws"
    and "q = ws \<and> (\<forall>c. phase_of r c \<noteq> Inside) \<or> (\<exists>c. q = c # ws \<and> phase_of r c = Inside)"
  using assms by (auto simp: history_queue_def split: if_splits)

lemma history_queueI:
  assumes "ticket_queue r q" and "set q \<subseteq> C" and "ts = es @ ws"
    and "q = ws \<and> (\<forall>c. phase_of r c \<noteq> Inside) \<or> (\<exists>c. q = c # ws \<and> phase_of r c = Inside)"
  shows "history_queue C r ts es ws"
  using assms by (auto simp: history_queue_def)

lemma queue_length:
  assumes "ticket_queue r q" and "set q \<subseteq> C" and "finite C" and "card C \<le> 2 ^ 16"
  shows "length q \<le> 2 ^ 16"
proof -
  have "length q \<le> card C" using assms(1-3) by (metis card_mono distinct_card ticket_queue_def)
  then show ?thesis using assms(4) by linarith
qed

lemma queue_waits:
  assumes q: "ticket_queue r q" and ws: "q = ws \<and> (\<forall>c. phase_of r c \<noteq> Inside) \<or> (\<exists>c. q = c # ws \<and> phase_of r c = Inside)"
    and i: "i < length ws"
  shows "phase_of r (ws ! i) = Spinning (towner (lock_word r) + (if \<exists>c. phase_of r c = Inside then 1 else 0) + of_nat i)"
  using ws
proof
  assume n: "q = ws \<and> (\<forall>c. phase_of r c \<noteq> Inside)"
  then have "phase_of r (ws ! i) = Spinning (towner (lock_word r) + of_nat i)" using q i by (auto simp: ticket_queue_def)
  then show ?thesis using n by auto
next
  assume "\<exists>c. q = c # ws \<and> phase_of r c = Inside"
  then obtain c where c: "q = c # ws" "phase_of r c = Inside" by blast
  then have "phase_of r (q ! Suc i) = Spinning (towner (lock_word r) + of_nat (Suc i))"
    using q i by (auto simp: ticket_queue_def)
  then have "phase_of r (ws ! i) = Spinning (towner (lock_word r) + 1 + of_nat i)" using c by (simp add: algebra_simps)
  then show ?thesis using c(2) by auto
qed

lemma history_take:
  assumes h: "history_queue C r ts es ws" and st: "lock_step C r r'"
    and c: "phase_of r c = Outside" "phase_of r' c \<noteq> Outside"
  shows "history_queue C r' (ts @ [c]) es (ws @ [c])"
proof -
  obtain q where q: "ticket_queue r q" "set q \<subseteq> C" "ts = es @ ws"
      "q = ws \<and> (\<forall>c. phase_of r c \<noteq> Inside) \<or> (\<exists>c. q = c # ws \<and> phase_of r c = Inside)"
    by (rule history_queueD [OF h])
  from st show ?thesis
  proof cases
    case (take d n l)
    have d: "d = c" using c take(1) by (auto split: if_splits)
    have "ticket_queue r' (q @ [c])" using queue_take [OF q(1) c(1)] take(1,4) d by simp
    moreover have "q @ [c] = ws @ [c] \<and> (\<forall>x. phase_of r' x \<noteq> Inside) \<or> (\<exists>x. q @ [c] = x # ws @ [c] \<and> phase_of r' x = Inside)"
      using q(4)
    proof
      assume "\<exists>x. q = x # ws \<and> phase_of r x = Inside"
      then obtain x where x: "q = x # ws" "phase_of r x = Inside" by blast
      then have "phase_of r' x = Inside" using take(1) d c(1) by auto
      then show ?thesis using x(1) by simp
    qed (simp add: take(1) d)
    ultimately show ?thesis using q(2,3) take(2) d by (intro history_queueI [where q="q @ [c]"]) auto
  qed (use c in \<open>auto split: if_splits\<close>)
qed

lemma history_enter:
  assumes h: "history_queue C r ts es ws" and st: "lock_step C r r'"
    and c: "phase_of r c \<noteq> Inside" "phase_of r' c = Inside" and C: "finite C" "card C \<le> 2 ^ 16"
  obtains ws' where "ws = c # ws'" and "history_queue C r' ts (es @ [c]) ws'"
proof -
  obtain q where q: "ticket_queue r q" "set q \<subseteq> C" "ts = es @ ws"
      "q = ws \<and> (\<forall>c. phase_of r c \<noteq> Inside) \<or> (\<exists>c. q = c # ws \<and> phase_of r c = Inside)"
    by (rule history_queueD [OF h])
  note len = queue_length [OF q(1,2) C]
  from st show thesis
  proof cases
    case (enter d n)
    have d: "d = c" using c enter(1) by (auto split: if_splits)
    note e = queue_enter [OF q(1) len enter(2,3)]
    have "q = ws" using q(4) e(3) c(1) d by auto
    then obtain ws' where ws: "ws = c # ws'" using e(2,3) d by (cases ws) auto
    have "ticket_queue r' (c # ws')" using e(1) enter(1) ws \<open>q = ws\<close> by simp
    then have "history_queue C r' ts (es @ [c]) ws'"
      using q(2,3) c(2) ws \<open>q = ws\<close> by (intro history_queueI [where q="c # ws'"]) auto
    then show thesis using that ws by blast
  qed (use c in \<open>auto split: if_splits\<close>)
qed

lemma history_other:
  assumes h: "history_queue C r ts es ws" and st: "lock_step C r r'"
    and o: "\<forall>c. phase_of r' c = phase_of r c \<or> phase_of r c = Inside"
  shows "history_queue C r' ts es ws"
proof -
  obtain q where q: "ticket_queue r q" "set q \<subseteq> C" "ts = es @ ws"
      "q = ws \<and> (\<forall>c. phase_of r c \<noteq> Inside) \<or> (\<exists>c. q = c # ws \<and> phase_of r c = Inside)"
    by (rule history_queueD [OF h])
  from st show ?thesis
  proof cases
    case (take c n l)
    have "phase_of r' c = Spinning n" using take(1) by simp
    then have False using o [rule_format, of c] take(3) by simp
    then show ?thesis ..
  next
    case (spin c n)
    then show ?thesis using h by simp
  next
    case (enter c n)
    have "phase_of r' c = Inside" using enter(1) by simp
    then have False using o [rule_format, of c] enter(2) by simp
    then show ?thesis ..
  next
    case (release c)
    obtain q' where q': "q = c # q'" "ticket_queue r' q'" using queue_release [OF q(1) release(2)] release(1) by blast
    have ws: "ws = q'" using q(4) q'(1) release(2) by auto
    have "phase_of r' d \<noteq> Inside" for d
    proof
      assume d: "phase_of r' d = Inside"
      then have "d \<noteq> c" "phase_of r d = Inside" using release(1) by (auto split: if_splits)
      then show False using queue_inside_iff [OF q(1), of d] q'(1) by simp
    qed
    then show ?thesis using q'(2) q(2,3) ws q'(1) by (intro history_queueI [where q=q']) auto
  qed
qed

lemma history_keeps_queue:
  assumes "lock_history C r ts es" and "finite C" and "card C \<le> 2 ^ 16"
  shows "\<exists>ws. history_queue C r ts es ws"
  using assms(1)
proof induction
  case h_start
  have "history_queue C lock_start [] [] []"
    by (rule history_queueI [where q="[]"]) (simp_all add: ticket_queue_def lock_start_def jlos_spinlock_init_def)
  then show ?case by blast
next
  case (h_take r ts es r' c)
  then obtain ws where "history_queue C r ts es ws" by blast
  then show ?case using history_take h_take(2-4) by metis
next
  case (h_enter r ts es r' c)
  then show ?case using history_enter [OF _ _ _ _ assms(2,3)] by metis
next
  case (h_other r ts es r')
  then show ?case using history_other by blast
qed

text \<open>Every reachable state has a history.\<close>

lemma reachable_history: "lock_reachable C r \<Longrightarrow> \<exists>ts es. lock_history C r ts es"
proof (induction rule: lock_reachable.induct)
  case start
  then show ?case using h_start by blast
next
  case (step r r')
  then obtain ts es where h: "lock_history C r ts es" by blast
  from step(2) show ?case
  proof cases
    case (take c n l)
    have "phase_of r c = Outside" "phase_of r' c \<noteq> Outside" using take by simp_all
    then show ?thesis using h_take [OF h step(2)] by blast
  next
    case (spin c n)
    then show ?thesis using h by blast
  next
    case (enter c n)
    have "phase_of r c \<noteq> Inside" "phase_of r' c = Inside" using enter by simp_all
    then show ?thesis using h_enter [OF h step(2)] by blast
  next
    case (release c)
    have "\<forall>d. phase_of r' d = phase_of r d \<or> phase_of r d = Inside" using release by simp
    then show ?thesis using h_other [OF h step(2)] by blast
  qed
qed

section \<open>Correctness\<close>

text \<open>
  C10: the ticket lock excludes. In every state that up to 65536 CPUs reach by any
  interleaving of their steps, at most one CPU is inside the critical section, although
  the ticket counters wrap around.
\<close>

theorem spinlock_mutual_exclusion:
  assumes "lock_reachable C r" and "finite C" and "card C \<le> 2 ^ 16"
    and "phase_of r c = Inside" and "phase_of r d = Inside"
  shows "c = d"
proof -
  obtain q where q: "ticket_queue r q" using reachable_queue [OF assms(1-3)] by blast
  obtain q1 where "q = c # q1" by (rule queue_release [OF q assms(4)])
  moreover obtain q2 where "q = d # q2" by (rule queue_release [OF q assms(5)])
  ultimately show ?thesis by simp
qed

text \<open>Two CPUs take tickets and the first enters.\<close>

definition lock_demo :: "nat lock_run" where
  "lock_demo = \<lparr>lock_word = \<lparr>tnext = 2, towner = 0\<rparr>, phase_of = (\<lambda>_. Outside)(0 := Inside, 1 := Spinning 1)\<rparr>"

lemma lock_demo_reachable: "lock_reachable {0, 1} lock_demo"
proof -
  define r1 :: "nat lock_run" where "r1 = \<lparr>lock_word = \<lparr>tnext = 1, towner = 0\<rparr>, phase_of = (\<lambda>_. Outside)(0 := Spinning 0)\<rparr>"
  define r2 :: "nat lock_run" where "r2 = \<lparr>lock_word = \<lparr>tnext = 2, towner = 0\<rparr>, phase_of = (\<lambda>_. Outside)(0 := Spinning 0, 1 := Spinning 1)\<rparr>"
  have "lock_step {0, 1} lock_start r1"
    using lock_step.take [of "0 :: nat" "{0, 1}" lock_start 0 "\<lparr>tnext = 1, towner = 0\<rparr>"]
    by (simp add: lock_start_def jlos_spinlock_init_def spin_lock_ticket_def r1_def)
  then have "lock_reachable {0, 1} r1" by (rule lock_reachable.step [OF lock_reachable.start])
  moreover have "lock_step {0, 1} r1 r2"
    using lock_step.take [of "1 :: nat" "{0, 1}" r1 1 "\<lparr>tnext = 2, towner = 0\<rparr>"]
    by (simp add: spin_lock_ticket_def r1_def r2_def)
  ultimately have "lock_reachable {0, 1} r2" by (rule lock_reachable.step)
  moreover have "lock_step {0, 1} r2 lock_demo"
    using lock_step.enter [of r2 0 0 "{0, 1}"]
    by (simp add: spin_lock_done_def r2_def lock_demo_def fun_upd_twist)
  ultimately show ?thesis by (rule lock_reachable.step)
qed

theorem spinlock_mutual_exclusion_witness:
  "{d. phase_of lock_demo d = Inside} = {0}"
proof -
  have h: "finite {0, 1 :: nat}" "card {0, 1 :: nat} \<le> 2 ^ 16" "phase_of lock_demo 0 = Inside"
    by (simp_all add: lock_demo_def)
  show ?thesis using spinlock_mutual_exclusion [OF lock_demo_reachable h] h(3) by (auto simp del: One_nat_def)
qed

text \<open>
  C23: the ticket lock is fair and never stuck. Along every run of up to 65536 CPUs from the
  initial lock, the CPUs have entered in exactly the order in which they took their tickets:
  the entries are a prefix of the tickets taken. The CPUs of the rest wait in that order for
  consecutive tickets, from the one being served when nobody is inside and from the one after it
  otherwise, so when nobody is inside the spin loop of the first of them, and of no other, ends.
\<close>

theorem spinlock_fifo:
  assumes "lock_history C r ts es" and "finite C" and "card C \<le> 2 ^ 16"
  shows "\<exists>ws. ts = es @ ws \<and> distinct ws
    \<and> (\<forall>i < length ws. phase_of r (ws ! i)
          = Spinning (towner (lock_word r) + (if \<exists>c. phase_of r c = Inside then 1 else 0) + of_nat i))
    \<and> (\<forall>c n. phase_of r c = Spinning n \<longrightarrow> c \<in> set ws)
    \<and> (\<forall>c n. phase_of r c = Spinning n \<and> spin_lock_done (lock_word r) n
         \<longleftrightarrow> (\<forall>d. phase_of r d \<noteq> Inside) \<and> ws \<noteq> [] \<and> c = hd ws \<and> phase_of r c = Spinning n)"
proof -
  obtain ws where "history_queue C r ts es ws" using history_keeps_queue [OF assms] by blast
  then obtain q where q: "ticket_queue r q" "set q \<subseteq> C" "ts = es @ ws"
      "q = ws \<and> (\<forall>c. phase_of r c \<noteq> Inside) \<or> (\<exists>c. q = c # ws \<and> phase_of r c = Inside)"
    by (rule history_queueD)
  note len = queue_length [OF q(1,2) assms(2,3)]
  have wait: "phase_of r (ws ! i) = Spinning (towner (lock_word r) + (if \<exists>c. phase_of r c = Inside then 1 else 0) + of_nat i)"
    if "i < length ws" for i by (rule queue_waits [OF q(1,4) that])
  have "c \<in> set ws" if c: "phase_of r c = Spinning n" for c n
  proof -
    have "c \<in> set q" using q(1) c by (auto simp: ticket_queue_def)
    then show ?thesis using q(4) c by auto
  qed
  moreover have "phase_of r c = Spinning n \<and> spin_lock_done (lock_word r) n
         \<longleftrightarrow> (\<forall>d. phase_of r d \<noteq> Inside) \<and> ws \<noteq> [] \<and> c = hd ws \<and> phase_of r c = Spinning n" for c n
  proof
    assume c: "phase_of r c = Spinning n \<and> spin_lock_done (lock_word r) n"
    then have "q \<noteq> []" "hd q = c" using queue_enter(2,3) [OF q(1) len] by blast+
    then show "(\<forall>d. phase_of r d \<noteq> Inside) \<and> ws \<noteq> [] \<and> c = hd ws \<and> phase_of r c = Spinning n"
      using q(4) c by auto
  next
    assume c: "(\<forall>d. phase_of r d \<noteq> Inside) \<and> ws \<noteq> [] \<and> c = hd ws \<and> phase_of r c = Spinning n"
    then have "phase_of r (ws ! 0) = Spinning n" "0 < length ws" using hd_conv_nth [of ws] by auto
    then show "phase_of r c = Spinning n \<and> spin_lock_done (lock_word r) n"
      using wait [of 0] c by (auto simp: spin_lock_done_def)
  qed
  moreover have "distinct ws" using q(1,4) by (auto simp: ticket_queue_def)
  ultimately show ?thesis using q(3) wait by blast
qed

text \<open>Two CPUs take tickets; the first has entered and the second waits.\<close>

theorem spinlock_fifo_witness:
  "\<exists>ts es ws. lock_history {0, 1} lock_demo ts es \<and> ts = es @ ws \<and> ws = [1] \<and> phase_of lock_demo 1 = Spinning 1"
proof -
  have h: "finite {0, 1 :: nat}" "card {0, 1 :: nat} \<le> 2 ^ 16" by simp_all
  obtain ts es where l: "lock_history {0, 1} lock_demo ts es" using reachable_history [OF lock_demo_reachable] by blast
  obtain ws where ws: "ts = es @ ws" "distinct ws"
      "\<forall>i < length ws. phase_of lock_demo (ws ! i)
          = Spinning (towner (lock_word lock_demo) + (if \<exists>c. phase_of lock_demo c = Inside then 1 else 0) + of_nat i)"
      "\<forall>c n. phase_of lock_demo c = Spinning n \<longrightarrow> c \<in> set ws"
    using spinlock_fifo [OF l h] by blast
  have ph: "phase_of lock_demo 0 = Inside" "phase_of lock_demo 1 = Spinning 1" by (simp_all add: lock_demo_def)
  have one: "c = 1" if c: "c \<in> set ws" for c
  proof -
    obtain i where "i < length ws" "ws ! i = c" using c by (auto simp: in_set_conv_nth)
    then have "\<exists>n. phase_of lock_demo c = Spinning n" using ws(3) by blast
    then show ?thesis by (auto simp: lock_demo_def split: if_splits)
  qed
  moreover have "1 \<in> set ws" using ws(4) ph(2) by blast
  ultimately have "set ws = {1}" by blast
  then have "ws = [1]" using ws(2)
    by (metis distinct_card card_1_singletonE length_0_conv length_Suc_conv card.insert card.empty finite.emptyI empty_iff list.set_intros(1) singletonD One_nat_def)
  then show ?thesis using l ws(1) ph(2) by blast
qed

end
