(* ===== verification/Sched.thy ===== *)
theory Sched
  imports Hash_Chain Timer_Wheel
begin

text \<open>
  \<^verbatim>\<open>kernel/multitask.c\<close>: tasks, per-CPU run queues with four priority levels, the pid
  table, sleeping, waiting, exiting, signals and the scheduler itself. Tasks are pointers
  (natural numbers) into a store of task records. The run-queue and wait-queue lists are
  HOL lists, the pid table is the chained hash table and the sleep queue the timer wheel
  of this library. An operation under the manager lock or a run-queue lock is one step.
  Stacks, address spaces, descriptors' objects and the register context are the business
  of other components: an allocation that can fail is a parameter, the context switch is
  the change of the current task. \<open>None\<close> stands for following a null or dangling pointer.
\<close>

section \<open>State\<close>

datatype task_status = READY | RUNNING | BLOCKED | WAITING | ZOMBIE

datatype fd_type = FD_UNUSED | FD_PIPE | FD_CONSOLE | FD_FILE

record jlos_task_fd =
  fd_type :: fd_type
  fd_obj :: "nat option"
  fd_flags :: u8

record jlos_task =
  status :: task_status
  pid :: u32
  parent_pid :: u32
  exit_code :: u32
  sleeping :: bool
  yield :: bool
  errno :: int
  waiting_pid :: u32
  priority :: u32
  remain_slice :: u32
  default_slice :: u32
  last_ready_tick :: u32
  fds :: "jlos_task_fd list"
  slot_idx :: int
  signal_pending :: u32
  signal_handlers :: "nat \<Rightarrow> u64"
  cpu :: nat

record jlos_task_runqueue =
  queue :: "nat \<Rightarrow> nat list"
  qcount :: "nat \<Rightarrow> nat"
  nonempty :: u32

text \<open>
  \<open>tk\<close> is the store of tasks, \<open>wq\<close> the wait queues of semaphores, mutexes and condition
  variables, \<open>cur\<close>, \<open>prev\<close> and \<open>resched\<close> the per-CPU variables of the architecture layer.
  \<open>tasks\<close> holds the first \<open>num_tasks\<close> entries of the task array. Of a task's stack pointer
  \<open>sp\<close>, \<open>saved_sp\<close> keeps where the context switch returns to: a new task starts in an entry
  stub, one that was switched away from resumes inside the scheduler.
\<close>

datatype saved_context = Entry_stub | In_schedule

record sched =
  tk :: "nat \<Rightarrow> jlos_task"
  rq :: "nat \<Rightarrow> jlos_task_runqueue"
  tasks :: "nat list"
  max_tasks :: nat
  pid_hash :: "nat jlos_hash_chain"
  zombie_head :: "nat list"
  sleep_wheel :: "nat jlos_timer_wheel"
  wq :: "nat \<Rightarrow> nat list"
  idle_task :: "nat \<Rightarrow> nat option"
  cur :: "nat \<Rightarrow> nat option"
  prev :: "nat \<Rightarrow> nat option"
  saved_sp :: "nat \<Rightarrow> saved_context"
  resched :: "nat \<Rightarrow> bool"
  num_cpus :: nat
  ticks :: u32
  next_pid :: u32

abbreviation MLFQ_LEVELS :: nat where "MLFQ_LEVELS \<equiv> 4"

definition set_task :: "nat \<Rightarrow> (jlos_task \<Rightarrow> jlos_task) \<Rightarrow> sched \<Rightarrow> sched" where
  "set_task t u s = s\<lparr>tk := (tk s)(t := u (tk s t))\<rparr>"

text \<open>\<open>jlos_list_del_init\<close> takes a node off whatever list it is on.\<close>

definition rq_unlink :: "nat \<Rightarrow> sched \<Rightarrow> sched" where
  "rq_unlink t s = s\<lparr>rq := (\<lambda>c. (rq s c)\<lparr>queue := (\<lambda>l. remove1 t (queue (rq s c) l))\<rparr>)\<rparr>"

definition wq_unlink :: "nat \<Rightarrow> sched \<Rightarrow> sched" where
  "wq_unlink t s = s\<lparr>wq := (\<lambda>q. remove1 t (wq s q))\<rparr>"

section \<open>Run queues\<close>

text \<open>A task's run-queue node is linked exactly when some queue holds it.\<close>

definition task_on_rq :: "nat \<Rightarrow> sched \<Rightarrow> bool" where
  "task_on_rq t s \<longleftrightarrow> list_ex (\<lambda>c. list_ex (\<lambda>l. t \<in> set (queue (rq s c) l)) [0..<MLFQ_LEVELS]) [0..<num_cpus s]"

definition clamp_pri :: "u32 \<Rightarrow> nat" where
  "clamp_pri p = (if p < 4 then unat p else 3)"

definition pid_hash_cmp :: "(nat \<Rightarrow> u32) \<Rightarrow> u32 \<Rightarrow> nat \<Rightarrow> int" where
  "pid_hash_cmp pid_of key t = (if pid_of t = key then 0 else 1)"

definition rq_enqueue :: "nat \<Rightarrow> sched \<Rightarrow> sched" where
  "rq_enqueue t s =
     (let c = cpu (tk s t); r = rq s c; level = clamp_pri (priority (tk s t))
      in s\<lparr>rq := (rq s)(c := r\<lparr>queue := (queue r)(level := queue r level @ [t]),
             qcount := (qcount r)(level := qcount r level + 1),
             nonempty := nonempty r OR push_bit level 1\<rparr>)\<rparr>)"

text \<open>Taking the first task of the lowest non-empty level off a CPU's queues.\<close>

definition rq_take :: "nat \<Rightarrow> sched \<Rightarrow> ((nat \<times> nat) option \<times> sched) option" where
  "rq_take c s =
     (if nonempty (rq s c) = 0 then Some (None, s)
      else let level = builtin_ctz (nonempty (rq s c))
           in case queue (rq s c) level of
                [] \<Rightarrow> None
              | first # _ \<Rightarrow>
                  (let s = rq_unlink first s; r = rq s c; n = qcount r level - 1;
                       r = r\<lparr>qcount := (qcount r)(level := n)\<rparr>;
                       r = (if n = 0 then r\<lparr>nonempty := nonempty r AND NOT (push_bit level 1)\<rparr> else r)
                   in Some (Some (first, level), s\<lparr>rq := (rq s)(c := r)\<rparr>)))"

definition rq_dequeue :: "nat \<Rightarrow> sched \<Rightarrow> (nat option \<times> sched) option" where
  "rq_dequeue c s =
     Option.bind (rq_take c s) (\<lambda>(r, s). case r of
         None \<Rightarrow> Some (None, s)
       | Some (t, level) \<Rightarrow>
           (let now = ticks s;
                boost = (now - last_ready_tick (tk s t)) div 200;
                boost = (if boost < of_nat level then boost else of_nat level);
                level = level - unat boost
            in Some (Some t, set_task t (\<lambda>k. k\<lparr>priority := of_nat level, default_slice := push_bit level 2,
                 last_ready_tick := now\<rparr>) s)))"

definition rq_remove_specific :: "nat \<Rightarrow> sched \<Rightarrow> sched" where
  "rq_remove_specific t s =
     (if \<not> task_on_rq t s then s
      else let l = clamp_pri (priority (tk s t)); c = cpu (tk s t);
               s = rq_unlink t s; r = rq s c; n = qcount r l - 1;
               r = r\<lparr>qcount := (qcount r)(l := n)\<rparr>;
               r = (if n = 0 then r\<lparr>nonempty := nonempty r AND NOT (push_bit l 1)\<rparr> else r)
           in s\<lparr>rq := (rq s)(c := r)\<rparr>)"

section \<open>Task states\<close>

definition jlos_task_set_ready :: "nat \<Rightarrow> sched \<Rightarrow> sched" where
  "jlos_task_set_ready t s = set_task t (\<lambda>k. k\<lparr>status := READY, last_ready_tick := ticks s, yield := False\<rparr>) s"

definition jlos_task_set_running :: "nat \<Rightarrow> sched \<Rightarrow> sched" where
  "jlos_task_set_running t s = set_task t (\<lambda>k. k\<lparr>status := RUNNING, remain_slice := default_slice k, yield := False\<rparr>) s"

definition jlos_task_set_blocked :: "nat \<Rightarrow> sched \<Rightarrow> sched" where
  "jlos_task_set_blocked t s = rq_remove_specific t (set_task t (\<lambda>k. k\<lparr>status := BLOCKED\<rparr>) s)"

definition jlos_task_set_zombie :: "nat \<Rightarrow> u32 \<Rightarrow> sched \<Rightarrow> sched" where
  "jlos_task_set_zombie t code s =
     rq_remove_specific t (set_task t (\<lambda>k. k\<lparr>status := ZOMBIE, exit_code := code\<rparr>) s)"

definition pid_of :: "sched \<Rightarrow> nat \<Rightarrow> u32" where
  "pid_of s t = pid (tk s t)"

definition find_pid_locked :: "u32 \<Rightarrow> sched \<Rightarrow> nat option option" where
  "find_pid_locked p s = jlos_hash_chain_see jlos_hash_uint32 (pid_hash_cmp (pid_of s)) (pid_hash s) p"

definition jlos_task_manager_find_pid :: "u32 \<Rightarrow> sched \<Rightarrow> nat option option" where
  "jlos_task_manager_find_pid p s = find_pid_locked p s"

definition jlos_task_set_waiting :: "nat \<Rightarrow> u32 \<Rightarrow> sched \<Rightarrow> sched option" where
  "jlos_task_set_waiting t p s =
     map_option (\<lambda>target.
       if target \<noteq> None \<and> status (tk s (the target)) = ZOMBIE then s
       else rq_remove_specific t (set_task t (\<lambda>k. k\<lparr>status := WAITING, waiting_pid := p\<rparr>) s))
     (jlos_task_manager_find_pid p s)"

text \<open>The fields of a new task; \<open>c\<close> is the CPU that creates it.\<close>

definition jlos_task_init_1 :: "nat \<Rightarrow> nat \<Rightarrow> sched \<Rightarrow> sched" where
  "jlos_task_init_1 c t s =
     (let s = jlos_task_set_ready t s; p = next_pid s + 1
      in set_task t (\<lambda>k. k\<lparr>pid := p, parent_pid := 0, exit_code := 0, sleeping := False, errno := 0,
           waiting_pid := p, signal_pending := 0, signal_handlers := (\<lambda>_. 0), priority := 0,
           default_slice := 2, remain_slice := 2, slot_idx := -1, cpu := c\<rparr>)
         (s\<lparr>next_pid := p, sleep_wheel := (sleep_wheel s)\<lparr>expires := (expires (sleep_wheel s))(t := 0)\<rparr>\<rparr>))"

section \<open>The task table\<close>

definition jlos_hal_is_task_in_use :: "nat \<Rightarrow> sched \<Rightarrow> bool" where
  "jlos_hal_is_task_in_use t s \<longleftrightarrow> list_ex (\<lambda>c. cur s c = Some t \<or> prev s c = Some t) [0..<num_cpus s]"

text \<open>Taking a task out of its array slot: the last task moves into the hole.\<close>

definition slot_remove :: "nat \<Rightarrow> sched \<Rightarrow> sched" where
  "slot_remove t s =
     (let idx = slot_idx (tk s t); i = nat idx
      in if 0 \<le> idx \<and> i < length (tasks s) \<and> tasks s ! i = t
         then let m = last (tasks s)
              in set_task m (\<lambda>k. k\<lparr>slot_idx := idx\<rparr>) (s\<lparr>tasks := butlast ((tasks s)[i := m])\<rparr>)
         else s)"

definition task_free_locked :: "nat \<Rightarrow> nat \<Rightarrow> sched \<Rightarrow> sched" where
  "task_free_locked c t s =
     (if jlos_hal_is_task_in_use t s then s
      else let s = s\<lparr>pid_hash := jlos_hash_chain_remove (pid_hash s) t\<rparr>;
               s = slot_remove t s;
               s = (if cur s c = Some t then s\<lparr>cur := (cur s)(c := None)\<rparr> else s);
               s = set_task t (\<lambda>k. k\<lparr>slot_idx := -1\<rparr>) s;
               s = wq_unlink t s;
               s = s\<lparr>zombie_head := remove1 t (zombie_head s)\<rparr>;
               s = rq_unlink t s
           in s\<lparr>sleep_wheel := jlos_timer_wheel_del (sleep_wheel s) t\<rparr>)"

definition jlos_task_free :: "nat \<Rightarrow> nat \<Rightarrow> sched \<Rightarrow> sched" where
  "jlos_task_free c t s = task_free_locked c t s"

text \<open>\<open>grow\<close> tells whether the larger array could be allocated when the table is full.\<close>

definition jlos_task_manager_add_task :: "bool \<Rightarrow> nat \<Rightarrow> sched \<Rightarrow> bool \<times> sched" where
  "jlos_task_manager_add_task grow t s =
     (if max_tasks s \<le> length (tasks s) \<and> \<not> grow then (False, s)
      else let s = (if max_tasks s \<le> length (tasks s) then s\<lparr>max_tasks := max_tasks s * 2\<rparr> else s);
               s = set_task t (\<lambda>k. k\<lparr>slot_idx := int (length (tasks s))\<rparr>) s;
               s = s\<lparr>tasks := tasks s @ [t]\<rparr>
           in (True, s\<lparr>pid_hash := jlos_hash_chain_insert jlos_hash_uint32 (pid_hash s) (pid (tk s t)) t\<rparr>))"

definition jlos_task_manager_enqueue :: "nat \<Rightarrow> sched \<Rightarrow> sched" where
  "jlos_task_manager_enqueue t s = (if status (tk s t) = READY then rq_enqueue t s else s)"

definition empty_rq :: jlos_task_runqueue where
  "empty_rq = \<lparr>queue = (\<lambda>_. []), qcount = (\<lambda>_. 0), nonempty = 0\<rparr>"

text \<open>The manager's initialisation on the boot CPU, with the idle task at \<open>idle\<close>.\<close>

definition jlos_task_manager_init :: "nat \<Rightarrow> sched \<Rightarrow> sched option" where
  "jlos_task_manager_init idle s =
     map_option (\<lambda>h.
       let s = s\<lparr>max_tasks := 256, next_pid := 1, pid_hash := h, zombie_head := [],
             sleep_wheel := jlos_timer_wheel_init (sleep_wheel s) (ticks s), rq := (\<lambda>_. empty_rq)\<rparr>;
           s = jlos_task_set_running idle (jlos_task_init_1 0 idle s);
           s = set_task idle (\<lambda>k. k\<lparr>pid := 0, slot_idx := 0\<rparr>) s;
           s = s\<lparr>idle_task := (idle_task s)(0 := Some idle), tasks := [idle],
             pid_hash := jlos_hash_chain_insert jlos_hash_uint32 (pid_hash s) 0 idle\<rparr>
       in s\<lparr>cur := (cur s)(0 := Some idle)\<rparr>)
     (jlos_hash_chain_init (pid_hash s) 256)"

definition jlos_sched_init_cpu :: "bool \<Rightarrow> nat \<Rightarrow> nat \<Rightarrow> sched \<Rightarrow> sched" where
  "jlos_sched_init_cpu grow c idle s =
     (if idle_task s c \<noteq> None then s
      else let s = jlos_task_set_running idle (jlos_task_init_1 c idle s);
               s = snd (jlos_task_manager_add_task grow idle s);
               s = jlos_task_manager_enqueue idle s
           in s\<lparr>idle_task := (idle_task s)(c := Some idle), cur := (cur s)(c := Some idle)\<rparr>)"

section \<open>Sleeping and waking\<close>

definition jlos_sched_set_need_resched_on :: "nat \<Rightarrow> sched \<Rightarrow> sched" where
  "jlos_sched_set_need_resched_on c s = s\<lparr>resched := (resched s)(c := True)\<rparr>"

definition sleep_expire :: "nat \<Rightarrow> sched \<Rightarrow> sched" where
  "sleep_expire t s =
     (let s = set_task t (\<lambda>k. k\<lparr>sleeping := False\<rparr>) s
      in if status (tk s t) = BLOCKED then rq_enqueue t (jlos_task_set_ready t s) else s)"

definition jlos_task_wakeup :: "nat \<Rightarrow> sched \<Rightarrow> sched" where
  "jlos_task_wakeup t s =
     (let s = (if sleeping (tk s t)
               then (let s = set_task t (\<lambda>k. k\<lparr>sleeping := False\<rparr>) s
                     in s\<lparr>sleep_wheel := jlos_timer_wheel_del (sleep_wheel s) t\<rparr>)
               else s);
          s = (if status (tk s t) = BLOCKED then rq_enqueue t (jlos_task_set_ready t s) else s)
      in jlos_sched_set_need_resched_on (cpu (tk s t)) s)"

section \<open>The scheduler\<close>

definition rq_task_count :: "nat \<Rightarrow> sched \<Rightarrow> nat" where
  "rq_task_count c s = (\<Sum>l\<leftarrow>[0..<MLFQ_LEVELS]. qcount (rq s c) l)"

definition rq_steal_cpu :: "nat \<Rightarrow> sched \<Rightarrow> (nat option \<times> sched) option" where
  "rq_steal_cpu c s = map_option (\<lambda>(r, s). (map_option fst r, s)) (rq_take c s)"

fun busiest_loop :: "nat \<Rightarrow> sched \<Rightarrow> nat list \<Rightarrow> nat \<Rightarrow> nat \<Rightarrow> nat \<times> nat" where
  "busiest_loop me s [] busiest max_count = (busiest, max_count)"
| "busiest_loop me s (c # cs) busiest max_count =
     (if c = me then busiest_loop me s cs busiest max_count
      else let count = rq_task_count c s
           in if max_count < count then busiest_loop me s cs c count
              else busiest_loop me s cs busiest max_count)"

definition jlos_sched_balance :: "nat \<Rightarrow> sched \<Rightarrow> sched option" where
  "jlos_sched_balance c s =
     (if num_cpus s \<le> 1 then Some s
      else let (busiest, max_count) = busiest_loop c s [0..<num_cpus s] c 0
           in if busiest = c \<or> max_count = 0 then Some s
              else map_option (\<lambda>(r, s). case r of
                       None \<Rightarrow> s
                     | Some t \<Rightarrow> rq_enqueue t (set_task t (\<lambda>k. k\<lparr>cpu := c\<rparr>) s))
                   (rq_steal_cpu busiest s))"

text \<open>What happens to the running task before the next one is chosen.\<close>

definition requeue_prev :: "nat \<Rightarrow> nat \<Rightarrow> sched \<Rightarrow> sched" where
  "requeue_prev c p s =
     (if status (tk s p) = RUNNING then
        if sleeping (tk s p) then jlos_task_set_blocked p s
        else if Some p \<noteq> idle_task s c then
          (let s = (if yield (tk s p) \<or> remain_slice (tk s p) = 0
                    then if remain_slice (tk s p) = 0 \<and> priority (tk s p) < 3
                         then set_task p (\<lambda>k. k\<lparr>priority := priority k + 1,
                                default_slice := push_bit (unat (priority k + 1)) 2\<rparr>) s
                         else s
                    else s)
           in rq_enqueue p (jlos_task_set_ready p s))
        else s
      else s)"

fun reap_zombies :: "nat \<Rightarrow> nat \<Rightarrow> nat list \<Rightarrow> sched \<Rightarrow> sched" where
  "reap_zombies c p [] s = s"
| "reap_zombies c p (z # zs) s =
     (if z = p \<or> jlos_hal_is_task_in_use z s then reap_zombies c p zs s
      else reap_zombies c p zs (task_free_locked c z (s\<lparr>zombie_head := remove1 z (zombie_head s)\<rparr>)))"

definition wheel_expire :: "sched \<Rightarrow> sched option" where
  "wheel_expire s =
     map_option (\<lambda>(w, s). s\<lparr>sleep_wheel := w\<rparr>)
       (jlos_timer_wheel_advance sleep_expire (ticks s) (sleep_wheel s, s))"

definition pick_next :: "nat \<Rightarrow> sched \<Rightarrow> (nat option \<times> sched) option" where
  "pick_next c s =
     Option.bind (rq_dequeue c s) (\<lambda>(n, s).
     Option.bind (if n = None then Option.bind (jlos_sched_balance c s) (rq_dequeue c) else Some (n, s)) (\<lambda>(n, s).
       Some (if n = None then idle_task s c else n, s)))"

text \<open>The array slot of a task, looked up again when the cached index is stale.\<close>

definition task_slot :: "nat \<Rightarrow> sched \<Rightarrow> nat option \<times> sched" where
  "task_slot t s =
     (let idx = slot_idx (tk s t)
      in if idx < 0 \<or> length (tasks s) \<le> nat idx \<or> tasks s ! nat idx \<noteq> t
         then (case List.find (\<lambda>i. tasks s ! i = t) [0..<length (tasks s)] of
                 None \<Rightarrow> (None, s)
               | Some i \<Rightarrow> (Some i, set_task t (\<lambda>k. k\<lparr>slot_idx := int i\<rparr>) s))
         else (Some (nat idx), s))"

text \<open>
  The context switch stores where the old task resumes and returns on the next task's stack. A
  task that was switched away from before returns into this function, which clears \<open>prev\<close>
  again; a task that runs for the first time starts in its entry stub, and \<open>prev\<close> keeps
  naming the old task until the CPU resumes such a task. When the chosen task is in no array
  slot the code reports it and goes on with the old one.
\<close>

definition jlos_hal_context_switch :: "nat \<Rightarrow> nat \<Rightarrow> sched \<Rightarrow> saved_context \<times> sched" where
  "jlos_hal_context_switch p nx s = (saved_sp s nx, s\<lparr>saved_sp := (saved_sp s)(p := In_schedule)\<rparr>)"

definition jlos_task_manager_schedule :: "nat \<Rightarrow> sched \<Rightarrow> sched option" where
  "jlos_task_manager_schedule c s =
     (case cur s c of
        None \<Rightarrow> Some s
      | Some p \<Rightarrow>
          (let s = requeue_prev c p s;
               s = reap_zombies c p (zombie_head s) s
           in Option.bind (wheel_expire s) (\<lambda>s.
              Option.bind (pick_next c s) (\<lambda>(n, s).
                case n of
                  None \<Rightarrow> None
                | Some nx \<Rightarrow>
                    if nx = p then Some ((jlos_task_set_running p s)\<lparr>resched := (resched s)(c := False)\<rparr>)
                    else case task_slot nx s of
                           (None, s) \<Rightarrow> Some s
                         | (Some _, s) \<Rightarrow>
                             (let s = s\<lparr>prev := (prev s)(c := Some p), cur := (cur s)(c := Some nx)\<rparr>;
                                  s = (jlos_task_set_running nx s)\<lparr>resched := (resched s)(c := False)\<rparr>;
                                  (resumed, s) = jlos_hal_context_switch p nx s
                              in Some (if resumed = In_schedule then s\<lparr>prev := (prev s)(c := None)\<rparr> else s))))))"

definition jlos_task_manager_curr_task_on_tick :: "nat \<Rightarrow> sched \<Rightarrow> nat option \<times> sched" where
  "jlos_task_manager_curr_task_on_tick c s =
     (case cur s c of
        None \<Rightarrow> (None, s)
      | Some t \<Rightarrow>
          if idle_task s c = Some t then (None, s)
          else if status (tk s t) = RUNNING \<and> 0 < remain_slice (tk s t)
          then (Some t, set_task t (\<lambda>k. k\<lparr>remain_slice := remain_slice k - 1\<rparr>) s)
          else (Some t, s))"

definition jlos_task_manager_tick_and_schedule :: "nat \<Rightarrow> sched \<Rightarrow> sched option" where
  "jlos_task_manager_tick_and_schedule c s =
     (let (curr, s) = jlos_task_manager_curr_task_on_tick c s
      in if resched s c \<or> (case curr of None \<Rightarrow> True
                           | Some t \<Rightarrow> status (tk s t) \<noteq> RUNNING \<or> remain_slice (tk s t) = 0)
         then jlos_task_manager_schedule c s else Some s)"

definition jlos_task_sleep_until :: "nat \<Rightarrow> u32 \<Rightarrow> sched \<Rightarrow> sched option" where
  "jlos_task_sleep_until c wake s =
     (case cur s c of
        None \<Rightarrow> Some s
      | Some t \<Rightarrow>
          (let w = sleep_wheel s;
               s = s\<lparr>sleep_wheel := w\<lparr>expires := (expires w)(t := wake)\<rparr>\<rparr>;
               s = jlos_task_set_blocked t (set_task t (\<lambda>k. k\<lparr>sleeping := True\<rparr>) s);
               s = s\<lparr>sleep_wheel := jlos_timer_wheel_add (jlos_timer_wheel_del (sleep_wheel s) t) t\<rparr>
           in jlos_task_manager_schedule c s))"

section \<open>Exit, wait and signals\<close>

definition wake_waiter_locked :: "u32 \<Rightarrow> sched \<Rightarrow> sched option" where
  "wake_waiter_locked exited_pid s =
     Option.bind (find_pid_locked exited_pid s) (\<lambda>ex.
       case ex of
         None \<Rightarrow> Some s
       | Some e \<Rightarrow>
           (let pp = parent_pid (tk s e)
            in if pp \<noteq> 0 \<and> pp \<noteq> exited_pid then
                 map_option (\<lambda>par. case par of
                     None \<Rightarrow> s
                   | Some p \<Rightarrow>
                       if status (tk s p) = WAITING \<and> waiting_pid (tk s p) = exited_pid then
                         (let s = set_task p (\<lambda>k. k\<lparr>waiting_pid := pid k\<rparr>) s;
                              s = jlos_task_set_ready p s;
                              s = (if \<not> task_on_rq p s then rq_enqueue p s else s)
                          in jlos_sched_set_need_resched_on (cpu (tk s p)) s)
                       else s)
                   (find_pid_locked pp s)
               else Some s))"

definition jlos_sched_wake_waiter :: "u32 \<Rightarrow> sched \<Rightarrow> sched option" where
  "jlos_sched_wake_waiter exited_pid s = wake_waiter_locked exited_pid s"

text \<open>The exit path up to the final call of the scheduler.\<close>

definition exit_notify :: "nat \<Rightarrow> u32 \<Rightarrow> sched \<Rightarrow> sched option" where
  "exit_notify t code s =
     (let s = jlos_task_set_zombie t code s
      in Option.bind (find_pid_locked (parent_pid (tk s t)) s) (\<lambda>par.
           if par \<noteq> None \<and> status (tk s (the par)) \<noteq> ZOMBIE
           then wake_waiter_locked (pid (tk s t)) s
           else Some (s\<lparr>zombie_head := t # zombie_head s\<rparr>)))"

definition jlos_process_exit :: "nat \<Rightarrow> nat \<Rightarrow> u32 \<Rightarrow> sched \<Rightarrow> sched option" where
  "jlos_process_exit c t code s =
     Option.bind (exit_notify t code s) (\<lambda>s.
       jlos_task_manager_schedule c (s\<lparr>resched := (resched s)(c := True)\<rparr>))"

abbreviation ERR_INVAL :: int where "ERR_INVAL \<equiv> 2"
abbreviation ERR_NOT_FOUND :: int where "ERR_NOT_FOUND \<equiv> 3"
abbreviation ERR_NO_CHILD :: int where "ERR_NO_CHILD \<equiv> 4"

text \<open>Result code, exit status if stored, state; \<open>c\<close> is the calling CPU.\<close>

definition jlos_task_reap_child :: "nat \<Rightarrow> u32 \<Rightarrow> nat \<Rightarrow> sched \<Rightarrow> (int \<times> u32 option \<times> sched) option" where
  "jlos_task_reap_child c p parent s =
     map_option (\<lambda>target.
       case target of
         None \<Rightarrow> (- ERR_INVAL, None, s)
       | Some t \<Rightarrow>
           if parent_pid (tk s t) \<noteq> pid (tk s parent) \<or> status (tk s t) \<noteq> ZOMBIE then (- ERR_INVAL, None, s)
           else (sint (pid (tk s t)), Some (exit_code (tk s t)), task_free_locked c t s))
     (find_pid_locked p s)"

definition jlos_task_wait_or_reap :: "nat \<Rightarrow> u32 \<Rightarrow> nat \<Rightarrow> sched \<Rightarrow> (int \<times> u32 option \<times> sched) option" where
  "jlos_task_wait_or_reap c p parent s =
     map_option (\<lambda>target.
       case target of
         None \<Rightarrow> (- ERR_NOT_FOUND, None, s)
       | Some t \<Rightarrow>
           if parent_pid (tk s t) \<noteq> pid (tk s parent) then (- ERR_NO_CHILD, None, s)
           else if status (tk s t) = ZOMBIE
           then (sint (pid (tk s t)), Some (exit_code (tk s t)), task_free_locked c t s)
           else (0, None, set_task parent (\<lambda>k. k\<lparr>status := WAITING, waiting_pid := p\<rparr>) s))
     (find_pid_locked p s)"

definition jlos_task_check_zombie_exit :: "u32 \<Rightarrow> u32 \<Rightarrow> sched \<Rightarrow> bool option" where
  "jlos_task_check_zombie_exit p expected s =
     map_option (\<lambda>target. case target of
         None \<Rightarrow> False
       | Some t \<Rightarrow> status (tk s t) = ZOMBIE \<and> exit_code (tk s t) = expected)
     (find_pid_locked p s)"

text \<open>Sending a signal; the branch on which the task kills itself does not return.\<close>

definition jlos_signal_send :: "nat \<Rightarrow> nat \<Rightarrow> u32 \<Rightarrow> sched \<Rightarrow> (int \<times> sched) option" where
  "jlos_signal_send c t sig s =
     (if sig = 0 \<or> 32 \<le> sig then Some (-1, s)
      else let pend = (\<lambda>k. k\<lparr>signal_pending := signal_pending k OR push_bit (unat sig) 1\<rparr>)
           in if sig = 9 then
                if status (tk s t) = ZOMBIE then Some (0, s)
                else if cur s c = Some t then map_option (\<lambda>s. (0, s)) (jlos_process_exit c t sig s)
                else Some (0, jlos_task_wakeup t (set_task t pend s))
              else Some (0, set_task t pend s))"

text \<open>
  Delivering signals on the way back to user mode: the lowest pending signal with a
  handler gets its frame, ignored ones are dropped, and a fatal one ends the task. The
  loop runs over the pending set read at its start.
\<close>

datatype delivery = No_signal | Handler nat u64 | Fatal nat

lemma clear_lowest_less: "pend \<noteq> 0 \<Longrightarrow> k = builtin_ctz pend \<Longrightarrow> pend AND NOT (push_bit k 1) < (pend :: u32)"
proof -
  assume nz: "pend \<noteq> 0" and k: "k = builtin_ctz pend"
  have b: "bit pend k" using builtin_ctz_props(2) [OF nz] k by simp
  have "pend AND NOT (push_bit k 1) \<le> pend" by (rule word_and_le2)
  moreover have "\<not> bit (pend AND NOT (push_bit k 1)) k"
    using b by (simp add: bit_and_iff bit_not_iff bit_exp_iff bit_imp_le_length)
  then have "pend AND NOT (push_bit k 1) \<noteq> pend" using b by metis
  ultimately show ?thesis by (simp add: order_less_le)
qed

function deliver_loop :: "u32 \<Rightarrow> nat \<Rightarrow> sched \<Rightarrow> delivery \<times> sched" where
  "deliver_loop pend t s =
     (if pend = 0 then (No_signal, s)
      else let sig = builtin_ctz pend;
               pend = pend AND NOT (push_bit sig 1);
               s = set_task t (\<lambda>k. k\<lparr>signal_pending := signal_pending k AND NOT (push_bit sig 1)\<rparr>) s
           in if sig = 0 then deliver_loop pend t s
              else let h = signal_handlers (tk s t) sig
                   in if h = 1 then deliver_loop pend t s
                      else if h \<noteq> 0 then (Handler sig h, s)
                      else if sig = 9 \<or> sig = 11 \<or> sig = 15 then (Fatal sig, s)
                      else deliver_loop pend t s)"
  by pat_completeness auto

termination
  by (relation "measure (\<lambda>(pend, t, s). unat pend)")
    (auto simp only: in_measure prod.case wf_measure word_less_nat_alt [symmetric] intro!: clear_lowest_less)

declare deliver_loop.simps [simp del]

definition jlos_signal_check_deliver :: "nat \<Rightarrow> sched \<Rightarrow> delivery \<times> sched" where
  "jlos_signal_check_deliver t s = deliver_loop (signal_pending (tk s t)) t s"

section \<open>Descriptors\<close>

abbreviation FDS_NUM :: nat where "FDS_NUM \<equiv> 16"

text \<open>The result is \<open>-1\<close> when the table is full. A table of fewer than 16 entries is
  indexed out of range, which is \<open>None\<close>.\<close>

fun fd_scan :: "nat \<Rightarrow> nat \<Rightarrow> jlos_task_fd list \<Rightarrow> (int \<times> jlos_task_fd list) option" where
  "fd_scan i 0 fs = Some (-1, fs)"
| "fd_scan i (Suc k) fs =
     (if length fs \<le> i then None
      else if fd_type (fs ! i) = FD_UNUSED then Some (int i, fs[i := (fs ! i)\<lparr>fd_type := FD_PIPE\<rparr>])
      else fd_scan (Suc i) k fs)"

definition jlos_task_fd_malloc :: "nat \<Rightarrow> sched \<Rightarrow> (int \<times> sched) option" where
  "jlos_task_fd_malloc t s =
     map_option (\<lambda>(i, fs). (i, set_task t (\<lambda>k. k\<lparr>fds := fs\<rparr>) s)) (fd_scan 3 (FDS_NUM - 3) (fds (tk s t)))"

text \<open>A descriptor is returned as its index in the table.\<close>

definition jlos_task_fd_get :: "nat \<Rightarrow> int \<Rightarrow> sched \<Rightarrow> nat option" where
  "jlos_task_fd_get t fd s =
     (if fd < 0 \<or> int FDS_NUM \<le> fd then None
      else if fd_type (fds (tk s t) ! nat fd) = FD_UNUSED then None else Some (nat fd))"

definition jlos_task_fd_free :: "nat \<Rightarrow> int \<Rightarrow> sched \<Rightarrow> sched" where
  "jlos_task_fd_free t fd s =
     (if fd < 0 \<or> int FDS_NUM \<le> fd then s
      else set_task t (\<lambda>k. k\<lparr>fds := (fds k)[nat fd := \<lparr>fd_type = FD_UNUSED, fd_obj = None, fd_flags = 0\<rparr>]\<rparr>) s)"

section \<open>Fork\<close>

text \<open>
  \<open>c\<close> is the fresh task the slab returned, or nothing. The flags tell whether the stack,
  the descriptor table, the address space and a larger task array could be allocated.
  The descriptor objects whose reference counts rise are the caller's business.
\<close>

definition fork_child :: "nat \<Rightarrow> nat \<Rightarrow> sched \<Rightarrow> sched" where
  "fork_child parent ch s =
     (let p = next_pid s + 1; par = tk s parent;
          s = s\<lparr>next_pid := p, tk := (tk s)(ch := par\<lparr>pid := p\<rparr>)\<rparr>;
          s = jlos_task_set_ready ch s
      in set_task ch (\<lambda>k. k\<lparr>parent_pid := pid par, waiting_pid := p, sleeping := False, errno := 0,
           signal_pending := 0, exit_code := 0, remain_slice := default_slice par, slot_idx := -1\<rparr>) s)"

text \<open>The child's first context switch goes to the stub that returns from the fork.\<close>

definition jlos_arch_task_copy_thread :: "nat \<Rightarrow> sched \<Rightarrow> sched" where
  "jlos_arch_task_copy_thread ch s = s\<lparr>saved_sp := (saved_sp s)(ch := Entry_stub)\<rparr>"

definition jlos_process_fork_inner :: "nat option \<Rightarrow> bool \<Rightarrow> bool \<Rightarrow> bool \<Rightarrow> bool \<Rightarrow> nat \<Rightarrow> sched \<Rightarrow> nat option \<times> sched" where
  "jlos_process_fork_inner child stack_ok fds_ok mm_ok grow parent s =
     (case child of
        None \<Rightarrow> (None, s)
      | Some ch \<Rightarrow>
          (let s = fork_child parent ch s
           in if \<not> stack_ok \<or> \<not> fds_ok \<or> \<not> mm_ok then (None, s)
              else case jlos_task_manager_add_task grow ch (jlos_arch_task_copy_thread ch s) of
                     (False, s) \<Rightarrow> (None, s)
                   | (True, s) \<Rightarrow> (Some ch, jlos_task_manager_enqueue ch s)))"

section \<open>Reaping all zombies\<close>

text \<open>\<open>busy t\<close> says that a kernel thread's stopper still needs it.\<close>

definition reapable :: "(nat \<Rightarrow> bool) \<Rightarrow> sched \<Rightarrow> nat \<Rightarrow> bool" where
  "reapable busy s t \<longleftrightarrow> \<not> list_ex (\<lambda>c. idle_task s c = Some t) [0..<8] \<and> status (tk s t) = ZOMBIE
     \<and> \<not> jlos_hal_is_task_in_use t s \<and> \<not> busy t"

text \<open>The scan restarts after every task it frees; \<open>n\<close> bounds the number of restarts.\<close>

fun reap_all_loop :: "nat \<Rightarrow> (nat \<Rightarrow> bool) \<Rightarrow> nat \<Rightarrow> sched \<Rightarrow> sched option" where
  "reap_all_loop 0 busy c s = None"
| "reap_all_loop (Suc n) busy c s =
     (case List.find (reapable busy s) (drop 1 (tasks s)) of
        None \<Rightarrow> Some s
      | Some t \<Rightarrow> reap_all_loop n busy c (task_free_locked c t (s\<lparr>zombie_head := remove1 t (zombie_head s)\<rparr>)))"

definition jlos_task_reap_all_zombies :: "(nat \<Rightarrow> bool) \<Rightarrow> nat \<Rightarrow> sched \<Rightarrow> sched option" where
  "jlos_task_reap_all_zombies busy c s = reap_all_loop (Suc (length (tasks s))) busy c s"

section \<open>The task name\<close>

text \<open>
  Copying the name into the task record at address \<open>dst\<close>: up to 32 characters, then the
  terminator. The name array has 32 bytes.
\<close>

fun name_loop :: "nat \<Rightarrow> nat \<Rightarrow> nat \<Rightarrow> nat \<Rightarrow> mem \<Rightarrow> nat \<times> mem" where
  "name_loop dst src i 0 m = (i, m)"
| "name_loop dst src i (Suc k) m =
     (if m (src + i) = 0 then (i, m) else name_loop dst src (Suc i) k (m(dst + i := m (src + i))))"

definition task_name_init :: "nat \<Rightarrow> nat \<Rightarrow> mem \<Rightarrow> mem" where
  "task_name_init dst src m = (let (i, m) = name_loop dst src 0 32 m in m(dst + i := 0))"

end
