(* ===== verification/Sched_Inv.thy ===== *)
theory Sched_Inv
  imports Sched
begin

text \<open>
  The invariant of the scheduler and its preservation: run queues, current and idle
  tasks, the task array, the pid table and the sleep wheel fit together, a task is on at
  most one run queue, and whatever is queued is ready.
\<close>

section \<open>Run queues\<close>

definition queued :: "sched \<Rightarrow> nat set" where
  "queued s = {t. \<exists>c l. t \<in> set (queue (rq s c) l)}"

text \<open>\<open>rq_ok s X\<close>: the queues are consistent, and the tasks on them are ready, with the
  possible exception of those in \<open>X\<close>, which are about to be removed.\<close>

definition rq_ok :: "sched \<Rightarrow> nat set \<Rightarrow> bool" where
  "rq_ok s X \<longleftrightarrow> (\<forall>c l. distinct (queue (rq s c) l))
     \<and> (\<forall>c l t. t \<in> set (queue (rq s c) l) \<longrightarrow> c < num_cpus s \<and> cpu (tk s t) = c
          \<and> clamp_pri (priority (tk s t)) = l \<and> (t \<notin> X \<longrightarrow> status (tk s t) = READY))
     \<and> (\<forall>c l. qcount (rq s c) l = length (queue (rq s c) l))
     \<and> (\<forall>c k. bit (nonempty (rq s c)) k \<longleftrightarrow> k < MLFQ_LEVELS \<and> queue (rq s c) k \<noteq> [])"

abbreviation rq_inv :: "sched \<Rightarrow> bool" where "rq_inv s \<equiv> rq_ok s {}"

lemma clamp_pri_less: "clamp_pri p < MLFQ_LEVELS"
  by (simp add: clamp_pri_def word_less_nat_alt)

lemma rq_okD:
  assumes "rq_ok s X" and "t \<in> set (queue (rq s c) l)"
  shows "c = cpu (tk s t)" and "l = clamp_pri (priority (tk s t))" and "c < num_cpus s" and "l < MLFQ_LEVELS"
    and "t \<notin> X \<Longrightarrow> status (tk s t) = READY"
  using assms clamp_pri_less [of "priority (tk s t)"] by (auto simp: rq_ok_def)

lemma rq_ok_shape:
  assumes "rq_ok s X"
  shows "distinct (queue (rq s c) l)" and "qcount (rq s c) l = length (queue (rq s c) l)"
    and "bit (nonempty (rq s c)) l \<longleftrightarrow> l < MLFQ_LEVELS \<and> queue (rq s c) l \<noteq> []"
  using assms by (simp_all add: rq_ok_def)

lemma task_on_rq_iff: "rq_ok s X \<Longrightarrow> task_on_rq t s \<longleftrightarrow> t \<in> queued s"
proof -
  assume ok: "rq_ok s X"
  have "t \<in> set (queue (rq s c) l) \<Longrightarrow> c < num_cpus s \<and> l < MLFQ_LEVELS" for c l
    using rq_okD(3,4) [OF ok] by blast
  then show ?thesis unfolding task_on_rq_def queued_def list_ex_iff by fastforce
qed

lemma queued_cong: "rq s' = rq s \<Longrightarrow> queued s' = queued s"
  by (simp add: queued_def)

lemma saved_sp_set_task [simp]: "saved_sp (set_task t u s) = saved_sp s"
  by (simp add: set_task_def)

lemma set_task_fields [simp]:
  "rq (set_task t u s) = rq s" "tasks (set_task t u s) = tasks s" "max_tasks (set_task t u s) = max_tasks s"
  "pid_hash (set_task t u s) = pid_hash s" "zombie_head (set_task t u s) = zombie_head s"
  "sleep_wheel (set_task t u s) = sleep_wheel s" "wq (set_task t u s) = wq s"
  "idle_task (set_task t u s) = idle_task s" "cur (set_task t u s) = cur s" "prev (set_task t u s) = prev s"
  "resched (set_task t u s) = resched s" "num_cpus (set_task t u s) = num_cpus s" "ticks (set_task t u s) = ticks s"
  "next_pid (set_task t u s) = next_pid s"
  "tk (set_task t u s) x = (if x = t then u (tk s t) else tk s x)"
  by (simp_all add: set_task_def)

lemma queued_set_task [simp]: "queued (set_task t u s) = queued s"
  by (simp add: queued_def)

lemma rq_ok_set_task:
  assumes "rq_ok s X" and "cpu (u (tk s t)) = cpu (tk s t)" and "priority (u (tk s t)) = priority (tk s t)"
    and "status (u (tk s t)) = status (tk s t) \<or> t \<in> X"
  shows "rq_ok (set_task t u s) X"
  using assms by (auto simp: rq_ok_def)

lemma rq_ok_set_task_off:
  "rq_ok s X \<Longrightarrow> t \<notin> queued s \<Longrightarrow> rq_ok (set_task t u s) X"
  by (auto simp: rq_ok_def queued_def)

lemma rq_ok_mono: "rq_ok s X \<Longrightarrow> X \<subseteq> Y \<Longrightarrow> rq_ok s Y"
  unfolding rq_ok_def by blast

lemma rq_ok_cong:
  "\<lbrakk>rq_ok s X; rq s' = rq s; num_cpus s' = num_cpus s; \<And>t. t \<in> queued s \<Longrightarrow> tk s' t = tk s t\<rbrakk> \<Longrightarrow> rq_ok s' X"
  unfolding rq_ok_def queued_def mem_Collect_eq by metis

lemma rq_fields_upd [simp]:
  "tk (rq_update f s) = tk s" "rq (rq_unlink t s) c = (rq s c)\<lparr>queue := (\<lambda>l. remove1 t (queue (rq s c) l))\<rparr>"
  "tk (rq_unlink t s) = tk s" "num_cpus (rq_unlink t s) = num_cpus s"
  by (simp_all add: rq_unlink_def)

lemma level_bit:
  "l < MLFQ_LEVELS \<Longrightarrow> bit (b OR 2 ^ l) i \<longleftrightarrow> bit b i \<or> i = l"
  "bit (b AND NOT (2 ^ l)) i \<longleftrightarrow> bit b i \<and> i \<noteq> l" for b :: u32
  by (auto simp: bit_or_iff bit_and_iff bit_not_iff bit_exp_iff dest: bit_imp_le_length)

subsection \<open>Enqueue\<close>

lemma rq_enqueue_queue:
  "queue (rq (rq_enqueue t s) c) l = queue (rq s c) l
     @ (if c = cpu (tk s t) \<and> l = clamp_pri (priority (tk s t)) then [t] else [])"
  by (simp add: rq_enqueue_def Let_def)

lemma queued_enqueue [simp]: "queued (rq_enqueue t s) = insert t (queued s)"
  by (auto simp: queued_def rq_enqueue_queue split: if_splits)

lemma saved_sp_enqueue [simp]: "saved_sp (rq_enqueue t s) = saved_sp s"
  by (simp add: rq_enqueue_def Let_def)

lemma rq_enqueue_fields [simp]:
  "tk (rq_enqueue t s) = tk s" "tasks (rq_enqueue t s) = tasks s" "max_tasks (rq_enqueue t s) = max_tasks s"
  "pid_hash (rq_enqueue t s) = pid_hash s" "zombie_head (rq_enqueue t s) = zombie_head s"
  "sleep_wheel (rq_enqueue t s) = sleep_wheel s" "wq (rq_enqueue t s) = wq s"
  "idle_task (rq_enqueue t s) = idle_task s" "cur (rq_enqueue t s) = cur s" "prev (rq_enqueue t s) = prev s"
  "resched (rq_enqueue t s) = resched s" "num_cpus (rq_enqueue t s) = num_cpus s" "ticks (rq_enqueue t s) = ticks s"
  "next_pid (rq_enqueue t s) = next_pid s"
  by (simp_all add: rq_enqueue_def Let_def)

lemma rq_enqueue_ok:
  assumes ok: "rq_ok s X" and t: "t \<notin> queued s" "status (tk s t) = READY" "cpu (tk s t) < num_cpus s"
  shows "rq_ok (rq_enqueue t s) X"
proof -
  let ?c = "cpu (tk s t)" and ?l = "clamp_pri (priority (tk s t))"
  have l: "?l < MLFQ_LEVELS" by (rule clamp_pri_less)
  have cnt: "qcount (rq (rq_enqueue t s) c) k = qcount (rq s c) k + (if c = ?c \<and> k = ?l then 1 else 0)" for c k
    by (simp add: rq_enqueue_def Let_def)
  have ne: "nonempty (rq (rq_enqueue t s) c) = (if c = ?c then nonempty (rq s c) OR 2 ^ ?l else nonempty (rq s c))" for c
    by (simp add: rq_enqueue_def Let_def)
  have nt: "t \<notin> set (queue (rq s c) k)" for c k using t(1) by (auto simp: queued_def)
  show ?thesis unfolding rq_ok_def rq_enqueue_queue cnt ne
    using ok t(2,3) nt l by (auto simp: rq_ok_def level_bit split: if_splits)
qed

subsection \<open>Removal\<close>

lemma queued_unlink: "rq_ok s X \<Longrightarrow> queued (rq_unlink t s) = queued s - {t}"
  by (auto simp: queued_def rq_ok_def)

text \<open>Removing a queued task and adjusting its level, as \<open>rq_take\<close> and \<open>rq_remove_specific\<close> do.\<close>

definition rq_drop :: "nat \<Rightarrow> nat \<Rightarrow> nat \<Rightarrow> sched \<Rightarrow> sched" where
  "rq_drop c l t s =
     (let s = rq_unlink t s; r = rq s c; n = qcount r l - 1;
          r = r\<lparr>qcount := (qcount r)(l := n)\<rparr>;
          r = (if n = 0 then r\<lparr>nonempty := nonempty r AND NOT (push_bit l 1)\<rparr> else r)
      in s\<lparr>rq := (rq s)(c := r)\<rparr>)"

lemma saved_sp_drop [simp]: "saved_sp (rq_drop c l t s) = saved_sp s"
  by (simp add: rq_drop_def rq_unlink_def Let_def)

lemma rq_drop_fields [simp]:
  "tk (rq_drop c l t s) = tk s" "tasks (rq_drop c l t s) = tasks s" "max_tasks (rq_drop c l t s) = max_tasks s"
  "pid_hash (rq_drop c l t s) = pid_hash s" "zombie_head (rq_drop c l t s) = zombie_head s"
  "sleep_wheel (rq_drop c l t s) = sleep_wheel s" "wq (rq_drop c l t s) = wq s"
  "idle_task (rq_drop c l t s) = idle_task s" "cur (rq_drop c l t s) = cur s" "prev (rq_drop c l t s) = prev s"
  "resched (rq_drop c l t s) = resched s" "num_cpus (rq_drop c l t s) = num_cpus s" "ticks (rq_drop c l t s) = ticks s"
  "next_pid (rq_drop c l t s) = next_pid s"
  by (simp_all add: rq_drop_def rq_unlink_def Let_def)

lemma rq_drop_queue: "queue (rq (rq_drop c l t s) d) k = remove1 t (queue (rq s d) k)"
  by (simp add: rq_drop_def Let_def)

lemma rq_drop_ok:
  assumes ok: "rq_ok s X" and t: "t \<in> set (queue (rq s c) l)"
  shows "rq_ok (rq_drop c l t s) (X - {t})" and "queued (rq_drop c l t s) = queued s - {t}"
proof -
  have c: "c = cpu (tk s t)" and l: "l = clamp_pri (priority (tk s t))" and l4: "l < MLFQ_LEVELS"
    using rq_okD [OF ok t] by auto
  note shape = rq_ok_shape [OF ok]
  have only: "t \<notin> set (queue (rq s d) k)" if "(d, k) \<noteq> (c, l)" for d k
    using rq_okD(1,2) [OF ok, of t d k] c l that by auto
  have other: "remove1 t (queue (rq s d) k) = queue (rq s d) k" if "(d, k) \<noteq> (c, l)" for d k
    using only [OF that] by (rule remove1_idem)
  have len: "length (remove1 t (queue (rq s c) l)) = length (queue (rq s c) l) - 1" using t by (simp add: length_remove1)
  have cnt: "qcount (rq (rq_drop c l t s) d) k = length (remove1 t (queue (rq s d) k))" for d k
  proof (cases "(d, k) = (c, l)")
    case True
    then show ?thesis by (simp add: rq_drop_def Let_def len shape(2))
  next
    case False
    then show ?thesis by (auto simp: rq_drop_def Let_def other shape(2))
  qed
  have ne: "bit (nonempty (rq (rq_drop c l t s) d)) k \<longleftrightarrow> k < MLFQ_LEVELS \<and> remove1 t (queue (rq s d) k) \<noteq> []" for d k
  proof (cases "d = c")
    case False
    then show ?thesis by (simp add: rq_drop_def Let_def other shape(3))
  next
    case True
    have n: "qcount (rq s c) l - 1 = 0 \<longleftrightarrow> remove1 t (queue (rq s c) l) = []"
      using len shape(2) [of c l] by (metis length_0_conv)
    have "nonempty (rq (rq_drop c l t s) c) = (if remove1 t (queue (rq s c) l) = []
        then nonempty (rq s c) AND NOT (2 ^ l) else nonempty (rq s c))"
      using n by (simp add: rq_drop_def Let_def)
    moreover have "queue (rq s c) l \<noteq> []" using t by auto
    ultimately show ?thesis using True other [of c k] l4 shape(3) [of c k]
      by (cases "k = l") (auto simp: level_bit)
  qed
  have st: "x \<in> set (remove1 t (queue (rq s d) k)) \<longleftrightarrow> x \<in> set (queue (rq s d) k) \<and> x \<noteq> t" for x d k
    using shape(1) by simp
  show "rq_ok (rq_drop c l t s) (X - {t})"
    unfolding rq_ok_def rq_drop_queue cnt ne st
    using rq_okD [OF ok] shape(1) by (simp add: distinct_remove1) blast
  show "queued (rq_drop c l t s) = queued s - {t}" unfolding queued_def rq_drop_queue st by auto
qed

lemma rq_remove_specific_ok:
  assumes ok: "rq_ok s X" and X: "X \<subseteq> {t}"
  shows "rq_inv (rq_remove_specific t s)" and "queued (rq_remove_specific t s) = queued s - {t}"
    and "tk (rq_remove_specific t s) = tk s"
proof -
  have eq: "rq_remove_specific t s = (if t \<in> queued s then rq_drop (cpu (tk s t)) (clamp_pri (priority (tk s t))) t s else s)"
    using task_on_rq_iff [OF ok] by (simp add: rq_remove_specific_def rq_drop_def Let_def)
  have "rq_inv (rq_remove_specific t s) \<and> queued (rq_remove_specific t s) = queued s - {t}"
  proof (cases "t \<in> queued s")
    case True
    then obtain c l where t: "t \<in> set (queue (rq s c) l)" by (auto simp: queued_def)
    note d = rq_okD [OF ok t]
    show ?thesis using rq_drop_ok [OF ok t] X True d(1,2) by (auto simp: eq intro: rq_ok_mono)
  next
    case False
    then have "rq_inv s" using ok X unfolding rq_ok_def queued_def mem_Collect_eq by blast
    then show ?thesis using False by (simp add: eq)
  qed
  then show "rq_inv (rq_remove_specific t s)" "queued (rq_remove_specific t s) = queued s - {t}" by auto
  show "tk (rq_remove_specific t s) = tk s" by (simp add: eq)
qed

subsection \<open>Choosing\<close>

lemma rq_take_cases:
  assumes ok: "rq_inv s"
  obtains (empty) "rq_take c s = Some (None, s)" "\<And>l. queue (rq s c) l = []"
    | (first) t l rest where "rq_take c s = Some (Some (t, l), rq_drop c l t s)"
        "queue (rq s c) l = t # rest" "\<And>k. k < l \<Longrightarrow> queue (rq s c) k = []" "l < MLFQ_LEVELS"
        "rq_inv (rq_drop c l t s)" "queued (rq_drop c l t s) = queued s - {t}" "t \<in> queued s"
proof (cases "nonempty (rq s c) = 0")
  case True
  have "queue (rq s c) l = []" for l
  proof (rule ccontr)
    assume ne: "queue (rq s c) l \<noteq> []"
    then have "hd (queue (rq s c) l) \<in> set (queue (rq s c) l)" by (rule hd_in_set)
    then have "l < MLFQ_LEVELS" by (rule rq_okD(4) [OF ok])
    then have "bit (nonempty (rq s c)) l" using ne by (simp add: rq_ok_shape(3) [OF ok])
    then show False using True by simp
  qed
  then show thesis using empty True by (simp add: rq_take_def)
next
  case False
  define l where "l = builtin_ctz (nonempty (rq s c))"
  have b: "bit (nonempty (rq s c)) l" "\<And>k. k < l \<Longrightarrow> \<not> bit (nonempty (rq s c)) k"
    unfolding l_def using builtin_ctz_props(2,3) [OF False] by auto
  then have l4: "l < MLFQ_LEVELS" and "queue (rq s c) l \<noteq> []" using rq_ok_shape(3) [OF ok] by auto
  then obtain t rest where q: "queue (rq s c) l = t # rest" by (auto simp: neq_Nil_conv)
  have t: "t \<in> set (queue (rq s c) l)" by (simp add: q)
  have low: "queue (rq s c) k = []" if "k < l" for k using b(2) [OF that] that l4 rq_ok_shape(3) [OF ok, of c k] by simp
  have "rq_take c s = Some (Some (t, l), rq_drop c l t s)"
    using False q by (simp add: rq_take_def l_def [symmetric] Let_def rq_drop_def)
  moreover have "t \<in> queued s" using t by (auto simp: queued_def)
  ultimately show thesis using first q low l4 rq_drop_ok [OF ok t] by simp
qed

section \<open>The invariant\<close>

interpretation pidt: keyed_nodes jlos_hash_uint32 "pid_hash_cmp pid_of" pid_of for pid_of :: "nat \<Rightarrow> u32"
  by unfold_locales (simp add: pid_hash_cmp_def)

definition table_ok :: "sched \<Rightarrow> bool" where
  "table_ok s \<longleftrightarrow> distinct (tasks s) \<and> (\<forall>i<length (tasks s). slot_idx (tk s (tasks s ! i)) = int i)
     \<and> (\<forall>t\<in>set (tasks s). cpu (tk s t) < num_cpus s)
     \<and> keyed_table jlos_hash_uint32 (pid_of s) (pid_hash s) (set (tasks s))"

definition places_ok :: "sched \<Rightarrow> bool" where
  "places_ok s \<longleftrightarrow> queued s \<subseteq> set (tasks s) \<and> wheel_nodes (sleep_wheel s) \<subseteq> set (tasks s)
     \<and> set (zombie_head s) \<subseteq> set (tasks s) \<and> distinct (zombie_head s)
     \<and> (\<forall>z\<in>set (zombie_head s). status (tk s z) = ZOMBIE)"

text \<open>\<open>B\<close> holds the CPUs whose current task has left the running state but not yet the CPU.\<close>

definition cpus_ok :: "sched \<Rightarrow> nat set \<Rightarrow> bool" where
  "cpus_ok s B \<longleftrightarrow>
     (\<forall>c<num_cpus s. \<forall>t. cur s c = Some t \<longrightarrow> t \<in> set (tasks s) \<and> cpu (tk s t) = c \<and> (c \<notin> B \<longrightarrow> status (tk s t) = RUNNING))
     \<and> (\<forall>c<num_cpus s. \<forall>i. idle_task s c = Some i \<longrightarrow> i \<in> set (tasks s) \<and> cpu (tk s i) = c
          \<and> status (tk s i) = RUNNING \<and> \<not> sleeping (tk s i))
     \<and> (\<forall>c<num_cpus s. cur s c \<noteq> None \<longrightarrow> idle_task s c \<noteq> None)"

definition wheel_ok :: "sched \<Rightarrow> bool" where
  "wheel_ok s \<longleftrightarrow> wheel_inv (sleep_wheel s)
     \<and> (unat (ticks s - jiffies (sleep_wheel s)) < 2 ^ 31 \<or> jiffies (sleep_wheel s) = ticks s + 1)"

definition sched_ok :: "sched \<Rightarrow> nat set \<Rightarrow> bool" where
  "sched_ok s B \<longleftrightarrow> rq_inv s \<and> table_ok s \<and> places_ok s \<and> cpus_ok s B \<and> wheel_ok s"

abbreviation sched_inv :: "sched \<Rightarrow> bool" where "sched_inv s \<equiv> sched_ok s {}"

lemma sched_okD:
  assumes "sched_ok s B"
  shows "rq_inv s" and "table_ok s" and "places_ok s" and "cpus_ok s B" and "wheel_ok s"
  using assms by (simp_all add: sched_ok_def)

lemma sched_ok_mono: "sched_ok s B \<Longrightarrow> B \<subseteq> C \<Longrightarrow> sched_ok s C"
  unfolding sched_ok_def cpus_ok_def by blast

lemma curD:
  assumes "sched_ok s B" and "c < num_cpus s" and "cur s c = Some t"
  shows "t \<in> set (tasks s)" and "cpu (tk s t) = c" and "c \<notin> B \<Longrightarrow> status (tk s t) = RUNNING"
  using sched_okD(4) [OF assms(1)] assms(2,3) unfolding cpus_ok_def by blast+

lemma idleD:
  assumes "sched_ok s B" and "c < num_cpus s" and "idle_task s c = Some i"
  shows "i \<in> set (tasks s)" and "cpu (tk s i) = c" and "status (tk s i) = RUNNING" and "\<not> sleeping (tk s i)"
  using sched_okD(4) [OF assms(1)] assms(2,3) unfolding cpus_ok_def by blast+

lemma idle_exists: "sched_ok s B \<Longrightarrow> c < num_cpus s \<Longrightarrow> cur s c \<noteq> None \<Longrightarrow> \<exists>i. idle_task s c = Some i"
  unfolding sched_ok_def cpus_ok_def by blast

lemma queuedD:
  assumes "sched_ok s B" and "t \<in> queued s"
  shows "t \<in> set (tasks s)" and "status (tk s t) = READY" and "cpu (tk s t) < num_cpus s"
proof -
  obtain c l where t: "t \<in> set (queue (rq s c) l)" using assms(2) by (auto simp: queued_def)
  note d = rq_okD [OF sched_okD(1) [OF assms(1)] t]
  show "t \<in> set (tasks s)" using sched_okD(3) [OF assms(1)] assms(2) by (auto simp: places_ok_def)
  show "status (tk s t) = READY" "cpu (tk s t) < num_cpus s" using d(1,3,5) by auto
qed

definition idle_of :: "sched \<Rightarrow> nat \<Rightarrow> bool" where
  "idle_of s t \<longleftrightarrow> (\<exists>c<num_cpus s. idle_task s c = Some t)"

lemma idle_ofD: "sched_ok s B \<Longrightarrow> idle_of s t \<Longrightarrow> status (tk s t) = RUNNING \<and> \<not> sleeping (tk s t)"
  unfolding idle_of_def using idleD(3,4) by blast

lemma cpus_ok_cong:
  assumes ok: "sched_ok s B" and f: "cur s' = cur s" "idle_task s' = idle_task s" "num_cpus s' = num_cpus s"
    and cur: "\<And>c x. \<lbrakk>c < num_cpus s; cur s c = Some x\<rbrakk>
      \<Longrightarrow> x \<in> set (tasks s') \<and> cpu (tk s' x) = cpu (tk s x) \<and> (c \<notin> C \<longrightarrow> status (tk s' x) = RUNNING)"
    and idle: "\<And>x. idle_of s x
      \<Longrightarrow> x \<in> set (tasks s') \<and> cpu (tk s' x) = cpu (tk s x) \<and> status (tk s' x) = RUNNING \<and> \<not> sleeping (tk s' x)"
  shows "cpus_ok s' C"
  unfolding cpus_ok_def f
proof (intro conjI allI impI)
  fix c x assume c: "c < num_cpus s" and x: "cur s c = Some x"
  show "x \<in> set (tasks s')" "cpu (tk s' x) = c" "c \<notin> C \<Longrightarrow> status (tk s' x) = RUNNING"
    using curD(2) [OF ok c x] cur [OF c x] by auto
next
  fix c i assume c: "c < num_cpus s" and i: "idle_task s c = Some i"
  then have "idle_of s i" by (auto simp: idle_of_def)
  then show "i \<in> set (tasks s')" "cpu (tk s' i) = c" "status (tk s' i) = RUNNING" "\<not> sleeping (tk s' i)"
    using idle [of i] idleD(2) [OF ok c i] by auto
next
  fix c assume "c < num_cpus s" and "cur s c \<noteq> None"
  then show "idle_task s c \<noteq> None" using idle_exists [OF ok] by auto
qed

lemma idle_of_task: "sched_ok s B \<Longrightarrow> idle_of s t \<Longrightarrow> t \<in> set (tasks s)"
  unfolding idle_of_def using idleD(1) by blast

subsection \<open>Changing one task\<close>

definition keeps_identity :: "jlos_task \<Rightarrow> jlos_task \<Rightarrow> bool" where
  "keeps_identity k k' \<longleftrightarrow> pid k' = pid k \<and> cpu k' = cpu k \<and> slot_idx k' = slot_idx k"

lemma pid_of_set_task: "pid (u (tk s t)) = pid (tk s t) \<Longrightarrow> pid_of (set_task t u s) = pid_of s"
  by (auto simp: pid_of_def)

lemma set_task_keeps:
  assumes ok: "sched_ok s B" and id: "keeps_identity (tk s t) (u (tk s t))"
    and q: "t \<in> queued s \<Longrightarrow> priority (u (tk s t)) = priority (tk s t) \<and> status (u (tk s t)) = status (tk s t)"
    and z: "t \<in> set (zombie_head s) \<Longrightarrow> status (u (tk s t)) = ZOMBIE"
    and i: "idle_of s t \<Longrightarrow> status (u (tk s t)) = RUNNING \<and> \<not> sleeping (u (tk s t))"
    and C: "status (u (tk s t)) = RUNNING \<or> (\<forall>c<num_cpus s. cur s c = Some t \<longrightarrow> c \<in> C)" and BC: "B \<subseteq> C"
  shows "sched_ok (set_task t u s) C"
proof -
  note k = id [unfolded keeps_identity_def]
  have "rq_inv (set_task t u s)"
    using rq_ok_set_task [OF sched_okD(1) [OF ok]] rq_ok_set_task_off [OF sched_okD(1) [OF ok]] q k by metis
  moreover have "table_ok (set_task t u s)"
    using sched_okD(2) [OF ok] k unfolding table_ok_def by (auto simp: pid_of_set_task)
  moreover have "places_ok (set_task t u s)"
    using sched_okD(3) [OF ok] z by (simp add: places_ok_def)
  moreover have "wheel_ok (set_task t u s)" using sched_okD(5) [OF ok] by (simp add: wheel_ok_def)
  moreover have "cpus_ok (set_task t u s) C"
    using curD(1,3) [OF sched_ok_mono [OF ok BC]] C k idle_of_task [OF ok] idle_ofD [OF ok] i
    by (intro cpus_ok_cong [OF ok]) auto
  ultimately show ?thesis by (simp add: sched_ok_def)
qed

text \<open>The common case: the task's status stays as it is.\<close>

lemma set_task_same_status:
  assumes ok: "sched_ok s B" and "keeps_identity (tk s t) (u (tk s t))"
    and "t \<in> queued s \<Longrightarrow> priority (u (tk s t)) = priority (tk s t)" and st: "status (u (tk s t)) = status (tk s t)"
    and sl: "sleeping (u (tk s t)) \<longrightarrow> sleeping (tk s t)"
  shows "sched_ok (set_task t u s) B"
proof (rule set_task_keeps [OF ok, where u = u])
  show "t \<in> set (zombie_head s) \<Longrightarrow> status (u (tk s t)) = ZOMBIE"
    using sched_okD(3) [OF ok] st by (simp add: places_ok_def)
  show "idle_of s t \<Longrightarrow> status (u (tk s t)) = RUNNING \<and> \<not> sleeping (u (tk s t))"
    using idle_ofD [OF ok] st sl by auto
  show "status (u (tk s t)) = RUNNING \<or> (\<forall>c<num_cpus s. cur s c = Some t \<longrightarrow> c \<in> B)"
    using curD(3) [OF ok] st by metis
qed (use assms in auto)

lemma enqueue_keeps:
  assumes ok: "sched_ok s B" and t: "t \<notin> queued s" "status (tk s t) = READY" "t \<in> set (tasks s)"
  shows "sched_ok (rq_enqueue t s) B"
proof -
  have "cpu (tk s t) < num_cpus s" using sched_okD(2) [OF ok] t(3) by (simp add: table_ok_def)
  then have "rq_inv (rq_enqueue t s)" using rq_enqueue_ok [OF sched_okD(1) [OF ok] t(1,2)] by simp
  then show ?thesis
    using ok t(3) unfolding sched_ok_def table_ok_def places_ok_def cpus_ok_def wheel_ok_def pid_of_def by simp
qed

lemma drop_keeps:
  assumes ok: "sched_ok s B" and t: "t \<in> set (queue (rq s c) l)"
  shows "sched_ok (rq_drop c l t s) B"
  using ok rq_drop_ok [OF sched_okD(1) [OF ok] t]
  unfolding sched_ok_def table_ok_def places_ok_def cpus_ok_def wheel_ok_def pid_of_def by auto

text \<open>A task that is not running becomes ready and is queued.\<close>

lemma ready_enqueue_keeps:
  assumes ok: "sched_ok s B" and t: "t \<in> set (tasks s)" "t \<notin> queued s" "status (tk s t) \<noteq> ZOMBIE" "\<not> idle_of s t"
    and cur: "\<forall>c<num_cpus s. cur s c = Some t \<longrightarrow> c \<in> C" and BC: "B \<subseteq> C"
  shows "sched_ok (rq_enqueue t (jlos_task_set_ready t s)) C"
proof (rule enqueue_keeps)
  show "sched_ok (jlos_task_set_ready t s) C" unfolding jlos_task_set_ready_def
    using sched_okD(3) [OF ok] t cur BC
    by (intro set_task_keeps [OF ok]) (auto simp: keeps_identity_def places_ok_def)
qed (use t in \<open>auto simp: jlos_task_set_ready_def\<close>)

lemma status_not_queued: "sched_ok s B \<Longrightarrow> status (tk s t) \<noteq> READY \<Longrightarrow> t \<notin> queued s"
  using queuedD(2) by metis

section \<open>Scheduling\<close>

text \<open>No step of the scheduler changes who a task is, and the dead stay dead.\<close>

definition person :: "jlos_task \<Rightarrow> u32 \<times> u32 \<times> u32 \<times> u32 \<times> u32" where
  "person k = (pid k, parent_pid k, exit_code k, waiting_pid k, signal_pending k)"

text \<open>A parked task is blocked without a timer: only a wake-up can free it.\<close>

definition parked :: "sched \<Rightarrow> nat \<Rightarrow> bool" where
  "parked s x \<longleftrightarrow> status (tk s x) = BLOCKED \<and> x \<notin> wheel_nodes (sleep_wheel s)"

definition evolves :: "sched \<Rightarrow> sched \<Rightarrow> bool" where
  "evolves s s' \<longleftrightarrow> (\<forall>x. person (tk s' x) = person (tk s x)
     \<and> (status (tk s x) = ZOMBIE \<longrightarrow> status (tk s' x) = ZOMBIE) \<and> (status (tk s x) = WAITING \<longrightarrow> status (tk s' x) = WAITING)
     \<and> (parked s x \<longrightarrow> parked s' x))
     \<and> (\<forall>q. (\<forall>x\<in>set (wq s q). parked s x) \<longrightarrow> wq s' q = wq s q)"

lemma evolves_refl [simp]: "evolves s s"
  by (simp add: evolves_def)

lemma evolves_trans [trans]:
  assumes "evolves s s1" and "evolves s1 s2"
  shows "evolves s s2"
proof -
  have "wq s2 q = wq s q" if p: "\<forall>x\<in>set (wq s q). parked s x" for q
  proof -
    have "wq s1 q = wq s q" "\<forall>x\<in>set (wq s1 q). parked s1 x" using assms(1) p by (auto simp: evolves_def)
    then show ?thesis using assms(2) by (simp add: evolves_def)
  qed
  then show ?thesis using assms by (simp add: evolves_def)
qed

lemma evolves_cong:
  "evolves s s1 \<Longrightarrow> tk s2 = tk s1 \<Longrightarrow> wq s2 = wq s1 \<Longrightarrow> wheel_nodes (sleep_wheel s2) \<subseteq> wheel_nodes (sleep_wheel s1) \<Longrightarrow> evolves s s2"
  unfolding evolves_def parked_def by auto

subsection \<open>The outgoing task\<close>

text \<open>Taking the current task out of the running state.\<close>

lemma blocked_off_keeps:
  assumes ok: "sched_ok s B" and t: "t \<in> set (tasks s)" "\<not> idle_of s t" "t \<notin> set (zombie_head s)"
    and id: "keeps_identity (tk s t) (u (tk s t))" and pri: "priority (u (tk s t)) = priority (tk s t)"
    and cur: "\<forall>c<num_cpus s. cur s c = Some t \<longrightarrow> c \<in> C" and BC: "B \<subseteq> C"
    and s'_def: "s' = rq_remove_specific t (set_task t u s)"
  shows "sched_ok s' C" and "queued s' = queued s - {t}"
    and "tk s' = tk (set_task t u s)"
proof -
  let ?s = "set_task t u s"
  note k = id [unfolded keeps_identity_def]
  have rq: "rq_ok ?s {t}"
    using rq_ok_set_task [OF rq_ok_mono [OF sched_okD(1) [OF ok], of "{t}"], of u t] k pri by simp
  note r = rq_remove_specific_ok [OF rq subset_refl, folded s'_def]
  show "queued s' = queued s - {t}" using r(2) by simp
  show tk: "tk s' = tk ?s" by (rule r(3))
  have f: "tasks s' = tasks s" "pid_hash s' = pid_hash s" "zombie_head s' = zombie_head s"
    "sleep_wheel s' = sleep_wheel s" "idle_task s' = idle_task s" "cur s' = cur s" "num_cpus s' = num_cpus s"
    "ticks s' = ticks s"
    by (simp_all add: s'_def rq_remove_specific_def rq_unlink_def Let_def)
  have "pid_of s' = pid_of s" using k by (auto simp: pid_of_def tk)
  then have "table_ok s'" using sched_okD(2) [OF ok] k unfolding table_ok_def f tk by auto
  moreover have "places_ok s'" using sched_okD(3) [OF ok] t(3) r(2) unfolding places_ok_def f tk by auto
  moreover have "wheel_ok s'" using sched_okD(5) [OF ok] unfolding wheel_ok_def f .
  moreover have "cpus_ok s' C"
    using curD(1,3) [OF sched_ok_mono [OF ok BC]] cur k idle_of_task [OF ok] idle_ofD [OF ok] t(2)
    by (intro cpus_ok_cong [OF ok]) (auto simp: f tk)
  ultimately show "sched_ok s' C" using r(1) by (simp add: sched_ok_def)
qed

lemma cur_not_other_idle:
  "sched_ok s B \<Longrightarrow> c < num_cpus s \<Longrightarrow> cur s c = Some p \<Longrightarrow> idle_of s p \<longleftrightarrow> idle_task s c = Some p"
  unfolding idle_of_def using curD(2) idleD(2) by metis

lemma cur_only_here:
  "sched_ok s B \<Longrightarrow> c < num_cpus s \<Longrightarrow> cur s c = Some p \<Longrightarrow> \<forall>d<num_cpus s. cur s d = Some p \<longrightarrow> d \<in> {c}"
  by (metis curD(2) singletonI)

text \<open>A running task that neither sleeps nor idles is preempted: it stays in the game.\<close>

definition preempted :: "nat \<Rightarrow> nat \<Rightarrow> sched \<Rightarrow> bool" where
  "preempted c p s \<longleftrightarrow> status (tk s p) = RUNNING \<and> \<not> sleeping (tk s p) \<and> idle_task s c \<noteq> Some p"

lemma requeue_prev_keeps:
  assumes ok: "sched_ok s {c}" and c: "c < num_cpus s" and p: "cur s c = Some p"
  shows "sched_ok (requeue_prev c p s) {c}"
    and "queued (requeue_prev c p s) = queued s \<union> (if preempted c p s then {p} else {})"
proof -
  note pd = curD [OF ok c p] and only = cur_only_here [OF ok c p] and idle = cur_not_other_idle [OF ok c p]
  have zom: "p \<notin> set (zombie_head s)" if "status (tk s p) = RUNNING"
    using that sched_okD(3) [OF ok] by (auto simp: places_ok_def)
  have nq: "p \<notin> queued s" if "status (tk s p) = RUNNING" using that status_not_queued [OF ok] by simp
  consider (off) "status (tk s p) \<noteq> RUNNING" | (sleep) "status (tk s p) = RUNNING" "sleeping (tk s p)"
    | (idle) "status (tk s p) = RUNNING" "\<not> sleeping (tk s p)" "idle_task s c = Some p"
    | (pre) "status (tk s p) = RUNNING" "\<not> sleeping (tk s p)" "idle_task s c \<noteq> Some p" by blast
  then have "sched_ok (requeue_prev c p s) {c} \<and>
    queued (requeue_prev c p s) = queued s \<union> (if preempted c p s then {p} else {})"
  proof cases
    case sleep
    have "\<not> idle_of s p" using idle_ofD [OF ok, of p] sleep by blast
    then show ?thesis
      using blocked_off_keeps [OF ok pd(1) _ zom [OF sleep(1)] _ _ only subset_refl refl, of "\<lambda>k. k\<lparr>status := BLOCKED\<rparr>"]
        sleep nq by (simp add: requeue_prev_def jlos_task_set_blocked_def preempted_def keeps_identity_def)
  next
    case pre
    define v where "v = (if yield (tk s p) \<or> remain_slice (tk s p) = 0
        then if remain_slice (tk s p) = 0 \<and> priority (tk s p) < 3
             then set_task p (\<lambda>k. k\<lparr>priority := priority k + 1, default_slice := push_bit (unat (priority k + 1)) 2\<rparr>) s
             else s else s)"
    have v: "sched_ok v {c}" unfolding v_def using ok nq [OF pre(1)]
      by (auto intro!: set_task_same_status simp: keeps_identity_def)
    have vf: "queued v = queued s" "num_cpus v = num_cpus s" "tasks v = tasks s" "cur v = cur s" "idle_of v = idle_of s"
      "status (tk v p) = RUNNING"
      using pre(1) by (auto simp: v_def idle_of_def fun_eq_iff)
    have "\<not> idle_of v p" using idle pre(3) by (simp add: vf)
    then have "sched_ok (rq_enqueue p (jlos_task_set_ready p v)) {c}"
      using ready_enqueue_keeps [OF v _ _ _ _ _ subset_refl] pd(1) nq [OF pre(1)] only by (simp add: vf)
    moreover have "requeue_prev c p s = rq_enqueue p (jlos_task_set_ready p v)"
      using pre by (simp add: requeue_prev_def v_def Let_def)
    ultimately show ?thesis using pre vf by (simp add: preempted_def jlos_task_set_ready_def)
  qed (use ok in \<open>simp_all add: requeue_prev_def preempted_def\<close>)
  then show "sched_ok (requeue_prev c p s) {c}"
    "queued (requeue_prev c p s) = queued s \<union> (if preempted c p s then {p} else {})" by auto
qed

lemma requeue_prev_fields:
  "tasks (requeue_prev c p s) = tasks s" "zombie_head (requeue_prev c p s) = zombie_head s"
  "sleep_wheel (requeue_prev c p s) = sleep_wheel s" "idle_task (requeue_prev c p s) = idle_task s"
  "cur (requeue_prev c p s) = cur s" "prev (requeue_prev c p s) = prev s \<and> saved_sp (requeue_prev c p s) = saved_sp s" "num_cpus (requeue_prev c p s) = num_cpus s"
  "ticks (requeue_prev c p s) = ticks s" "x \<noteq> p \<Longrightarrow> tk (requeue_prev c p s) x = tk s x"
  by (auto simp: requeue_prev_def jlos_task_set_blocked_def jlos_task_set_ready_def rq_remove_specific_def
    rq_unlink_def Let_def)

lemma requeue_prev_evolves: "evolves s (requeue_prev c p s)"
  by (auto simp: evolves_def requeue_prev_def jlos_task_set_blocked_def jlos_task_set_ready_def rq_remove_specific_def
    rq_unlink_def Let_def person_def parked_def)

subsection \<open>Reaping\<close>

lemma swap_remove:
  assumes "distinct xs" and i: "i < length xs" and ys_def: "ys = butlast (xs[i := last xs])"
  shows "length ys = length xs - 1" and "set ys = set xs - {xs ! i}" and "distinct ys"
    and "j < length ys \<Longrightarrow> ys ! j = (if j = i then last xs else xs ! j)"
proof -
  obtain zs m where xs: "xs = zs @ [m]" using i by (cases xs rule: rev_cases) auto
  show "length ys = length xs - 1" by (simp add: ys_def)
  have "ys = (if i = length zs then zs else zs[i := m])"
    using i xs by (auto simp: ys_def list_update_append butlast_append nth_append)
  moreover have "set (zs[i := m]) = insert m (set zs - {zs ! i})" "distinct (zs[i := m])" if "i < length zs"
    using assms(1) xs that by (auto simp: set_update_distinct intro!: distinct_list_update)
  ultimately show "set ys = set xs - {xs ! i}" "distinct ys"
    "j < length ys \<Longrightarrow> ys ! j = (if j = i then last xs else xs ! j)"
    using assms(1) i xs by (auto simp: nth_append nth_list_update split: if_splits)
qed

lemma rq_unlink_idle: "t \<notin> queued s \<Longrightarrow> rq (rq_unlink t s) = rq s"
  by (auto simp: rq_unlink_def queued_def remove1_idem fun_eq_iff)

lemma is_task_in_use_iff: "jlos_hal_is_task_in_use t s \<longleftrightarrow> (\<exists>c<num_cpus s. cur s c = Some t \<or> prev s c = Some t)"
  by (auto simp: jlos_hal_is_task_in_use_def list_ex_iff)

text \<open>The state after a dead task has been freed.\<close>

lemma task_free_locked_effect:
  assumes ok: "sched_ok s B" and t: "t \<in> set (tasks s)" and free: "\<not> jlos_hal_is_task_in_use t s" and c: "c < num_cpus s"
    and s'_def: "s' = task_free_locked c t s"
  shows "cur s' = cur s" "idle_task s' = idle_task s" "num_cpus s' = num_cpus s" "ticks s' = ticks s" "prev s' = prev s \<and> saved_sp s' = saved_sp s"
    "rq s' = rq (rq_unlink t s)" "zombie_head s' = remove1 t (zombie_head s)"
    "sleep_wheel s' = jlos_timer_wheel_del (sleep_wheel s) t" "pid_hash s' = jlos_hash_chain_remove (pid_hash s) t"
    "set (tasks s') = set (tasks s) - {t}" "distinct (tasks s')"
    "\<forall>j<length (tasks s'). slot_idx (tk s' (tasks s' ! j)) = int j"
    "\<exists>i. tk s' x = (tk s x)\<lparr>slot_idx := i\<rparr>" "wq s' q = remove1 t (wq s q)"
proof -
  have tab: "distinct (tasks s)" "\<forall>i<length (tasks s). slot_idx (tk s (tasks s ! i)) = int i"
    using sched_okD(2) [OF ok] by (auto simp: table_ok_def)
  obtain i where i: "i < length (tasks s)" "tasks s ! i = t" using t by (auto simp: in_set_conv_nth)
  have idx: "slot_idx (tk s t) = int i" using tab(2) i by auto
  define m ys where "m = last (tasks s)" and "ys = butlast ((tasks s)[i := m])"
  note sw = swap_remove [OF tab(1) i(1) ys_def [unfolded m_def]]
  have nc: "cur s c \<noteq> Some t" using free c by (auto simp: is_task_in_use_iff)
  have s': "s' = s\<lparr>pid_hash := jlos_hash_chain_remove (pid_hash s) t, tasks := ys,
      tk := (\<lambda>x. if x = t then (tk s t)\<lparr>slot_idx := -1\<rparr> else if x = m then (tk s m)\<lparr>slot_idx := int i\<rparr> else tk s x),
      wq := (\<lambda>q. remove1 t (wq s q)), zombie_head := remove1 t (zombie_head s), rq := rq (rq_unlink t s),
      sleep_wheel := jlos_timer_wheel_del (sleep_wheel s) t\<rparr>"
    using free idx i nc
    by (simp add: s'_def task_free_locked_def slot_remove_def Let_def set_task_def wq_unlink_def rq_unlink_def
        m_def [symmetric] ys_def [symmetric]) (auto simp: fun_eq_iff)
  show "cur s' = cur s" "idle_task s' = idle_task s" "num_cpus s' = num_cpus s" "ticks s' = ticks s" "prev s' = prev s \<and> saved_sp s' = saved_sp s"
    "rq s' = rq (rq_unlink t s)" "zombie_head s' = remove1 t (zombie_head s)"
    "sleep_wheel s' = jlos_timer_wheel_del (sleep_wheel s) t" "pid_hash s' = jlos_hash_chain_remove (pid_hash s) t" "wq s' q = remove1 t (wq s q)"
    by (simp_all add: s')
  show "set (tasks s') = set (tasks s) - {t}" "distinct (tasks s')" using sw(2,3) i by (simp_all add: s')
  have "x \<noteq> t" if "x \<in> set ys" for x using that sw(2) i by auto
  moreover have "tasks s ! j \<noteq> m" if "j < length ys" "j \<noteq> i" for j
  proof -
    have "last (tasks s) = tasks s ! (length (tasks s) - 1)" using i(1) by (intro last_conv_nth) auto
    then show ?thesis using that tab(1) sw(1) by (simp add: m_def nth_eq_iff_index_eq)
  qed
  ultimately have "slot_idx (tk s' (ys ! j)) = int j" if j: "j < length ys" for j
    using sw(1) sw(4) [OF j] nth_mem [OF j] tab(2) j by (auto simp: s' m_def)
  then show "\<forall>j<length (tasks s'). slot_idx (tk s' (tasks s' ! j)) = int j" by (simp add: s')
  show "\<exists>i. tk s' x = (tk s x)\<lparr>slot_idx := i\<rparr>"
    by (cases "x = t"; cases "x = m") (auto simp: s' intro: exI [of _ "slot_idx (tk s x)"])
qed

lemma wheel_ok_del: "wheel_ok s \<Longrightarrow> sleep_wheel s' = jlos_timer_wheel_del (sleep_wheel s) t \<Longrightarrow> ticks s' = ticks s \<Longrightarrow> wheel_ok s'"
  by (simp add: wheel_ok_def wheel_inv_del)

lemma task_free_locked_keeps:
  assumes ok: "sched_ok s B" and t: "t \<in> set (tasks s)" and free: "\<not> jlos_hal_is_task_in_use t s" and c: "c < num_cpus s"
    and z: "status (tk s t) = ZOMBIE" and s'_def: "s' = task_free_locked c t s"
  shows "sched_ok s' B" and "rq s' = rq s" and "queued s' = queued s"
proof -
  note e = task_free_locked_effect [OF ok t free c s'_def]
  have same: "status (tk s' x) = status (tk s x)" "cpu (tk s' x) = cpu (tk s x)" "pid (tk s' x) = pid (tk s x)"
    "priority (tk s' x) = priority (tk s x)" "sleeping (tk s' x) = sleeping (tk s x)" for x
    using e(13) [of x] by auto
  have nq: "t \<notin> queued s" using status_not_queued [OF ok] z by simp
  show rq: "rq s' = rq s" using e(6) rq_unlink_idle [OF nq] by simp
  then show q: "queued s' = queued s" by (rule queued_cong)
  have "rq_inv s'" using sched_okD(1) [OF ok] by (simp add: rq_ok_def rq e(3) same)
  moreover have "pid_of s' = pid_of s" by (auto simp: pid_of_def same)
  then have "table_ok s'"
    using sched_okD(2) [OF ok] e(9-12) t keyed_table_remove [of jlos_hash_uint32 "pid_of s" "pid_hash s" "set (tasks s)" t]
    by (simp add: table_ok_def same e(3))
  moreover have "places_ok s'"
    using sched_okD(3,5) [OF ok] nq nodes_del [of "sleep_wheel s" t]
    by (auto simp: places_ok_def wheel_ok_def q same e(7,8,10))
  moreover have "wheel_ok s'" using wheel_ok_del [OF sched_okD(5) [OF ok] e(8,4)] .
  moreover have "cpus_ok s' B"
  proof (rule cpus_ok_cong [OF ok e(1-3)])
    fix d x assume d: "d < num_cpus s" and x: "cur s d = Some x"
    have "x \<noteq> t" using free d x by (auto simp: is_task_in_use_iff)
    then show "x \<in> set (tasks s') \<and> cpu (tk s' x) = cpu (tk s x) \<and> (d \<notin> B \<longrightarrow> status (tk s' x) = RUNNING)"
      using curD(1,3) [OF ok d x] by (simp add: same e(10))
  next
    fix x assume "idle_of s x"
    then show "x \<in> set (tasks s') \<and> cpu (tk s' x) = cpu (tk s x) \<and> status (tk s' x) = RUNNING \<and> \<not> sleeping (tk s' x)"
      using idle_of_task [OF ok] idle_ofD [OF ok, of x] z by (auto simp: same e(10))
  qed
  ultimately show "sched_ok s' B" by (simp add: sched_ok_def)
qed

text \<open>The scan over the dead tasks frees every one that no CPU still stands on.\<close>

lemma unlist_zombie:
  assumes ok: "sched_ok s B" and v_def: "v = s\<lparr>zombie_head := remove1 z (zombie_head s)\<rparr>"
  shows "sched_ok v B"
  using ok unfolding v_def sched_ok_def table_ok_def places_ok_def cpus_ok_def wheel_ok_def rq_ok_def queued_def pid_of_def
  by (auto dest: notin_set_remove1)

text \<open>\<open>reaped Z s s'\<close>: at most the tasks \<open>Z\<close> have gone, and nothing else but array slots changed.\<close>

definition reslotted :: "jlos_task \<Rightarrow> jlos_task \<Rightarrow> bool" where
  "reslotted k k' \<longleftrightarrow> (\<exists>i. k' = k\<lparr>slot_idx := i\<rparr>)"

lemma reslotted_refl [simp]: "reslotted k k"
  unfolding reslotted_def by (rule exI [of _ "slot_idx k"]) simp

lemma reslotted_trans: "reslotted k k1 \<Longrightarrow> reslotted k1 k2 \<Longrightarrow> reslotted k k2"
  unfolding reslotted_def by auto

lemma reslottedD: "reslotted k k' \<Longrightarrow> status k' = status k" "reslotted k k' \<Longrightarrow> exit_code k' = exit_code k"
  unfolding reslotted_def by auto

definition reaped :: "nat set \<Rightarrow> sched \<Rightarrow> sched \<Rightarrow> bool" where
  "reaped Z s s' \<longleftrightarrow> rq s' = rq s \<and> cur s' = cur s \<and> prev s' = prev s \<and> saved_sp s' = saved_sp s \<and> idle_task s' = idle_task s \<and> num_cpus s' = num_cpus s
    \<and> ticks s' = ticks s \<and> jiffies (sleep_wheel s') = jiffies (sleep_wheel s) \<and> expires (sleep_wheel s') = expires (sleep_wheel s)
    \<and> (\<forall>x. reslotted (tk s x) (tk s' x))
    \<and> wheel_nodes (sleep_wheel s') \<union> Z = wheel_nodes (sleep_wheel s) \<union> Z
    \<and> wheel_nodes (sleep_wheel s') \<subseteq> wheel_nodes (sleep_wheel s) \<and> (\<forall>q. set (wq s q) \<inter> Z = {} \<longrightarrow> wq s' q = wq s q)
    \<and> set (tasks s') \<union> Z = set (tasks s) \<union> Z"

lemma reaped_evolves:
  assumes r: "reaped Z s s'" and z: "\<forall>x\<in>Z. status (tk s x) = ZOMBIE"
  shows "evolves s s'"
proof -
  have "\<exists>i. tk s' x = (tk s x)\<lparr>slot_idx := i\<rparr>" for x using r by (simp add: reaped_def reslotted_def)
  then have same: "person (tk s' x) = person (tk s x)" "status (tk s' x) = status (tk s x)" for x
    by (metis person_def jlos_task.select_convs jlos_task.surjective jlos_task.update_convs(14))+
  have w: "wheel_nodes (sleep_wheel s') \<subseteq> wheel_nodes (sleep_wheel s)" using r by (simp add: reaped_def)
  have "wq s' q = wq s q" if "\<forall>x\<in>set (wq s q). parked s x" for q
  proof -
    have "set (wq s q) \<inter> Z = {}" using that z by (auto simp: parked_def)
    then show ?thesis using r by (simp add: reaped_def)
  qed
  then show ?thesis using same w by (auto simp: evolves_def parked_def)
qed

lemma reaped_refl: "reaped Z s s"
  by (simp add: reaped_def)

lemma reaped_mono: "reaped Z s s' \<Longrightarrow> Z \<subseteq> Y \<Longrightarrow> reaped Y s s'"
  unfolding reaped_def by blast

lemma reaped_trans: "reaped Z s s1 \<Longrightarrow> reaped Z s1 s2 \<Longrightarrow> reaped Z s s2"
  unfolding reaped_def by (auto intro: reslotted_trans)

lemma reap_one:
  assumes ok: "sched_ok s B" and c: "c < num_cpus s" and z: "z \<in> set (tasks s)" "status (tk s z) = ZOMBIE"
    and free: "\<not> jlos_hal_is_task_in_use z s" and w_def: "w = task_free_locked c z (s\<lparr>zombie_head := remove1 z (zombie_head s)\<rparr>)"
  shows "sched_ok w B" and "reaped {z} s w" and "set (zombie_head s) - {z} \<subseteq> set (zombie_head w)"
proof -
  define v where "v = s\<lparr>zombie_head := remove1 z (zombie_head s)\<rparr>"
  have vok: "sched_ok v B" by (rule unlist_zombie [OF ok v_def])
  have vz: "z \<in> set (tasks v)" "\<not> jlos_hal_is_task_in_use z v" "c < num_cpus v" "status (tk v z) = ZOMBIE"
    using z free c by (auto simp: v_def is_task_in_use_iff)
  have w: "w = task_free_locked c z v" by (simp add: w_def v_def)
  note e = task_free_locked_effect [OF vok vz(1-3) w] and k = task_free_locked_keeps [OF vok vz w]
  show "sched_ok w B" by (rule k(1))
  have "wheel_nodes (sleep_wheel w) = wheel_nodes (sleep_wheel s) - {z}"
    using nodes_del [of "sleep_wheel s" z] sched_okD(5) [OF ok] by (simp add: e(8) wheel_ok_def v_def)
  moreover have "reslotted (tk s x) (tk w x)" for x using e(13) [of x] by (simp add: reslotted_def v_def)
  ultimately show "reaped {z} s w"
    using e(14) by (simp add: reaped_def k(2) e(1-5,8,10) v_def remove1_idem)
  show "set (zombie_head s) - {z} \<subseteq> set (zombie_head w)"
  proof
    fix x assume "x \<in> set (zombie_head s) - {z}"
    then show "x \<in> set (zombie_head w)" by (simp add: e(7) v_def)
  qed
qed

lemma reap_zombies_keeps:
  assumes "sched_ok s B" and "c < num_cpus s" and "set zs \<subseteq> set (zombie_head s)" and "distinct zs"
  shows "sched_ok (reap_zombies c p zs s) B \<and> reaped (set zs) s (reap_zombies c p zs s)"
  using assms
proof (induction zs arbitrary: s)
  case Nil
  then show ?case by (simp add: reaped_refl)
next
  case (Cons z zs)
  show ?case
  proof (cases "z = p \<or> jlos_hal_is_task_in_use z s")
    case True
    have "set zs \<subseteq> set (zombie_head s)" "distinct zs" using Cons.prems by auto
    from Cons.IH [OF Cons.prems(1,2) this] show ?thesis using True by (auto intro: reaped_mono)
  next
    case False
    define w where "w = task_free_locked c z (s\<lparr>zombie_head := remove1 z (zombie_head s)\<rparr>)"
    have z: "z \<in> set (tasks s)" "status (tk s z) = ZOMBIE" "\<not> jlos_hal_is_task_in_use z s"
      using Cons.prems(3) sched_okD(3) [OF Cons.prems(1)] False by (auto simp: places_ok_def)
    note one = reap_one [OF Cons.prems(1,2) z w_def]
    have zs: "set zs \<subseteq> set (zombie_head w)" "distinct zs" using Cons.prems(3,4) one(3) by auto
    have "c < num_cpus w" using one(2) Cons.prems(2) by (simp add: reaped_def)
    note ih = Cons.IH [OF one(1) this zs]
    have "reaped (set (z # zs)) s w" "reaped (set (z # zs)) w (reap_zombies c p zs w)"
      using one(2) ih by (auto intro: reaped_mono)
    then show ?thesis using ih False reaped_trans by (simp flip: w_def)
  qed
qed

subsection \<open>Sleepers\<close>

lemma sleep_expire_keeps:
  assumes ok: "sched_ok s B" and t: "t \<in> set (tasks s)"
  shows "sched_ok (sleep_expire t s) B"
    and "queued (sleep_expire t s) = queued s \<union> (if status (tk s t) = BLOCKED then {t} else {})"
    and "x \<noteq> t \<Longrightarrow> tk (sleep_expire t s) x = tk s x"
proof -
  define v where "v = set_task t (\<lambda>k. k\<lparr>sleeping := False\<rparr>) s"
  have v: "sched_ok v B" unfolding v_def by (intro set_task_same_status [OF ok]) (auto simp: keeps_identity_def)
  have vt: "t \<in> set (tasks v)" "status (tk v t) = status (tk s t)" "queued v = queued s" using t by (simp_all add: v_def)
  have "sched_ok (rq_enqueue t (jlos_task_set_ready t v)) B" if b: "status (tk v t) = BLOCKED"
  proof (rule ready_enqueue_keeps [OF v vt(1) _ _ _ _ subset_refl])
    show "t \<notin> queued v" "status (tk v t) \<noteq> ZOMBIE" using status_not_queued [OF v, of t] b by auto
    show "\<not> idle_of v t" using idle_ofD [OF v, of t] b by auto
    show "\<forall>c<num_cpus v. cur v c = Some t \<longrightarrow> c \<in> B" using curD(3) [OF v] b by fastforce
  qed
  then show "sched_ok (sleep_expire t s) B"
    using v by (simp add: sleep_expire_def Let_def flip: v_def)
  show "queued (sleep_expire t s) = queued s \<union> (if status (tk s t) = BLOCKED then {t} else {})"
    by (simp add: sleep_expire_def Let_def jlos_task_set_ready_def)
  show "x \<noteq> t \<Longrightarrow> tk (sleep_expire t s) x = tk s x" by (simp add: sleep_expire_def Let_def jlos_task_set_ready_def)
qed

lemma saved_sp_sleep_expire [simp]: "saved_sp (sleep_expire t s) = saved_sp s"
  by (simp add: sleep_expire_def jlos_task_set_ready_def Let_def)

lemma sleep_expire_fields [simp]:
  "tasks (sleep_expire t s) = tasks s" "sleep_wheel (sleep_expire t s) = sleep_wheel s"
  "idle_task (sleep_expire t s) = idle_task s" "cur (sleep_expire t s) = cur s" "prev (sleep_expire t s) = prev s"
  "num_cpus (sleep_expire t s) = num_cpus s" "ticks (sleep_expire t s) = ticks s"
  by (simp_all add: sleep_expire_def jlos_task_set_ready_def Let_def)

lemma sleep_expire_evolves: "t \<in> wheel_nodes (sleep_wheel s) \<Longrightarrow> evolves s (sleep_expire t s)"
  by (auto simp: evolves_def sleep_expire_def jlos_task_set_ready_def Let_def person_def parked_def)

lemma fold_sleep_expire_evolves: "set xs \<subseteq> wheel_nodes (sleep_wheel s) \<Longrightarrow> evolves s (fold sleep_expire xs s)"
proof (induction xs arbitrary: s)
  case (Cons x xs)
  then have "evolves s (sleep_expire x s)" "evolves (sleep_expire x s) (fold sleep_expire xs (sleep_expire x s))"
    using sleep_expire_evolves by auto
  then show ?case using evolves_trans by simp
qed simp

lemma fold_sleep_expire_keeps:
  assumes "sched_ok s B" and "set xs \<subseteq> set (tasks s)" and "distinct xs" and "s' = fold sleep_expire xs s"
  shows "sched_ok s' B \<and> queued s' = queued s \<union> {x \<in> set xs. status (tk s x) = BLOCKED} \<and> tasks s' = tasks s
     \<and> idle_task s' = idle_task s \<and> cur s' = cur s \<and> prev s' = prev s \<and> saved_sp s' = saved_sp s \<and> num_cpus s' = num_cpus s \<and> ticks s' = ticks s"
  using assms
proof (induction xs arbitrary: s)
  case (Cons x xs)
  note k = sleep_expire_keeps [OF Cons.prems(1), of x]
  have "set xs \<subseteq> set (tasks (sleep_expire x s))" "distinct xs" "s' = fold sleep_expire xs (sleep_expire x s)"
    using Cons.prems by auto
  note ih = Cons.IH [OF k(1) this]
  have st: "{y \<in> set xs. status (tk (sleep_expire x s) y) = BLOCKED} = {y \<in> set xs. status (tk s y) = BLOCKED}"
    using Cons.prems(2,3) k(3) by (intro Collect_cong) (metis distinct.simps(2) list.set_intros(1) subsetD)
  show ?case using ih k(2) Cons.prems(2) unfolding st by auto
qed simp

text \<open>The sleepers whose tick has come.\<close>

definition expired :: "sched \<Rightarrow> nat set" where
  "expired s = (if jiffies (sleep_wheel s) = ticks s + 1 then {}
     else {n \<in> wheel_nodes (sleep_wheel s).
            due (expires (sleep_wheel s) n) (jiffies (sleep_wheel s)) \<le> unat (ticks s - jiffies (sleep_wheel s))})"

lemma advance_none: "jiffies w = now + 1 \<Longrightarrow> jlos_timer_wheel_advance ex now (w, c) = Some (w, c)"
  by (subst jlos_timer_wheel_advance.simps) simp

lemma sched_ok_wheel:
  "sched_ok s B \<Longrightarrow> wheel_inv w \<Longrightarrow> wheel_nodes w \<subseteq> set (tasks s) \<Longrightarrow> jiffies w = ticks s + 1
     \<Longrightarrow> sched_ok (s\<lparr>sleep_wheel := w\<rparr>) B"
  unfolding sched_ok_def table_ok_def places_ok_def cpus_ok_def wheel_ok_def rq_ok_def queued_def pid_of_def by simp

lemma wheel_expire_keeps:
  assumes ok: "sched_ok s B"
  obtains s' where "wheel_expire s = Some s'" "sched_ok s' B"
    "queued s' = queued s \<union> {x \<in> expired s. status (tk s x) = BLOCKED}"
    "tasks s' = tasks s" "idle_task s' = idle_task s" "cur s' = cur s" "prev s' = prev s \<and> saved_sp s' = saved_sp s" "num_cpus s' = num_cpus s"
    "ticks s' = ticks s" "evolves s s'" "wheel_nodes (sleep_wheel s') \<subseteq> wheel_nodes (sleep_wheel s)"
proof (cases "jiffies (sleep_wheel s) = ticks s + 1")
  case True
  then show thesis using that [of s] ok by (simp add: wheel_expire_def advance_none expired_def)
next
  case False
  let ?w = "sleep_wheel s" and ?m = "unat (ticks s - jiffies (sleep_wheel s))"
  have w: "wheel_inv ?w" "?m < 2 ^ 31" using sched_okD(5) [OF ok] False by (auto simp: wheel_ok_def)
  obtain w' xs where a: "jlos_timer_wheel_advance sleep_expire (ticks s) (?w, s) = Some (w', fold sleep_expire xs s)"
    "jiffies w' = ticks s + 1" "fires ?w ?m xs w'"
    using advance_fires [OF w(1) refl w(2), of sleep_expire s] by blast
  have xs: "set xs = expired s" "wheel_nodes w' \<subseteq> wheel_nodes ?w" "wheel_inv w'" "distinct xs"
    using a(3) False by (auto simp: fires_def expired_def)
  have sub: "set xs \<subseteq> set (tasks s)" "wheel_nodes w' \<subseteq> set (tasks s)"
    using xs sched_okD(3) [OF ok] by (auto simp: expired_def places_ok_def split: if_splits)
  define v where "v = fold sleep_expire xs s"
  note f = fold_sleep_expire_keeps [OF ok sub(1) xs(4) v_def]
  show thesis
  proof (rule that)
    show "wheel_expire s = Some (v\<lparr>sleep_wheel := w'\<rparr>)" by (simp add: wheel_expire_def a(1) v_def)
    show "sched_ok (v\<lparr>sleep_wheel := w'\<rparr>) B" using f xs(3) sub(2) a(2) by (intro sched_ok_wheel) auto
    show "queued (v\<lparr>sleep_wheel := w'\<rparr>) = queued s \<union> {x \<in> expired s. status (tk s x) = BLOCKED}"
      using f xs(1) by (simp add: queued_def)
    have "set xs \<subseteq> wheel_nodes ?w" using xs(1) by (auto simp: expired_def split: if_splits)
    then have "evolves s v" unfolding v_def by (rule fold_sleep_expire_evolves)
    moreover have "sleep_wheel v = ?w" unfolding v_def by (induction xs arbitrary: s) simp_all
    ultimately show "evolves s (v\<lparr>sleep_wheel := w'\<rparr>)" using xs(2) by (elim evolves_cong) simp_all
    show "wheel_nodes (sleep_wheel (v\<lparr>sleep_wheel := w'\<rparr>)) \<subseteq> wheel_nodes ?w" using xs(2) by simp
  qed (use f in auto)
qed

subsection \<open>The incoming task\<close>

lemma rq_task_count_zero:
  assumes "rq_inv s" and "rq_task_count c s = 0"
  shows "queue (rq s c) l = []"
proof (rule ccontr)
  assume ne: "queue (rq s c) l \<noteq> []"
  then have "hd (queue (rq s c) l) \<in> set (queue (rq s c) l)" by (rule hd_in_set)
  then have "l < MLFQ_LEVELS" by (rule rq_okD(4) [OF assms(1)])
  then have "qcount (rq s c) l = 0" using assms(2) unfolding rq_task_count_def by (auto simp: sum_list_eq_0_iff)
  then show False using ne rq_ok_shape(2) [OF assms(1), of c l] by simp
qed

lemma busiest_loop_step:
  "busiest_loop me s (c # cs) b m =
     (if c \<noteq> me \<and> m < rq_task_count c s then busiest_loop me s cs c (rq_task_count c s) else busiest_loop me s cs b m)"
  by (simp add: Let_def)

lemma busiest_loop_max:
  assumes "busiest_loop me s cs b m = (b', m')"
  shows "m \<le> m'" and "c \<in> set cs \<Longrightarrow> c \<noteq> me \<Longrightarrow> rq_task_count c s \<le> m'"
    and "b' = b \<and> m' = m \<or> b' \<in> set cs \<and> b' \<noteq> me \<and> m' = rq_task_count b' s"
proof -
  have "m \<le> m' \<and> (c \<in> set cs \<longrightarrow> c \<noteq> me \<longrightarrow> rq_task_count c s \<le> m')
    \<and> (b' = b \<and> m' = m \<or> b' \<in> set cs \<and> b' \<noteq> me \<and> m' = rq_task_count b' s)"
    using assms
  proof (induction cs arbitrary: b m)
    case (Cons x xs)
    show ?case
    proof (cases "x \<noteq> me \<and> m < rq_task_count x s")
      case True
      then have "busiest_loop me s xs x (rq_task_count x s) = (b', m')" using Cons.prems unfolding busiest_loop_step by simp
      from Cons.IH [OF this] show ?thesis using True by auto
    next
      case False
      then have "busiest_loop me s xs b m = (b', m')" using Cons.prems unfolding busiest_loop_step by (simp only: if_False)
      from Cons.IH [OF this] show ?thesis using False by auto
    qed
  qed simp
  then show "m \<le> m'" and "c \<in> set cs \<Longrightarrow> c \<noteq> me \<Longrightarrow> rq_task_count c s \<le> m'"
    and "b' = b \<and> m' = m \<or> b' \<in> set cs \<and> b' \<noteq> me \<and> m' = rq_task_count b' s" by auto
qed

lemma move_cpu_keeps:
  assumes ok: "sched_ok s B" and t: "t \<notin> queued s" "\<not> idle_of s t" "\<forall>d<num_cpus s. cur s d \<noteq> Some t"
    and c: "c < num_cpus s"
  shows "sched_ok (set_task t (\<lambda>k. k\<lparr>cpu := c\<rparr>) s) B"
proof -
  let ?s = "set_task t (\<lambda>k. k\<lparr>cpu := c\<rparr>) s"
  have "rq_inv ?s" using sched_okD(1) [OF ok] t(1) by (rule rq_ok_set_task_off)
  moreover have "pid_of ?s = pid_of s" by (rule pid_of_set_task) simp
  then have "table_ok ?s" using sched_okD(2) [OF ok] c unfolding table_ok_def by auto
  moreover have "places_ok ?s" using sched_okD(3) [OF ok] unfolding places_ok_def by auto
  moreover have "wheel_ok ?s" using sched_okD(5) [OF ok] unfolding wheel_ok_def by simp
  moreover have "cpus_ok ?s B"
    using curD(1,3) [OF ok] t(2,3) idle_of_task [OF ok] idle_ofD [OF ok] by (intro cpus_ok_cong [OF ok]) auto
  ultimately show ?thesis by (simp add: sched_ok_def)
qed

text \<open>Balancing moves the first task of the fullest other CPU here, if there is any.\<close>

lemma balance_keeps:
  assumes ok: "sched_ok s {c}" and c: "c < num_cpus s" and here: "\<And>l. queue (rq s c) l = []"
  obtains s' where "jlos_sched_balance c s = Some s'" "sched_ok s' {c}" "queued s' = queued s"
    "tasks s' = tasks s" "idle_task s' = idle_task s" "cur s' = cur s" "num_cpus s' = num_cpus s"
    "(\<And>l. queue (rq s' c) l = []) \<Longrightarrow> queued s' = {}" "evolves s s'" "prev s' = prev s \<and> saved_sp s' = saved_sp s" "sleep_wheel s' = sleep_wheel s"
proof -
  obtain b m where bm: "busiest_loop c s [0..<num_cpus s] c 0 = (b, m)" by fastforce
  note max = busiest_loop_max [OF bm]
  have inv: "rq_inv s" by (rule sched_okD(1) [OF ok])
  have on: "t \<in> queued s \<longleftrightarrow> (\<exists>d<num_cpus s. \<exists>l. t \<in> set (queue (rq s d) l))" for t
    using rq_okD(3) [OF inv] unfolding queued_def by blast
  show thesis
  proof (cases "num_cpus s \<le> 1 \<or> b = c \<or> m = 0")
    case True
    have "queue (rq s d) l = []" if "d < num_cpus s" for d l
    proof (cases "d = c")
      case False
      then have "\<not> num_cpus s \<le> 1" using that c by auto
      then have "m = 0" using True max(3) by auto
      then show ?thesis using max(2) [of d] False that rq_task_count_zero [OF inv] by simp
    qed (use here in simp)
    then have "queued s = {}" using on by auto
    then show thesis using that [of s] True ok by (auto simp: jlos_sched_balance_def bm)
  next
    case False
    then have b: "b < num_cpus s" "b \<noteq> c" and m: "m = rq_task_count b s" "m \<noteq> 0" using max(3) by auto
    show thesis using inv
    proof (cases rule: rq_take_cases [of s b])
      case empty
      then have "rq_task_count b s = 0" using rq_ok_shape(2) [OF inv] by (simp add: rq_task_count_def)
      then show thesis using m by simp
    next
      case (first t l rest)
      let ?v = "rq_drop b l t s"
      let ?u = "set_task t (\<lambda>k. k\<lparr>cpu := c\<rparr>) ?v"
      have tq: "t \<in> set (queue (rq s b) l)" by (simp add: first)
      note td = queuedD [OF ok first(7)] and tb = rq_okD(1) [OF inv tq]
      have vok: "sched_ok ?v {c}" by (rule drop_keeps [OF ok tq])
      have nv: "t \<notin> queued ?v" using first(6) by simp
      have "\<not> idle_of s t" using idle_ofD [OF ok, of t] td by auto
      then have vidle: "\<not> idle_of ?v t" by (simp add: idle_of_def)
      have "\<forall>d<num_cpus s. cur s d \<noteq> Some t"
        using curD(2,3) [OF ok] td(2) tb b(2) by (metis singletonD task_status.distinct(1))
      then have ncur: "\<forall>d<num_cpus ?v. cur ?v d \<noteq> Some t" by simp
      have uok: "sched_ok ?u {c}" by (rule move_cpu_keeps [OF vok nv vidle ncur]) (simp add: c)
      have "sched_ok (rq_enqueue t ?u) {c}" using nv td by (intro enqueue_keeps [OF uok]) auto
      moreover have "jlos_sched_balance c s = Some (rq_enqueue t ?u)"
        using False first(1) by (simp add: jlos_sched_balance_def bm rq_steal_cpu_def)
      moreover have "t \<in> set (queue (rq (rq_enqueue t ?u) c) (clamp_pri (priority (tk s t))))"
        by (simp add: rq_enqueue_queue)
      then have "\<exists>l. queue (rq (rq_enqueue t ?u) c) l \<noteq> []" by (metis empty_iff list.set(1))
      moreover have "evolves s (rq_enqueue t ?u)" by (auto simp: evolves_def person_def parked_def)
      ultimately show thesis using that [of "rq_enqueue t ?u"] first(6,7) by auto
    qed
  qed
qed

text \<open>The level after aging: one level up for every 200 ticks of waiting.\<close>

definition aged_level :: "sched \<Rightarrow> nat \<Rightarrow> nat \<Rightarrow> nat" where
  "aged_level s t l = l - min l (unat ((ticks s - last_ready_tick (tk s t)) div 200))"

lemma aged_boost:
  assumes "l < MLFQ_LEVELS" and "b = (ticks s - last_ready_tick (tk s t)) div 200"
  shows "l - unat (if b < of_nat l then b else of_nat l) = aged_level s t l"
proof -
  have "unat (of_nat l :: u32) = l" using assms(1) by (intro unat_of_nat_u32) simp
  then show ?thesis by (auto simp: aged_level_def word_less_nat_alt assms(2))
qed

lemma rq_dequeue_cases:
  assumes inv: "rq_inv s"
  obtains (empty) "rq_dequeue c s = Some (None, s)" "\<And>l. queue (rq s c) l = []"
    | (first) t l rest where "rq_dequeue c s = Some (Some t, set_task t (\<lambda>k. k\<lparr>priority := of_nat (aged_level s t l),
          default_slice := push_bit (aged_level s t l) 2, last_ready_tick := ticks s\<rparr>) (rq_drop c l t s))"
        "queue (rq s c) l = t # rest" "\<And>k. k < l \<Longrightarrow> queue (rq s c) k = []" "l < MLFQ_LEVELS"
        "rq_inv (rq_drop c l t s)" "queued (rq_drop c l t s) = queued s - {t}" "t \<in> queued s"
  using inv
proof (cases rule: rq_take_cases [of s c])
  case empty
  then show thesis using that(1) by (simp add: rq_dequeue_def)
next
  case (first t l rest)
  have "rq_dequeue c s = Some (Some t, set_task t (\<lambda>k. k\<lparr>priority := of_nat (aged_level s t l),
          default_slice := push_bit (aged_level s t l) 2, last_ready_tick := ticks s\<rparr>) (rq_drop c l t s))"
    using first(1) aged_boost [OF first(4) refl, of s t] by (simp add: rq_dequeue_def Let_def split del: if_split cong: if_cong)
  then show thesis using that(2) first by blast
qed

lemma dequeue_keeps:
  assumes ok: "sched_ok s B"
  obtains (empty) "rq_dequeue c s = Some (None, s)" "\<And>l. queue (rq s c) l = []"
    | (first) t s' where "rq_dequeue c s = Some (Some t, s')" "sched_ok s' B" "t \<in> queued s" "queued s' = queued s - {t}"
        "cpu (tk s t) = c" "status (tk s' t) = READY" "cpu (tk s' t) = c" "tasks s' = tasks s"
        "idle_task s' = idle_task s" "cur s' = cur s" "num_cpus s' = num_cpus s" "evolves s s'"
        "prev s' = prev s \<and> saved_sp s' = saved_sp s" "sleep_wheel s' = sleep_wheel s"
  using sched_okD(1) [OF ok]
proof (cases rule: rq_dequeue_cases [of s c])
  case empty
  then show thesis using that(1) by blast
next
  case (first t l rest)
  have t: "t \<in> set (queue (rq s c) l)" by (simp add: first(2))
  note d = rq_okD [OF sched_okD(1) [OF ok] t]
  let ?v = "rq_drop c l t s"
  have v: "sched_ok ?v B" by (rule drop_keeps [OF ok t])
  let ?u = "\<lambda>k. k\<lparr>priority := of_nat (aged_level s t l), default_slice := push_bit (aged_level s t l) 2, last_ready_tick := ticks s\<rparr>"
  show thesis
  proof (rule that(2) [OF first(1)])
    show "sched_ok (set_task t ?u ?v) B"
      using first(6) by (intro set_task_same_status [OF v]) (auto simp: keeps_identity_def)
    show "cpu (tk s t) = c" using d(1) by simp
    show "status (tk (set_task t ?u ?v) t) = READY" "cpu (tk (set_task t ?u ?v) t) = c" using d(1,5) by simp_all
    show "evolves s (set_task t ?u ?v)" by (auto simp: evolves_def person_def parked_def)
  qed (simp_all add: first(6,7))
qed

text \<open>The choice: a queued task, or the idle task when no CPU has one queued.\<close>

lemma pick_next_keeps:
  assumes ok: "sched_ok s {c}" and c: "c < num_cpus s" and up: "cur s c \<noteq> None"
  obtains nx s' where "pick_next c s = Some (Some nx, s')" "sched_ok s' {c}" "queued s' = queued s - {nx}"
    "nx \<in> set (tasks s')" "cpu (tk s' nx) = c" "nx \<in> queued s \<or> idle_task s c = Some nx \<and> queued s = {}"
    "status (tk s' nx) \<in> {READY, RUNNING}"
    "tasks s' = tasks s" "idle_task s' = idle_task s" "cur s' = cur s" "num_cpus s' = num_cpus s" "evolves s s'"
    "prev s' = prev s \<and> saved_sp s' = saved_sp s" "sleep_wheel s' = sleep_wheel s"
  using ok
proof (cases rule: dequeue_keeps [of s "{c}" c])
  case (first t s')
  then show thesis using that [of t s'] queuedD(1) [OF ok first(3)] by (simp add: pick_next_def)
next
  case empty
  obtain v where v: "jlos_sched_balance c s = Some v" "sched_ok v {c}" "queued v = queued s"
    "tasks v = tasks s" "idle_task v = idle_task s" "cur v = cur s" "num_cpus v = num_cpus s"
    "(\<And>l. queue (rq v c) l = []) \<Longrightarrow> queued v = {}" "evolves s v" "prev v = prev s \<and> saved_sp v = saved_sp s" "sleep_wheel v = sleep_wheel s"
    using balance_keeps [OF ok c empty(2)] by blast
  show thesis using v(2)
  proof (cases rule: dequeue_keeps [of v "{c}" c])
    case (first t s')
    moreover have "evolves s s'" using v(9) first(12) by (rule evolves_trans)
    ultimately show thesis using that [of t s'] queuedD(1) [OF v(2) first(3)] v empty(1) by (simp add: pick_next_def)
  next
    case e: empty
    obtain i where i: "idle_task v c = Some i" using idle_exists [OF v(2), of c] c up v(6,7) by auto
    then have "i \<in> set (tasks v)" "cpu (tk v i) = c" "status (tk v i) = RUNNING" using idleD [OF v(2)] c v(7) by auto
    moreover have "queued v = {}" using v(8) e(2) by blast
    ultimately show thesis using that [of i v] i e(1) v empty(1) by (simp add: pick_next_def)
  qed
qed

subsection \<open>The whole call\<close>

lemma task_slot_found:
  assumes "table_ok s" and "t \<in> set (tasks s)"
  shows "task_slot t s = (Some (nat (slot_idx (tk s t))), s)"
proof -
  obtain i where "i < length (tasks s)" "tasks s ! i = t" using assms(2) by (auto simp: in_set_conv_nth)
  then have "slot_idx (tk s t) = int i" "i < length (tasks s)" "tasks s ! i = t" using assms(1) by (auto simp: table_ok_def)
  then show ?thesis by (simp add: task_slot_def)
qed

lemma switch_keeps:
  assumes ok: "sched_ok s {c}" and c: "c < num_cpus s" and up: "cur s c \<noteq> None"
    and nx: "nx \<in> set (tasks s)" "cpu (tk s nx) = c" "nx \<notin> queued s"
    "status (tk s nx) \<noteq> ZOMBIE"
    and s'_def: "s' = (jlos_task_set_running nx (s\<lparr>cur := (cur s)(c := Some nx), prev := P\<rparr>))\<lparr>resched := R, saved_sp := S\<rparr>"
  shows "sched_inv s'"
proof -
  have tk: "tk s' x = (if x = nx then (tk s nx)\<lparr>status := RUNNING, remain_slice := default_slice (tk s nx), yield := False\<rparr> else tk s x)" for x
    by (simp add: s'_def jlos_task_set_running_def)
  have f: "rq s' = rq s" "tasks s' = tasks s" "pid_hash s' = pid_hash s" "zombie_head s' = zombie_head s"
    "sleep_wheel s' = sleep_wheel s" "idle_task s' = idle_task s" "num_cpus s' = num_cpus s" "ticks s' = ticks s"
    "cur s' = (cur s)(c := Some nx)" "pid_of s' = pid_of s" "queued s' = queued s"
    by (auto simp: s'_def jlos_task_set_running_def pid_of_def queued_def)
  have "tk s' x = tk s x" if "x \<in> queued s" for x using that nx(3) tk [of x] by metis
  then have "rq_inv s'" by (rule rq_ok_cong [OF sched_okD(1) [OF ok] f(1,7)])
  moreover have "table_ok s'" using sched_okD(2) [OF ok] unfolding table_ok_def f by (auto simp: tk)
  moreover have "places_ok s'" using sched_okD(3) [OF ok] nx(4) unfolding places_ok_def f by (auto simp: tk)
  moreover have "wheel_ok s'" using sched_okD(5) [OF ok] unfolding wheel_ok_def f .
  moreover have "cpus_ok s' {}"
    unfolding cpus_ok_def f
  proof (intro conjI allI impI)
    fix d x assume d: "d < num_cpus s" and x: "((cur s)(c := Some nx)) d = Some x"
    show "x \<in> set (tasks s)" "cpu (tk s' x) = d" "status (tk s' x) = RUNNING"
      using x nx curD [OF ok d, of x] by (auto simp: tk split: if_splits)
  next
    fix d i assume d: "d < num_cpus s" and i: "idle_task s d = Some i"
    show "i \<in> set (tasks s)" "cpu (tk s' i) = d" "status (tk s' i) = RUNNING" "\<not> sleeping (tk s' i)"
      using idleD [OF ok d i] by (auto simp: tk)
  next
    fix d assume d: "d < num_cpus s" and "((cur s)(c := Some nx)) d \<noteq> None"
    then show "idle_task s d \<noteq> None" using idle_exists [OF ok d] up c by (auto split: if_splits)
  qed
  ultimately show ?thesis by (simp add: sched_ok_def)
qed

end
