(* ===== verification/Sched_Props.thy ===== *)
theory Sched_Props
  imports Sched_Inv
begin

text \<open>
  What the scheduler does, call by call: choosing and switching, sleeping and waking, the
  pid table, exit and wait, signals, and descriptors.
\<close>

section \<open>Scheduling\<close>

text \<open>The sleepers a call of the scheduler on \<open>c\<close> wakes.\<close>

definition woken :: "nat \<Rightarrow> nat \<Rightarrow> sched \<Rightarrow> nat set" where
  "woken c p s = {x \<in> expired s. status (tk (requeue_prev c p s) x) = BLOCKED}"

text \<open>The tasks that compete for the CPU in that call.\<close>

definition contenders :: "nat \<Rightarrow> nat \<Rightarrow> sched \<Rightarrow> nat set" where
  "contenders c p s = queued s \<union> (if preempted c p s then {p} else {}) \<union> woken c p s"

lemma reaped_woken:
  assumes r: "reaped Z s s'" and z: "\<forall>x\<in>Z. status (tk s x) = ZOMBIE"
  shows "{x \<in> expired s'. status (tk s' x) = BLOCKED} = {x \<in> expired s. status (tk s x) = BLOCKED}"
proof -
  have f: "jiffies (sleep_wheel s') = jiffies (sleep_wheel s)" "expires (sleep_wheel s') = expires (sleep_wheel s)"
    "ticks s' = ticks s" "\<And>x. status (tk s' x) = status (tk s x)"
    "wheel_nodes (sleep_wheel s') \<union> Z = wheel_nodes (sleep_wheel s) \<union> Z"
    using r reslottedD(1) by (auto simp: reaped_def)
  have "x \<in> wheel_nodes (sleep_wheel s') \<longleftrightarrow> x \<in> wheel_nodes (sleep_wheel s)" if "status (tk s x) = BLOCKED" for x
    using f(5) z that by force
  then show ?thesis by (auto simp: expired_def f(1-4))
qed

text \<open>What a switch from \<open>p\<close> to \<open>nx\<close> does to the per-CPU \<open>prev\<close> and the saved contexts.\<close>

definition switched :: "nat \<Rightarrow> nat \<Rightarrow> nat \<Rightarrow> sched \<Rightarrow> sched \<Rightarrow> bool" where
  "switched c p nx s s' \<longleftrightarrow>
     prev s' = (if nx = p then prev s else (prev s)(c := (if saved_sp s nx = In_schedule then None else Some p)))
     \<and> saved_sp s' = (if nx = p then saved_sp s else (saved_sp s)(p := In_schedule))"

lemma schedule_result:
  assumes ok: "sched_ok s {c}" and c: "c < num_cpus s" and p: "cur s c = Some p"
  obtains nx s' where "jlos_task_manager_schedule c s = Some s'" "sched_inv s'" "cur s' = (cur s)(c := Some nx)"
    "num_cpus s' = num_cpus s" "idle_task s' = idle_task s"
    "remain_slice (tk s' nx) = default_slice (tk s' nx)" "queued s' = contenders c p s - {nx}"
    "nx \<in> contenders c p s \<or> idle_task s c = Some nx \<and> contenders c p s = {}"
    "resched s' c = False" "evolves s s'" "set (tasks s') \<union> set (zombie_head s) = set (tasks s) \<union> set (zombie_head s)"
    "wheel_nodes (sleep_wheel s') \<subseteq> wheel_nodes (sleep_wheel s) \<union> set (zombie_head s)"
    "switched c p nx s s'"
proof -
  define v1 where "v1 = requeue_prev c p s"
  define v2 where "v2 = reap_zombies c p (zombie_head v1) v1"
  note r1 = requeue_prev_keeps [OF ok c p, folded v1_def]
  have c1: "c < num_cpus v1" using c by (simp add: v1_def requeue_prev_fields)
  have zd: "distinct (zombie_head v1)" "\<forall>z\<in>set (zombie_head v1). status (tk v1 z) = ZOMBIE"
    using sched_okD(3) [OF r1(1)] by (auto simp: places_ok_def)
  have r2: "sched_ok v2 {c}" "reaped (set (zombie_head v1)) v1 v2"
    using reap_zombies_keeps [OF r1(1) c1 subset_refl zd(1), of p] by (auto simp: v2_def)
  obtain v3 where r3: "wheel_expire v2 = Some v3" "sched_ok v3 {c}"
    "queued v3 = queued v2 \<union> {x \<in> expired v2. status (tk v2 x) = BLOCKED}" "tasks v3 = tasks v2"
    "idle_task v3 = idle_task v2" "cur v3 = cur v2" "prev v3 = prev v2 \<and> saved_sp v3 = saved_sp v2" "num_cpus v3 = num_cpus v2" "ticks v3 = ticks v2"
    "evolves v2 v3" "wheel_nodes (sleep_wheel v3) \<subseteq> wheel_nodes (sleep_wheel v2)"
    by (rule wheel_expire_keeps [OF r2(1)])
  have "rq v2 = rq v1" using r2(2) by (simp add: reaped_def)
  then have q2: "queued v2 = queued v1" by (rule queued_cong)
  have f: "cur v3 = cur s" "num_cpus v3 = num_cpus s" "idle_task v3 = idle_task s"
    using r2(2) r3(5,6,8) by (simp_all add: reaped_def v1_def requeue_prev_fields)
  have "{x \<in> expired v1. status (tk v1 x) = BLOCKED} = woken c p s"
    by (simp add: woken_def v1_def expired_def requeue_prev_fields)
  then have q3: "queued v3 = contenders c p s"
    using r3(3) reaped_woken [OF r2(2) zd(2)] r1(2) q2 by (simp add: contenders_def)
  have up: "c < num_cpus v3" "cur v3 c \<noteq> None" using c p f by auto
  obtain nx v4 where r4: "pick_next c v3 = Some (Some nx, v4)" "sched_ok v4 {c}" "queued v4 = queued v3 - {nx}"
    "nx \<in> set (tasks v4)" "cpu (tk v4 nx) = c" "nx \<in> queued v3 \<or> idle_task v3 c = Some nx \<and> queued v3 = {}"
    "status (tk v4 nx) \<in> {READY, RUNNING}" "tasks v4 = tasks v3" "idle_task v4 = idle_task v3" "cur v4 = cur v3"
    "num_cpus v4 = num_cpus v3" "evolves v3 v4" "prev v4 = prev v3 \<and> saved_sp v4 = saved_sp v3" "sleep_wheel v4 = sleep_wheel v3"
    by (rule pick_next_keeps [OF r3(2) up])
  define P where "P = (if nx = p then prev v4 else (prev v4)(c := (if saved_sp v4 nx = In_schedule then None else Some p)))"
  define S where "S = (if nx = p then saved_sp v4 else (saved_sp v4)(p := In_schedule))"
  define s' where "s' = (jlos_task_set_running nx (v4\<lparr>cur := (cur v4)(c := Some nx), prev := P\<rparr>))\<lparr>resched := (resched v4)(c := False), saved_sp := S\<rparr>"
  have "task_slot nx v4 = (Some (nat (slot_idx (tk v4 nx))), v4)"
    using task_slot_found [OF sched_okD(2) [OF r4(2)] r4(4)] .
  moreover have "nx = p \<Longrightarrow> v4\<lparr>cur := (cur v4)(c := Some nx), prev := prev v4\<rparr> = v4"
    using p r4(10) f(1) by (simp add: fun_upd_idem)
  ultimately have res: "jlos_task_manager_schedule c s = Some s'"
    using p r3(1) r4(1)
    by (simp add: jlos_task_manager_schedule_def jlos_hal_context_switch_def jlos_task_set_running_def set_task_def Let_def
      s'_def P_def S_def flip: v1_def v2_def)
  have sf: "queued s' = queued v4" "cur s' = (cur v4)(c := Some nx)" "num_cpus s' = num_cpus v4" "idle_task s' = idle_task v4"
    "tk s' nx = (tk v4 nx)\<lparr>status := RUNNING, remain_slice := default_slice (tk v4 nx), yield := False\<rparr>" "resched s' c = False"
    by (simp_all add: s'_def jlos_task_set_running_def queued_def)
  have n4: "c < num_cpus v4" "cur v4 c \<noteq> None" "nx \<notin> queued v4" "status (tk v4 nx) \<noteq> ZOMBIE"
    by (simp add: r4(11) up(1), simp add: r4(10) up(2) del: not_None_eq, simp add: r4(3), use r4(7) in fastforce)
  have inv: "sched_inv s'" by (rule switch_keeps [OF r4(2) n4(1,2) r4(4,5) n4(3,4) s'_def])
  have "evolves v4 s'" using r4(7) p unfolding s'_def jlos_task_set_running_def
    by (auto simp: evolves_def person_def parked_def)
  then have ev: "evolves s s'"
    using requeue_prev_evolves reaped_evolves [OF r2(2) zd(2)] r3(10) r4(12) unfolding v1_def by (blast intro: evolves_trans)
  have ts: "tasks s' = tasks v2" by (simp add: s'_def jlos_task_set_running_def r4(8) r3(4))
  have "sleep_wheel s' = sleep_wheel v4" by (simp add: s'_def jlos_task_set_running_def)
  moreover have "wheel_nodes (sleep_wheel v2) \<subseteq> wheel_nodes (sleep_wheel s) \<union> set (zombie_head s)"
    using r2(2) by (auto simp: reaped_def v1_def requeue_prev_fields)
  ultimately have wn: "wheel_nodes (sleep_wheel s') \<subseteq> wheel_nodes (sleep_wheel s) \<union> set (zombie_head s)"
    using r3(11) r4(14) by auto
  have "prev v4 = prev s" "saved_sp v4 = saved_sp s" using r4(13) r3(7) r2(2) by (simp_all add: reaped_def v1_def requeue_prev_fields)
  then have pv: "switched c p nx s s'" by (simp add: switched_def s'_def P_def S_def jlos_task_set_running_def)
  show thesis
    using that [OF res inv _ _ _ _ _ _ _ ev _ wn pv] sf r4 f q3 r2(2) by (simp add: reaped_def ts v1_def requeue_prev_fields)
qed

section \<open>Boot and creation\<close>

lemma keyed_table_cong:
  assumes "keyed_table h f t N" and "\<And>x. x \<in> N \<Longrightarrow> g x = f x"
  shows "keyed_table h g t N"
proof -
  obtain L where L: "hash_rep t L" "placed h f t L" "hash_nodes t L = N" "inj_on f N"
    using assms(1) by (auto simp: keyed_table_def)
  have "placed h g t L" unfolding placed_def
  proof (intro allI impI ballI)
    fix i n assume i: "i < unat (bucket_count t)" and n: "n \<in> set (L i)"
    then have "n \<in> N" using L(3) by (auto simp: hash_nodes_def)
    then show "bucket_index h t (g n) = i" using assms(2) L(2) i n by (simp add: placed_def)
  qed
  moreover have "inj_on g N" using L(4) assms(2) by (simp add: inj_on_def)
  ultimately show ?thesis using L by (auto simp: keyed_table_def)
qed

text \<open>The fields of a task outside the table may be anything.\<close>

lemma set_fresh_keeps:
  assumes ok: "sched_ok s B" and t: "t \<notin> set (tasks s)"
  shows "sched_ok (set_task t u s) B"
proof -
  have q: "t \<notin> queued s" "t \<notin> set (zombie_head s)" using sched_okD(3) [OF ok] t by (auto simp: places_ok_def)
  have "rq_inv (set_task t u s)" using rq_ok_set_task_off [OF sched_okD(1) [OF ok] q(1)] .
  moreover have other: "tk (set_task t u s) x = tk s x" if "x \<in> set (tasks s)" for x using that t by auto
  have "keyed_table jlos_hash_uint32 (pid_of s) (pid_hash s) (set (tasks s))"
    using sched_okD(2) [OF ok] by (simp add: table_ok_def)
  then have "keyed_table jlos_hash_uint32 (pid_of (set_task t u s)) (pid_hash s) (set (tasks s))"
    by (rule keyed_table_cong) (simp only: pid_of_def other)
  then have "table_ok (set_task t u s)"
    using sched_okD(2) [OF ok] by (simp add: table_ok_def other del: set_task_fields(15))
  moreover have "places_ok (set_task t u s)" using sched_okD(3) [OF ok] q(2) unfolding places_ok_def by auto
  moreover have "wheel_ok (set_task t u s)" using sched_okD(5) [OF ok] unfolding wheel_ok_def by simp
  moreover have "cpus_ok (set_task t u s) B"
    using curD(1,3) [OF ok] idle_of_task [OF ok] idle_ofD [OF ok] t by (intro cpus_ok_cong [OF ok]) auto
  ultimately show ?thesis by (simp add: sched_ok_def)
qed

lemma add_task_keeps:
  assumes ok: "sched_ok s B" and t: "t \<notin> set (tasks s)" "cpu (tk s t) < num_cpus s"
    and pid: "pid (tk s t) \<notin> pid_of s ` set (tasks s)" and room: "length (tasks s) < max_tasks s \<or> grow"
    and s'_def: "s' = snd (jlos_task_manager_add_task grow t s)"
  shows "fst (jlos_task_manager_add_task grow t s)" and "sched_ok s' B" and "tasks s' = tasks s @ [t]" and "rq s' = rq s"
    and "cur s' = cur s" "idle_task s' = idle_task s" "num_cpus s' = num_cpus s" "ticks s' = ticks s" "sleep_wheel s' = sleep_wheel s"
    and "tk s' = (tk s)(t := (tk s t)\<lparr>slot_idx := int (length (tasks s))\<rparr>)"
    and "jlos_task_manager_add_task grow t s = (True, s')"
proof -
  let ?m = "if max_tasks s \<le> length (tasks s) then max_tasks s * 2 else max_tasks s"
  have s': "s' = s\<lparr>max_tasks := ?m, tk := (tk s)(t := (tk s t)\<lparr>slot_idx := int (length (tasks s))\<rparr>), tasks := tasks s @ [t],
     pid_hash := jlos_hash_chain_insert jlos_hash_uint32 (pid_hash s) (pid (tk s t)) t\<rparr>"
    using room by (auto simp: s'_def jlos_task_manager_add_task_def set_task_def Let_def)
  show "fst (jlos_task_manager_add_task grow t s)" using room by (auto simp: jlos_task_manager_add_task_def Let_def)
  then show "jlos_task_manager_add_task grow t s = (True, s')" by (simp add: s'_def prod_eq_iff)
  show f: "tasks s' = tasks s @ [t]" "rq s' = rq s" "cur s' = cur s" "idle_task s' = idle_task s" "num_cpus s' = num_cpus s"
    "ticks s' = ticks s" "sleep_wheel s' = sleep_wheel s" "tk s' = (tk s)(t := (tk s t)\<lparr>slot_idx := int (length (tasks s))\<rparr>)"
    by (simp_all add: s')
  have z: "zombie_head s' = zombie_head s" by (simp add: s')
  define v where "v = set_task t (\<lambda>k. k\<lparr>slot_idx := int (length (tasks s))\<rparr>) s"
  have v: "sched_ok v B" unfolding v_def by (rule set_fresh_keeps [OF ok t(1)])
  have pf: "pid_of s' = pid_of s" by (auto simp: pid_of_def s')
  have vf: "tk v = tk s'" "rq v = rq s'" "num_cpus v = num_cpus s'" "zombie_head v = zombie_head s'" "tasks v = tasks s"
    "sleep_wheel v = sleep_wheel s'" "ticks v = ticks s'" "cur v = cur s'" "idle_task v = idle_task s'" "queued v = queued s'"
    by (auto simp: v_def s' set_task_def queued_def)
  have "rq_inv s'" using sched_okD(1) [OF v] by (simp add: rq_ok_def vf)
  moreover have "keyed_table jlos_hash_uint32 (pid_of s) (pid_hash s') (insert t (set (tasks s)))"
    using keyed_table_insert [of jlos_hash_uint32 "pid_of s" "pid_hash s" "set (tasks s)" t] sched_okD(2) [OF ok] t(1) pid
    by (simp add: table_ok_def s' pid_of_def)
  then have "table_ok s'"
    using sched_okD(2) [OF v] t unfolding table_ok_def vf pf f(1)
    by (auto simp: f nth_append less_Suc_eq)
  moreover have "places_ok s'" using sched_okD(3) [OF v] unfolding places_ok_def vf f(1) by auto
  moreover have "wheel_ok s'" using sched_okD(5) [OF v] unfolding wheel_ok_def vf .
  moreover have "cpus_ok s' B" using sched_okD(4) [OF v] unfolding cpus_ok_def vf f(1) by auto
  ultimately show "sched_ok s' B" by (simp add: sched_ok_def)
qed

lemma init_1_keeps:
  assumes ok: "sched_ok s B" and t: "t \<notin> set (tasks s)"
  shows "sched_ok (jlos_task_init_1 c t s) B"
proof -
  define v where "v = set_task t (\<lambda>k. k\<lparr>status := READY, last_ready_tick := ticks s, yield := False\<rparr>) s"
  let ?w = "(sleep_wheel v)\<lparr>expires := (expires (sleep_wheel v))(t := 0)\<rparr>"
  define w where "w = v\<lparr>next_pid := next_pid v + 1, sleep_wheel := ?w\<rparr>"
  have v: "sched_ok v B" unfolding v_def by (rule set_fresh_keeps [OF ok t])
  have tv: "t \<notin> wheel_nodes (sleep_wheel v)" using sched_okD(3) [OF v] t by (auto simp: places_ok_def v_def)
  have "wheel_inv ?w" "wheel_nodes ?w = wheel_nodes (sleep_wheel v)"
    using sched_okD(5) [OF v] tv by (auto simp: wheel_ok_def wheel_inv_def wheel_nodes_def)
  then have "sched_ok w B"
    using v unfolding sched_ok_def table_ok_def places_ok_def cpus_ok_def wheel_ok_def rq_ok_def queued_def pid_of_def w_def
    by simp
  then show ?thesis
    unfolding jlos_task_init_1_def jlos_task_set_ready_def Let_def
    using set_fresh_keeps [of w B t] t by (simp add: w_def v_def)
qed

lemma empty_rq_inv: "\<forall>c. rq s c = empty_rq \<Longrightarrow> rq_ok s X" "\<forall>c. rq s c = empty_rq \<Longrightarrow> queued s = {}"
  by (auto simp: rq_ok_def queued_def empty_rq_def)

lemma manager_init_result:
  assumes n: "0 < num_cpus s" and down: "cur s = (\<lambda>_. None)" "idle_task s = (\<lambda>_. None)"
  obtains s' where "jlos_task_manager_init idle s = Some s'" "sched_inv s'" "tasks s' = [idle]" "queued s' = {}"
    "cur s' = (\<lambda>_. None)(0 := Some idle)" "idle_task s' = (\<lambda>_. None)(0 := Some idle)" "num_cpus s' = num_cpus s"
    "pid (tk s' idle) = 0" "next_pid s' = 2" "cpu (tk s' idle) = 0" "max_tasks s' = 256"
    "wheel_nodes (sleep_wheel s') = {}" "zombie_head s' = []" "prev s' = prev s"
proof -
  obtain h where h: "jlos_hash_chain_init (pid_hash s) 256 = Some h" "keyed_table jlos_hash_uint32 (\<lambda>_. 0) h {}"
    using keyed_table_init [of 256 "pid_hash s"] by auto
  let ?w = "jlos_timer_wheel_init (sleep_wheel s) (ticks s)"
  define k where "k = (tk s idle)\<lparr>last_ready_tick := ticks s, parent_pid := 0, exit_code := 0, sleeping := False,
    errno := 0, waiting_pid := 2, signal_pending := 0, signal_handlers := (\<lambda>_. 0), priority := 0, default_slice := 2,
    cpu := 0, status := RUNNING, remain_slice := 2, yield := False, pid := 0, slot_idx := 0\<rparr>"
  define s' where "s' = s\<lparr>max_tasks := 256, zombie_head := [], rq := (\<lambda>_. empty_rq), next_pid := 2,
    sleep_wheel := ?w\<lparr>expires := (expires ?w)(idle := 0)\<rparr>, tk := (tk s)(idle := k),
    idle_task := (idle_task s)(0 := Some idle), tasks := [idle],
    pid_hash := jlos_hash_chain_insert jlos_hash_uint32 h 0 idle, cur := (cur s)(0 := Some idle)\<rparr>"
  have init: "jlos_task_manager_init idle s = Some s'"
    by (simp add: jlos_task_manager_init_def h(1) s'_def k_def Let_def jlos_task_set_running_def jlos_task_init_1_def
        jlos_task_set_ready_def set_task_def)
  have "keyed_table jlos_hash_uint32 (pid_of s') h {}" by (rule keyed_table_cong [OF h(2)]) simp
  then have "keyed_table jlos_hash_uint32 (pid_of s') (pid_hash s') {idle}"
    using keyed_table_insert [of jlos_hash_uint32 "pid_of s'" h "{}" idle] by (simp add: s'_def k_def pid_of_def)
  then have "table_ok s'" using n by (simp add: table_ok_def s'_def k_def)
  moreover have q: "rq_inv s'" "queued s' = {}" by (auto intro!: empty_rq_inv simp: s'_def)
  moreover have nodes: "wheel_nodes (sleep_wheel s') = {}" "wheel_ok s'"
    by (simp_all add: s'_def wheel_ok_def wheel_nodes_def wheel_inv_def jlos_timer_wheel_init_def)
  then have "places_ok s'" "wheel_ok s'" using q(2) by (simp_all add: places_ok_def) (simp add: s'_def)
  moreover have "cpus_ok s' {}" using down by (auto simp: cpus_ok_def s'_def k_def)
  ultimately have "sched_inv s'" by (simp add: sched_ok_def)
  then show thesis using that [OF init] q down nodes(1) by (simp add: s'_def k_def)
qed

text \<open>A secondary CPU comes up with an idle task of its own.\<close>

lemma init_1_fields:
  "tasks (jlos_task_init_1 c t s) = tasks s" "max_tasks (jlos_task_init_1 c t s) = max_tasks s" "rq (jlos_task_init_1 c t s) = rq s"
  "cur (jlos_task_init_1 c t s) = cur s" "idle_task (jlos_task_init_1 c t s) = idle_task s"
  "num_cpus (jlos_task_init_1 c t s) = num_cpus s" "next_pid (jlos_task_init_1 c t s) = next_pid s + 1"
  "x \<noteq> t \<Longrightarrow> tk (jlos_task_init_1 c t s) x = tk s x" "pid (tk (jlos_task_init_1 c t s) t) = next_pid s + 1"
  "cpu (tk (jlos_task_init_1 c t s) t) = c" "status (tk (jlos_task_init_1 c t s) t) = READY"
  "\<not> sleeping (tk (jlos_task_init_1 c t s) t)"
  by (simp_all add: jlos_task_init_1_def jlos_task_set_ready_def Let_def)

lemma init_cpu_result:
  assumes ok: "sched_inv s" and c: "c < num_cpus s" and down: "cur s c = None" "idle_task s c = None"
    and i: "idle \<notin> set (tasks s)" and pid: "next_pid s + 1 \<notin> pid_of s ` set (tasks s)"
    and room: "length (tasks s) < max_tasks s \<or> grow" and s'_def: "s' = jlos_sched_init_cpu grow c idle s"
  shows "sched_inv s'" and "cur s' = (cur s)(c := Some idle)" and "idle_task s' = (idle_task s)(c := Some idle)"
    and "tasks s' = tasks s @ [idle]" and "rq s' = rq s" and "num_cpus s' = num_cpus s"
proof -
  define v where "v = jlos_task_set_running idle (jlos_task_init_1 c idle s)"
  have v: "sched_inv v" unfolding v_def jlos_task_set_running_def
    using i by (intro set_fresh_keeps init_1_keeps [OF ok]) (auto simp: init_1_fields)
  have vf: "tasks v = tasks s" "max_tasks v = max_tasks s" "num_cpus v = num_cpus s" "cpu (tk v idle) = c" "rq v = rq s"
    "pid (tk v idle) = next_pid s + 1" "cur v = cur s" "idle_task v = idle_task s" "status (tk v idle) = RUNNING"
    "\<not> sleeping (tk v idle)"
    by (simp_all add: v_def jlos_task_set_running_def init_1_fields)
  have "pid_of v ` set (tasks s) = pid_of s ` set (tasks s)"
    using i by (intro image_cong) (auto simp: pid_of_def v_def jlos_task_set_running_def init_1_fields)
  then have pv: "pid (tk v idle) \<notin> pid_of v ` set (tasks v)" using pid vf by simp
  define w where "w = snd (jlos_task_manager_add_task grow idle v)"
  have iv: "idle \<notin> set (tasks v)" "cpu (tk v idle) < num_cpus v" "length (tasks v) < max_tasks v \<or> grow"
    using i c room vf by auto
  note a = add_task_keeps [OF v iv(1,2) pv iv(3) w_def]
  have wi: "tk w idle = (tk v idle)\<lparr>slot_idx := int (length (tasks v))\<rparr>" by (simp add: a(10))
  have s': "s' = w\<lparr>idle_task := (idle_task w)(c := Some idle), cur := (cur w)(c := Some idle)\<rparr>"
    using down(2) vf(9) wi by (simp add: s'_def jlos_sched_init_cpu_def Let_def jlos_task_manager_enqueue_def flip: v_def w_def)
  show "cur s' = (cur s)(c := Some idle)" "idle_task s' = (idle_task s)(c := Some idle)"
    "tasks s' = tasks s @ [idle]" "rq s' = rq s" "num_cpus s' = num_cpus s"
    using a vf by (simp_all add: s')
  have "cpus_ok s' {}"
    using sched_okD(4) [OF a(2)] wi vf(4,9,10) a(3) unfolding cpus_ok_def s' by auto
  then show "sched_inv s'"
    using a(2) unfolding sched_ok_def table_ok_def places_ok_def wheel_ok_def rq_ok_def queued_def pid_of_def s' by simp
qed

lemma sched_ok_next_pid [simp]: "sched_ok (s\<lparr>next_pid := n\<rparr>) B \<longleftrightarrow> sched_ok s B"
  unfolding sched_ok_def table_ok_def places_ok_def cpus_ok_def wheel_ok_def rq_ok_def queued_def pid_of_def by simp

lemma sched_ok_resched [simp]: "sched_ok (s\<lparr>resched := r\<rparr>) B \<longleftrightarrow> sched_ok s B"
  unfolding sched_ok_def table_ok_def places_ok_def cpus_ok_def wheel_ok_def rq_ok_def queued_def pid_of_def by simp

text \<open>The child's task record.\<close>

definition child_of :: "sched \<Rightarrow> nat \<Rightarrow> jlos_task" where
  "child_of s parent = (tk s parent)\<lparr>status := READY, last_ready_tick := ticks s, yield := False, pid := next_pid s + 1,
     parent_pid := pid (tk s parent), waiting_pid := next_pid s + 1, sleeping := False, errno := 0,
     signal_pending := 0, exit_code := 0, remain_slice := default_slice (tk s parent), slot_idx := -1\<rparr>"

lemma sched_ok_saved_sp: "sched_ok s B \<Longrightarrow> sched_ok (s\<lparr>saved_sp := S\<rparr>) B"
  unfolding sched_ok_def table_ok_def places_ok_def cpus_ok_def wheel_ok_def rq_ok_def queued_def pid_of_def by simp

lemma fork_child_eq:
  "fork_child parent ch s = set_task ch (\<lambda>_. child_of s parent) (s\<lparr>next_pid := next_pid s + 1\<rparr>)"
  by (rule sched.equality) (simp_all add: fork_child_def child_of_def Let_def jlos_task_set_ready_def set_task_def fun_eq_iff)

lemma fork_result:
  assumes ok: "sched_ok s B" and par: "parent \<in> set (tasks s)" and ch: "ch \<notin> set (tasks s)"
    and pid: "next_pid s + 1 \<notin> pid_of s ` set (tasks s)" and room: "length (tasks s) < max_tasks s \<or> grow"
  obtains s' where "jlos_process_fork_inner (Some ch) True True True grow parent s = (Some ch, s')" "sched_ok s' B"
    "tasks s' = tasks s @ [ch]" "queued s' = insert ch (queued s)" "num_cpus s' = num_cpus s" "cur s' = cur s"
    "idle_task s' = idle_task s" "tk s' = (tk s)(ch := (child_of s parent)\<lparr>slot_idx := int (length (tasks s))\<rparr>)"
    "ticks s' = ticks s" "sleep_wheel s' = sleep_wheel s" "next_pid s' = next_pid s + 1"
    "zombie_head s' = zombie_head s" "prev s' = prev s \<and> saved_sp s' = (saved_sp s)(ch := Entry_stub)" "length (tasks s') < max_tasks s' \<or> max_tasks s \<le> Suc (length (tasks s))"
proof -
  define v where "v = jlos_arch_task_copy_thread ch (fork_child parent ch s)"
  have v: "sched_ok v B" unfolding v_def fork_child_eq jlos_arch_task_copy_thread_def
    using ok ch by (intro sched_ok_saved_sp set_fresh_keeps) simp_all
  have vf: "tasks v = tasks s" "max_tasks v = max_tasks s" "num_cpus v = num_cpus s" "rq v = rq s" "cur v = cur s"
    "idle_task v = idle_task s" "tk v = (tk s)(ch := child_of s parent)" "ticks v = ticks s" "sleep_wheel v = sleep_wheel s"
    "next_pid v = next_pid s + 1"
    by (simp_all add: v_def fork_child_eq set_task_def jlos_arch_task_copy_thread_def)
  have cv: "pid (tk v ch) = next_pid s + 1" "cpu (tk v ch) = cpu (tk s parent)" "status (tk v ch) = READY"
    by (simp_all add: vf child_of_def)
  have "pid_of v ` set (tasks s) = pid_of s ` set (tasks s)"
    using ch by (intro image_cong) (auto simp: pid_of_def vf)
  then have pv: "pid (tk v ch) \<notin> pid_of v ` set (tasks v)" using pid cv vf by simp
  have iv: "ch \<notin> set (tasks v)" "cpu (tk v ch) < num_cpus v" "length (tasks v) < max_tasks v \<or> grow"
    using ch room vf cv(2) par sched_okD(2) [OF ok] by (auto simp: table_ok_def)
  define w where "w = snd (jlos_task_manager_add_task grow ch v)"
  note a = add_task_keeps [OF v iv(1,2) pv iv(3) w_def]
  have wc: "status (tk w ch) = READY" using cv(3) by (simp add: a(10))
  have wq: "queued w = queued s" using a(4) vf(4) by (intro queued_cong) simp
  have "ch \<notin> queued s" using ch queuedD(1) [OF ok] by blast
  then have "sched_ok (rq_enqueue ch w) B" using wc wq a(3) by (intro enqueue_keeps [OF a(2)]) auto
  moreover have "next_pid w = next_pid v" "zombie_head w = zombie_head v" "prev w = prev v \<and> saved_sp w = saved_sp v" "max_tasks v \<le> max_tasks w"
    by (simp_all add: w_def jlos_task_manager_add_task_def Let_def)
  moreover from calculation have "Suc (length (tasks s)) < max_tasks w \<or> max_tasks s \<le> Suc (length (tasks s))"
    using vf(2) by auto
  moreover have "zombie_head v = zombie_head s" "prev v = prev s \<and> saved_sp v = (saved_sp s)(ch := Entry_stub)"
    by (simp_all add: v_def fork_child_eq jlos_arch_task_copy_thread_def)
  moreover have "jlos_process_fork_inner (Some ch) True True True grow parent s = (Some ch, rq_enqueue ch w)"
    using a(11) wc by (simp add: jlos_process_fork_inner_def jlos_task_manager_enqueue_def flip: v_def)
  ultimately show thesis using that [of "rq_enqueue ch w"] wq a vf by simp
qed

section \<open>The pid table\<close>

lemma find_pid_result:
  assumes ok: "sched_ok s B"
  shows "find_pid_locked p s = Some (if p \<in> pid_of s ` set (tasks s) then Some (the_inv_into (set (tasks s)) (pid_of s) p) else None)"
  using pidt.see_keyed sched_okD(2) [OF ok] by (simp add: find_pid_locked_def table_ok_def)

lemma find_pid_task:
  assumes "sched_ok s B" and "t \<in> set (tasks s)"
  shows "find_pid_locked (pid (tk s t)) s = Some (Some t)"
  using pidt.see_hit [of "pid_of s" "pid_hash s" "set (tasks s)" t] sched_okD(2) [OF assms(1)] assms(2)
  by (simp add: find_pid_locked_def table_ok_def pid_of_def)

lemma find_pid_none:
  assumes "sched_ok s B" and "p \<notin> pid_of s ` set (tasks s)"
  shows "find_pid_locked p s = Some None"
  using find_pid_result [OF assms(1)] assms(2) by simp

lemma pid_inj: "sched_ok s B \<Longrightarrow> inj_on (pid_of s) (set (tasks s))"
  by (auto simp: sched_ok_def table_ok_def keyed_table_def)

section \<open>A small machine\<close>

text \<open>Two CPUs; task 0 idles on the first, and task 1 has been forked from it.\<close>

definition blank_task :: jlos_task where
  "blank_task = \<lparr>status = READY, pid = 0, parent_pid = 0, exit_code = 0, sleeping = False, yield = False, errno = 0,
     waiting_pid = 0, priority = 0, remain_slice = 0, default_slice = 0, last_ready_tick = 0,
     fds = replicate 16 \<lparr>fd_type = FD_UNUSED, fd_obj = None, fd_flags = 0\<rparr>, slot_idx = -1, signal_pending = 0,
     signal_handlers = (\<lambda>_. 0), cpu = 0\<rparr>"

definition power_on :: sched where
  "power_on = \<lparr>tk = (\<lambda>_. blank_task), rq = (\<lambda>_. empty_rq), tasks = [], max_tasks = 0,
     pid_hash = \<lparr>buckets = (\<lambda>_. None), bucket_count = 0, bucket_mask = 0, hnext = (\<lambda>_. None), pprev = (\<lambda>_. None)\<rparr>,
     zombie_head = [], sleep_wheel = \<lparr>vecs = (\<lambda>_ _. []), jiffies = 0, expires = (\<lambda>_. 0)\<rparr>, wq = (\<lambda>_. []),
     idle_task = (\<lambda>_. None), cur = (\<lambda>_. None), prev = (\<lambda>_. None), saved_sp = (\<lambda>_. Entry_stub), resched = (\<lambda>_. False), num_cpus = 2, ticks = 0, next_pid = 0\<rparr>"

definition booted :: sched where
  "booted = snd (jlos_process_fork_inner (Some 1) True True True False 0 (the (jlos_task_manager_init 0 power_on)))"

lemma booted_props:
  "sched_inv booted" "tasks booted = [0, 1]" "queued booted = {1}" "num_cpus booted = 2" "cur booted = (\<lambda>_. None)(0 := Some 0)"
  "idle_task booted = (\<lambda>_. None)(0 := Some 0)" "pid (tk booted 0) = 0" "pid (tk booted 1) = 3" "parent_pid (tk booted 1) = 0"
  "next_pid booted = 3" "status (tk booted 0) = RUNNING" "status (tk booted 1) = READY" "cpu (tk booted 1) = 0"
  "wheel_nodes (sleep_wheel booted) = {}" "zombie_head booted = []" "prev booted = (\<lambda>_. None)"
proof -
  have "0 < num_cpus power_on" "cur power_on = (\<lambda>_. None)" "idle_task power_on = (\<lambda>_. None)"
    by (simp_all add: power_on_def)
  then obtain s where s: "jlos_task_manager_init 0 power_on = Some s" "sched_inv s"
    "tasks s = [0]" "queued s = {}" "cur s = (\<lambda>_. None)(0 := Some 0)" "idle_task s = (\<lambda>_. None)(0 := Some 0)"
    "num_cpus s = num_cpus power_on" "pid (tk s 0) = 0" "next_pid s = 2" "cpu (tk s 0) = 0" "max_tasks s = 256"
    "wheel_nodes (sleep_wheel s) = {}" "zombie_head s = []" "prev s = prev power_on"
    by (rule manager_init_result [of _ 0])
  have n: "num_cpus s = 2" "prev s = (\<lambda>_. None)" using s(7,14) by (simp_all add: power_on_def)
  have r: "0 \<in> set (tasks s)" "1 \<notin> set (tasks s)" "next_pid s + 1 \<notin> pid_of s ` set (tasks s)" "length (tasks s) < max_tasks s \<or> False"
    using s by (auto simp: pid_of_def)
  obtain s' where f: "jlos_process_fork_inner (Some 1) True True True False 0 s = (Some 1, s')" "sched_inv s'"
    "tasks s' = tasks s @ [1]" "queued s' = insert 1 (queued s)" "num_cpus s' = num_cpus s" "cur s' = cur s"
    "idle_task s' = idle_task s" "tk s' = (tk s)(1 := (child_of s 0)\<lparr>slot_idx := int (length (tasks s))\<rparr>)"
    "ticks s' = ticks s" "sleep_wheel s' = sleep_wheel s" "next_pid s' = next_pid s + 1" "zombie_head s' = zombie_head s"
    "prev s' = prev s \<and> saved_sp s' = (saved_sp s)(1 := Entry_stub)"
    by (rule fork_result [OF s(2) r])
  have b: "booted = s'" using s(1) f(1) by (simp add: booted_def)
  have st: "status (tk s 0) = RUNNING" using curD(3) [OF s(2), of 0 0] s(5) n by simp
  show "sched_inv booted" "tasks booted = [0, 1]" "queued booted = {1}" "num_cpus booted = 2" "cur booted = (\<lambda>_. None)(0 := Some 0)"
    "idle_task booted = (\<lambda>_. None)(0 := Some 0)" "pid (tk booted 0) = 0" "pid (tk booted 1) = 3" "parent_pid (tk booted 1) = 0"
    "next_pid booted = 3" "status (tk booted 0) = RUNNING" "status (tk booted 1) = READY" "cpu (tk booted 1) = 0"
    "wheel_nodes (sleep_wheel booted) = {}" "zombie_head booted = []" "prev booted = (\<lambda>_. None)"
    using s f n st by (simp_all add: b child_of_def)
qed

lemma no_sleepers: "wheel_nodes (sleep_wheel s) = {} \<Longrightarrow> woken c p s = {}"
  by (auto simp: woken_def expired_def split: if_splits)

section \<open>Properties\<close>

text \<open>
  C2: a call of the scheduler always returns with a settled machine. On its CPU it runs one
  task with a full time slice: one of the contenders (the tasks already queued, the task
  it preempts, the sleepers whose time has come), all others of which stay queued, or the
  idle task, and that only when no CPU of the machine has a task queued. It may be called
  while the CPU's own task has just blocked, exited, or been woken again.
\<close>

theorem schedule_correct:
  assumes "sched_ok s {c}" and "c < num_cpus s" and "cur s c = Some p"
  shows "\<exists>nx s'. jlos_task_manager_schedule c s = Some s' \<and> sched_inv s' \<and> cur s' = (cur s)(c := Some nx)
     \<and> status (tk s' nx) = RUNNING \<and> remain_slice (tk s' nx) = default_slice (tk s' nx)
     \<and> queued s' = contenders c p s - {nx}
     \<and> (nx \<in> contenders c p s \<or> idle_task s c = Some nx \<and> contenders c p s = {})"
proof (rule schedule_result [OF assms])
  fix nx s'
  assume r: "jlos_task_manager_schedule c s = Some s'" "sched_inv s'" "cur s' = (cur s)(c := Some nx)" "num_cpus s' = num_cpus s"
    "remain_slice (tk s' nx) = default_slice (tk s' nx)" "queued s' = contenders c p s - {nx}"
    "nx \<in> contenders c p s \<or> idle_task s c = Some nx \<and> contenders c p s = {}"
  have "status (tk s' nx) = RUNNING" using curD(3) [OF r(2), of c nx] r(3,4) assms(2) by simp
  then show ?thesis using r by blast
qed

theorem schedule_correct_witness:
  "\<exists>s'. jlos_task_manager_schedule 0 booted = Some s' \<and> sched_inv s' \<and> cur s' = (\<lambda>_. None)(0 := Some 1) \<and> queued s' = {}"
proof -
  have "sched_ok booted {0}" by (rule sched_ok_mono [OF booted_props(1)]) simp
  moreover have "0 < num_cpus booted" "cur booted 0 = Some 0" using booted_props(4,5) by auto
  ultimately obtain nx s' where r: "jlos_task_manager_schedule 0 booted = Some s'" "sched_inv s'" "cur s' = (cur booted)(0 := Some nx)"
    "queued s' = contenders 0 0 booted - {nx}"
    "nx \<in> contenders 0 0 booted \<or> idle_task booted 0 = Some nx \<and> contenders 0 0 booted = {}"
    using schedule_correct [of booted 0 0] by blast
  have "contenders 0 0 booted = {1}"
    using booted_props by (simp add: contenders_def no_sleepers preempted_def)
  then show ?thesis using r booted_props(5) by auto
qed

text \<open>
  C32: a CPU takes the first task of its lowest non-empty level, and no other order. The task
  moves up one level for every 200 ticks it has waited, its time slice is two ticks
  doubled per level, and the queues stay consistent. With nothing queued it takes nothing.
\<close>

theorem rq_dequeue_policy:
  assumes "rq_inv s"
  shows "rq_dequeue c s = Some (None, s) \<and> (\<forall>l. queue (rq s c) l = [])
     \<or> (\<exists>t l rest s'. rq_dequeue c s = Some (Some t, s') \<and> queue (rq s c) l = t # rest \<and> (\<forall>k<l. queue (rq s c) k = [])
          \<and> queue (rq s' c) l = rest \<and> rq_inv s' \<and> queued s' = queued s - {t}
          \<and> unat (priority (tk s' t)) = aged_level s t l \<and> unat (default_slice (tk s' t)) = 2 * 2 ^ aged_level s t l)"
  using assms
proof (cases rule: rq_dequeue_cases [of s c])
  case (first t l rest)
  let ?a = "aged_level s t l"
  let ?u = "\<lambda>k. k\<lparr>priority := of_nat ?a, default_slice := push_bit ?a 2, last_ready_tick := ticks s\<rparr>"
  have a: "?a < 4" using first(4) by (simp add: aged_level_def)
  then have "?a = 0 \<or> ?a = 1 \<or> ?a = 2 \<or> ?a = 3" by auto
  then have slice: "unat (push_bit ?a 2 :: u32) = 2 * 2 ^ ?a" by (auto simp: push_bit_eq_mult)
  have pri: "unat (of_nat ?a :: u32) = ?a" using a by (intro unat_of_nat_u32) simp
  have "rq_inv (set_task t ?u (rq_drop c l t s))" using first(5,6) by (intro rq_ok_set_task_off) auto
  then have "rq_dequeue c s = Some (Some t, set_task t ?u (rq_drop c l t s)) \<and> queue (rq s c) l = t # rest
      \<and> (\<forall>k<l. queue (rq s c) k = []) \<and> queue (rq (set_task t ?u (rq_drop c l t s)) c) l = rest
      \<and> rq_inv (set_task t ?u (rq_drop c l t s)) \<and> queued (set_task t ?u (rq_drop c l t s)) = queued s - {t}
      \<and> unat (priority (tk (set_task t ?u (rq_drop c l t s)) t)) = ?a
      \<and> unat (default_slice (tk (set_task t ?u (rq_drop c l t s)) t)) = 2 * 2 ^ ?a"
    using first pri slice by (simp add: rq_drop_queue)
  then show ?thesis by blast
qed simp

theorem rq_dequeue_policy_witness:
  "\<exists>s'. rq_dequeue 0 booted = Some (Some 1, s') \<and> rq_inv s' \<and> queued s' = {}"
proof -
  have "1 \<in> queued booted" using booted_props(3) by simp
  then obtain d l where q: "1 \<in> set (queue (rq booted d) l)" unfolding queued_def by blast
  then have "d = 0" using rq_okD(1) [OF sched_okD(1) [OF booted_props(1)] q] booted_props(13) by simp
  then have "\<not> (\<forall>l. queue (rq booted 0) l = [])" using q by (metis empty_iff list.set(1))
  then obtain t l rest s' where r: "rq_dequeue 0 booted = Some (Some t, s')" "queue (rq booted 0) l = t # rest" "rq_inv s'"
    "queued s' = queued booted - {t}"
    using rq_dequeue_policy [OF sched_okD(1) [OF booted_props(1)], of 0] by blast
  have "t \<in> queued booted" using r(2) unfolding queued_def by (metis (mono_tags, lifting) list.set_intros(1) mem_Collect_eq)
  then show ?thesis using r booted_props(3) by auto
qed

end
