(* ===== verification/Sched_Life.thy ===== *)
theory Sched_Life
  imports Sched_Props
begin

text \<open>
  The life of a task: fork and the pid table, sleeping and waking, exit and wait, signal
  delivery, and its descriptors.
\<close>

lemma queued_resched [simp]: "queued (s\<lparr>resched := r\<rparr>) = queued s"
  by (simp add: queued_def)

section \<open>Fork\<close>

lemma fork_failed:
  assumes "\<not> (a \<and> b \<and> m)"
  shows "fst (jlos_process_fork_inner (Some ch) a b m grow parent s) = None"
    and "tasks (snd (jlos_process_fork_inner (Some ch) a b m grow parent s)) = tasks s"
    and "rq (snd (jlos_process_fork_inner (Some ch) a b m grow parent s)) = rq s"
    and "pid_hash (snd (jlos_process_fork_inner (Some ch) a b m grow parent s)) = pid_hash s"
  using assms by (auto simp: jlos_process_fork_inner_def fork_child_eq Let_def)

text \<open>
  C15: forking makes one new task, ready and queued, with a pid of its own under which the
  table finds it, its parent's pid, no pending signal and a full slice; every other task
  and every other pid is as before. When an allocation fails nothing is added.
\<close>

theorem fork_correct:
  assumes "sched_ok s B" and "parent \<in> set (tasks s)" and "ch \<notin> set (tasks s)"
    and "next_pid s + 1 \<notin> pid_of s ` set (tasks s)" and "length (tasks s) < max_tasks s \<or> grow"
  shows "(\<exists>s'. jlos_process_fork_inner (Some ch) True True True grow parent s = (Some ch, s') \<and> sched_ok s' B
     \<and> queued s' = insert ch (queued s) \<and> (\<forall>x. x \<noteq> ch \<longrightarrow> tk s' x = tk s x)
     \<and> jlos_task_manager_find_pid (next_pid s + 1) s' = Some (Some ch)
     \<and> (\<forall>p. p \<noteq> next_pid s + 1 \<longrightarrow> jlos_task_manager_find_pid p s' = jlos_task_manager_find_pid p s)
     \<and> status (tk s' ch) = READY \<and> parent_pid (tk s' ch) = pid (tk s parent) \<and> signal_pending (tk s' ch) = 0
     \<and> remain_slice (tk s' ch) = default_slice (tk s parent) \<and> fds (tk s' ch) = fds (tk s parent))
     \<and> (\<forall>a b m. \<not> (a \<and> b \<and> m) \<longrightarrow> fst (jlos_process_fork_inner (Some ch) a b m grow parent s) = None
     \<and> tasks (snd (jlos_process_fork_inner (Some ch) a b m grow parent s)) = tasks s
     \<and> queued (snd (jlos_process_fork_inner (Some ch) a b m grow parent s)) = queued s)"
proof -
  obtain s' where f: "jlos_process_fork_inner (Some ch) True True True grow parent s = (Some ch, s')" "sched_ok s' B"
    "tasks s' = tasks s @ [ch]" "queued s' = insert ch (queued s)"
    "tk s' = (tk s)(ch := (child_of s parent)\<lparr>slot_idx := int (length (tasks s))\<rparr>)"
    by (rule fork_result [OF assms])
  have pid_ch: "pid (tk s' ch) = next_pid s + 1" by (simp add: f(5) child_of_def)
  have old: "pid_of s' x = pid_of s x" if "x \<in> set (tasks s)" for x using that assms(3) by (auto simp: pid_of_def f(5))
  have find_ch: "find_pid_locked (next_pid s + 1) s' = Some (Some ch)"
    using find_pid_task [OF f(2), of ch] f(3) pid_ch by simp
  have "find_pid_locked p s' = find_pid_locked p s" if p: "p \<noteq> next_pid s + 1" for p
  proof (cases "p \<in> pid_of s ` set (tasks s)")
    case True
    then obtain x where x: "x \<in> set (tasks s)" "p = pid_of s x" by auto
    then have "find_pid_locked p s' = Some (Some x)"
      using find_pid_task [OF f(2), of x] f(3) old [OF x(1)] by (simp add: pid_of_def)
    then show ?thesis using find_pid_task [OF assms(1) x(1)] x(2) by (simp add: pid_of_def)
  next
    case False
    have "pid_of s' ` set (tasks s) = pid_of s ` set (tasks s)" using old by (rule image_cong [OF refl])
    then have "p \<notin> pid_of s' ` set (tasks s')" using False p pid_ch f(3) by (simp add: pid_of_def)
    then show ?thesis using find_pid_none [OF f(2)] find_pid_none [OF assms(1) False] by simp
  qed
  then show ?thesis
    using f find_ch fork_failed [of _ _ _ ch grow parent s]
    by (intro conjI exI [of _ s']) (simp_all add: jlos_task_manager_find_pid_def child_of_def queued_def)
qed

lemma booted_room: "0 \<in> set (tasks booted)" "1 \<in> set (tasks booted)" "2 \<notin> set (tasks booted)"
  "next_pid booted + 1 \<notin> pid_of booted ` set (tasks booted)"
  by (simp_all add: booted_props pid_of_def) (simp add: booted_props(8) [simplified])

theorem fork_correct_witness:
  "\<exists>s'. jlos_process_fork_inner (Some 2) True True True True 1 booted = (Some 2, s') \<and> sched_inv s' \<and> queued s' = {2, 1}
     \<and> jlos_task_manager_find_pid 4 s' = Some (Some 2) \<and> parent_pid (tk s' 2) = 3"
  using fork_correct [OF booted_props(1) booted_room(2-4), of True] booted_props(3,8,10) by auto

section \<open>Waking\<close>

lemma wakeup_result:
  assumes ok: "sched_ok s B" and t: "t \<in> set (tasks s)" and s'_def: "s' = jlos_task_wakeup t s"
  shows "sched_ok s' B" and "queued s' = queued s \<union> (if status (tk s t) = BLOCKED then {t} else {})"
    and "\<not> sleeping (tk s' t)" and "status (tk s' t) \<noteq> BLOCKED" and "resched s' (cpu (tk s t))"
    and "sleeping (tk s t) \<Longrightarrow> t \<notin> wheel_nodes (sleep_wheel s')" and "x \<noteq> t \<Longrightarrow> tk s' x = tk s x"
    and "cur s' = cur s" and "num_cpus s' = num_cpus s" and "tasks s' = tasks s" and "idle_task s' = idle_task s"
    and "wq s' = wq s"
proof -
  define v where "v = (if sleeping (tk s t)
     then (set_task t (\<lambda>k. k\<lparr>sleeping := False\<rparr>) s)\<lparr>sleep_wheel := jlos_timer_wheel_del (sleep_wheel s) t\<rparr> else s)"
  have w: "wheel_inv (sleep_wheel s)" using sched_okD(5) [OF ok] by (simp add: wheel_ok_def)
  have u: "sched_ok (set_task t (\<lambda>k. k\<lparr>sleeping := False\<rparr>) s) B"
    by (intro set_task_same_status [OF ok]) (auto simp: keeps_identity_def)
  then have "sched_ok ((set_task t (\<lambda>k. k\<lparr>sleeping := False\<rparr>) s)\<lparr>sleep_wheel := jlos_timer_wheel_del (sleep_wheel s) t\<rparr>) B"
    using w nodes_del [OF w, of t] wheel_inv_del [OF w, of t]
    unfolding sched_ok_def table_ok_def places_ok_def cpus_ok_def wheel_ok_def rq_ok_def queued_def pid_of_def by auto
  then have v: "sched_ok v B" using ok by (simp add: v_def)
  have vf: "queued v = queued s" "status (tk v t) = status (tk s t)" "tasks v = tasks s" "cpu (tk v t) = cpu (tk s t)"
    "\<not> sleeping (tk v t)" "num_cpus v = num_cpus s" "cur v = cur s" "idle_task v = idle_task s" "wq v = wq s"
    "\<And>x. x \<noteq> t \<Longrightarrow> tk v x = tk s x"
    "sleeping (tk s t) \<Longrightarrow> t \<notin> wheel_nodes (sleep_wheel v)"
    by (auto simp: v_def queued_def nodes_del [OF w])
  have eq: "s' = jlos_sched_set_need_resched_on (cpu (tk s t)) (if status (tk v t) = BLOCKED then rq_enqueue t (jlos_task_set_ready t v) else v)"
    unfolding s'_def jlos_task_wakeup_def Let_def v_def by (simp add: jlos_task_set_ready_def)
  have enq: "sched_ok (rq_enqueue t (jlos_task_set_ready t v)) B" if b: "status (tk v t) = BLOCKED"
  proof (rule ready_enqueue_keeps [OF v _ _ _ _ _ subset_refl])
    show "t \<in> set (tasks v)" using t vf(3) by simp
    show "t \<notin> queued v" "status (tk v t) \<noteq> ZOMBIE" using status_not_queued [OF v, of t] b by auto
    show "\<not> idle_of v t" using idle_ofD [OF v, of t] b by auto
    show "\<forall>c<num_cpus v. cur v c = Some t \<longrightarrow> c \<in> B" using curD(3) [OF v] b by fastforce
  qed
  show "sched_ok s' B" using v enq by (simp add: eq jlos_sched_set_need_resched_on_def)
  show "queued s' = queued s \<union> (if status (tk s t) = BLOCKED then {t} else {})"
    using vf(1,2) by (simp add: eq jlos_sched_set_need_resched_on_def jlos_task_set_ready_def)
  show "\<not> sleeping (tk s' t)" "status (tk s' t) \<noteq> BLOCKED" "resched s' (cpu (tk s t))" "x \<noteq> t \<Longrightarrow> tk s' x = tk s x"
    "sleeping (tk s t) \<Longrightarrow> t \<notin> wheel_nodes (sleep_wheel s')" "cur s' = cur s" "num_cpus s' = num_cpus s" "tasks s' = tasks s"
    "idle_task s' = idle_task s" "wq s' = wq s"
    using vf by (simp_all add: eq jlos_sched_set_need_resched_on_def jlos_task_set_ready_def)
qed

text \<open>
  C16: waking a blocked task queues it, cancels its sleep timer and asks its CPU to
  reschedule; waking any task again, or one that is not blocked, changes no run queue. The
  machine stays consistent.
\<close>

theorem wakeup_correct:
  assumes "sched_ok s B" and "t \<in> set (tasks s)"
  shows "sched_ok (jlos_task_wakeup t s) B
     \<and> queued (jlos_task_wakeup t s) = queued s \<union> (if status (tk s t) = BLOCKED then {t} else {})
     \<and> \<not> sleeping (tk (jlos_task_wakeup t s) t) \<and> resched (jlos_task_wakeup t s) (cpu (tk s t))
     \<and> (sleeping (tk s t) \<longrightarrow> t \<notin> wheel_nodes (sleep_wheel (jlos_task_wakeup t s)))
     \<and> queued (jlos_task_wakeup t (jlos_task_wakeup t s)) = queued (jlos_task_wakeup t s)"
proof -
  note w = wakeup_result [OF assms refl]
  have "t \<in> set (tasks (jlos_task_wakeup t s))" using w(10) assms(2) by simp
  note w2 = wakeup_result(2) [OF w(1) this refl]
  show ?thesis using w(1-6) w2 by auto
qed

definition napping :: sched where
  "napping = jlos_task_set_blocked 1 booted"

lemma napping_props: "sched_inv napping" "queued napping = {}" "1 \<in> set (tasks napping)" "status (tk napping 1) = BLOCKED"
proof -
  have i: "\<not> idle_of booted 1" "1 \<in> set (tasks booted)" "1 \<notin> set (zombie_head booted)"
    "\<forall>c<num_cpus booted. cur booted c = Some 1 \<longrightarrow> c \<in> {}"
    by (auto simp: idle_of_def booted_props split: if_splits)
  note k = blocked_off_keeps [OF booted_props(1) i(2,1,3) _ _ i(4) subset_refl napping_def [unfolded jlos_task_set_blocked_def]]
  show "sched_inv napping" using k(1) by (simp add: keeps_identity_def)
  show "queued napping = {}" using k(2) booted_props(3) by (simp add: keeps_identity_def)
  have "tasks napping = tasks booted"
    by (simp add: napping_def jlos_task_set_blocked_def rq_remove_specific_def rq_unlink_def Let_def)
  then show "1 \<in> set (tasks napping)" using i(2) by simp
  show "status (tk napping 1) = BLOCKED" using k(3) by (simp add: keeps_identity_def)
qed

theorem wakeup_correct_witness:
  "sched_inv (jlos_task_wakeup 1 napping) \<and> queued (jlos_task_wakeup 1 napping) = {1}
     \<and> queued (jlos_task_wakeup 1 (jlos_task_wakeup 1 napping)) = {1}"
  using wakeup_correct [OF napping_props(1,3)] napping_props(2,4) by simp

section \<open>Exit and wait\<close>

text \<open>\<open>waits_for s p t\<close>: \<open>p\<close> is the parent of \<open>t\<close> and blocked in a wait for it.\<close>

definition waits_for :: "sched \<Rightarrow> nat \<Rightarrow> nat \<Rightarrow> bool" where
  "waits_for s p t \<longleftrightarrow> p \<in> set (tasks s) \<and> t \<in> set (tasks s) \<and> p \<noteq> t \<and> pid (tk s p) = parent_pid (tk s t)
     \<and> pid (tk s p) \<noteq> 0 \<and> status (tk s p) = WAITING \<and> waiting_pid (tk s p) = pid (tk s t)"

lemma wake_waiter_result:
  assumes ok: "sched_ok s {c}" and w: "waits_for s p t" and nc: "cur s c \<noteq> Some p"
  obtains s' where "wake_waiter_locked (pid (tk s t)) s = Some s'" "sched_ok s' {c}" "queued s' = insert p (queued s)"
    "\<forall>x. x \<noteq> p \<longrightarrow> tk s' x = tk s x" "cur s' = cur s" "num_cpus s' = num_cpus s" "tasks s' = tasks s"
    "zombie_head s' = zombie_head s" "prev s' = prev s \<and> saved_sp s' = saved_sp s" "pid (tk s' p) = pid (tk s p)"
proof -
  note d = w [unfolded waits_for_def]
  have "pid (tk s p) \<noteq> pid (tk s t)" using pid_inj [OF ok] d by (auto simp: pid_of_def inj_on_def)
  then have pp: "parent_pid (tk s t) \<noteq> 0" "parent_pid (tk s t) \<noteq> pid (tk s t)" using d by auto
  have ft: "find_pid_locked (pid (tk s t)) s = Some (Some t)" using find_pid_task [OF ok] d by simp
  have fp: "find_pid_locked (parent_pid (tk s t)) s = Some (Some p)" using find_pid_task [OF ok, of p] d by simp
  define v where "v = set_task p (\<lambda>k. k\<lparr>waiting_pid := pid k\<rparr>) s"
  have v: "sched_ok v {c}" unfolding v_def by (intro set_task_same_status [OF ok]) (auto simp: keeps_identity_def)
  have vf: "queued v = queued s" "status (tk v p) = WAITING" "tasks v = tasks s" "num_cpus v = num_cpus s" "cur v = cur s"
    using d by (simp_all add: v_def)
  have np: "p \<notin> queued v" using status_not_queued [OF v, of p] vf(2) by simp
  define u where "u = jlos_task_set_ready p v"
  have uq: "queued u = queued s" by (simp add: u_def jlos_task_set_ready_def vf)
  have e: "sched_ok (rq_enqueue p u) {c}" unfolding u_def
  proof (rule ready_enqueue_keeps [OF v _ np _ _ _ subset_refl])
    show "p \<in> set (tasks v)" "status (tk v p) \<noteq> ZOMBIE" using d vf by auto
    show "\<not> idle_of v p" using idle_ofD [OF v, of p] vf(2) by auto
    show "\<forall>d<num_cpus v. cur v d = Some p \<longrightarrow> d \<in> {c}" using curD(3) [OF v] vf(2) by fastforce
  qed
  have "\<not> task_on_rq p u"
  proof -
    have "rq_ok u {p}" using rq_ok_mono [OF sched_okD(1) [OF v], of "{p}"]
      unfolding u_def jlos_task_set_ready_def by (intro rq_ok_set_task) auto
    then show ?thesis using task_on_rq_iff np uq vf(1) by simp
  qed
  then have res: "wake_waiter_locked (pid (tk s t)) s = Some (jlos_sched_set_need_resched_on (cpu (tk (rq_enqueue p u) p)) (rq_enqueue p u))"
    using ft fp pp d by (simp add: wake_waiter_locked_def Let_def flip: v_def u_def)
  show thesis
    by (rule that [OF res]) (use e uq in \<open>auto simp: jlos_sched_set_need_resched_on_def u_def v_def jlos_task_set_ready_def\<close>)
qed

lemma exit_result:
  assumes ok: "sched_inv s" and c: "c < num_cpus s" and t: "cur s c = Some t" "idle_task s c \<noteq> Some t" and w: "waits_for s p t"
  obtains s' nx where "jlos_process_exit c t code s = Some s'" "sched_inv s'" "p \<in> queued s' \<or> cur s' c = Some p"
    "t \<in> set (tasks s')" "status (tk s' t) = ZOMBIE" "exit_code (tk s' t) = code" "pid (tk s' t) = pid (tk s t)"
    "parent_pid (tk s' t) = parent_pid (tk s t)" "pid (tk s' p) = pid (tk s p)"
    "num_cpus s' = num_cpus s" "cur s' c = Some nx" "prev s' = (prev s)(c := (if saved_sp s nx = In_schedule then None else Some t))"
proof -
  note d = w [unfolded waits_for_def] and ct = curD [OF ok c t(1)]
  have ok1: "sched_ok s {c}" using ok by (rule sched_ok_mono) simp
  have z: "t \<notin> set (zombie_head s)" using sched_okD(3) [OF ok] ct(3) by (auto simp: places_ok_def)
  have ni: "\<not> idle_of s t" using cur_not_other_idle [OF ok c t(1)] t(2) by simp
  let ?u = "\<lambda>k. k\<lparr>status := ZOMBIE, exit_code := code\<rparr>"
  define v where "v = jlos_task_set_zombie t code s"
  have v_eq: "v = rq_remove_specific t (set_task t ?u s)" by (simp add: v_def jlos_task_set_zombie_def)
  have id: "keeps_identity (tk s t) (?u (tk s t))" "priority (?u (tk s t)) = priority (tk s t)" by (simp_all add: keeps_identity_def)
  note k = blocked_off_keeps [OF ok1 ct(1) ni z id cur_only_here [OF ok c t(1)] subset_refl v_eq]
  have f: "tasks v = tasks s" "cur v = cur s" "num_cpus v = num_cpus s" "zombie_head v = zombie_head s" "prev v = prev s \<and> saved_sp v = saved_sp s"
    by (simp_all add: v_eq rq_remove_specific_def rq_unlink_def Let_def)
  have vt: "tk v t = ?u (tk s t)" "tk v p = tk s p" using k(3) d by simp_all
  have wv: "waits_for v p t" using d vt f unfolding waits_for_def by (metis jlos_task.select_convs jlos_task.surjective jlos_task.update_convs(1,4))
  have cp: "cur v c \<noteq> Some p" using f(2) t(1) d by simp
  obtain x where x: "wake_waiter_locked (pid (tk v t)) v = Some x" "sched_ok x {c}" "queued x = insert p (queued v)"
    "\<forall>y. y \<noteq> p \<longrightarrow> tk x y = tk v y" "cur x = cur v" "num_cpus x = num_cpus v" "tasks x = tasks v"
    "zombie_head x = zombie_head v" "prev x = prev v \<and> saved_sp x = saved_sp v" "pid (tk x p) = pid (tk v p)"
    by (rule wake_waiter_result [OF k(1) wv cp])
  have "find_pid_locked (parent_pid (tk v t)) v = Some (Some p)" using find_pid_task [OF k(1), of p] wv by (simp add: waits_for_def)
  then have en: "exit_notify t code s = Some x" using x(1) wv by (simp add: exit_notify_def waits_for_def flip: v_def)
  define y where "y = x\<lparr>resched := (resched x)(c := True)\<rparr>"
  have y: "sched_ok y {c}" "c < num_cpus y" "cur y c = Some t" using x f c t(1) by (simp_all add: y_def)
  obtain nx s' where r: "jlos_task_manager_schedule c y = Some s'" "sched_inv s'" "cur s' = (cur y)(c := Some nx)"
    "num_cpus s' = num_cpus y" "idle_task s' = idle_task y" "remain_slice (tk s' nx) = default_slice (tk s' nx)"
    "queued s' = contenders c t y - {nx}"
    "nx \<in> contenders c t y \<or> idle_task y c = Some nx \<and> contenders c t y = {}" "resched s' c = False" "evolves y s'"
    "set (tasks s') \<union> set (zombie_head y) = set (tasks y) \<union> set (zombie_head y)"
    "wheel_nodes (sleep_wheel s') \<subseteq> wheel_nodes (sleep_wheel y) \<union> set (zombie_head y)"
    "switched c t nx y s'"
    by (rule schedule_result [OF y])
  have "p \<in> contenders c t y" using x(3) by (simp add: contenders_def y_def)
  then have pq: "p \<in> queued s' \<or> cur s' c = Some p" using r(3,7) by auto
  have xt: "tk y t = ?u (tk s t)" using x(4) d vt by (simp add: y_def)
  have "t \<in> set (tasks s') \<union> set (zombie_head y)" using r(11) x(7) f(1) ct(1) by (simp add: y_def)
  then have tt: "t \<in> set (tasks s')" using z x(8) f(4) by (simp add: y_def)
  have zt: "status (tk s' t) = ZOMBIE" "person (tk s' t) = person (tk y t)" "person (tk s' p) = person (tk y p)"
    using r(10) xt by (auto simp: evolves_def)
  have cn: "cur s' c = Some nx" using r(3) by simp
  then have "nx \<noteq> t" using curD(3) [OF r(2), of c nx] zt(1) r(4) y(2) by auto
  then have pv: "prev s' = (prev s)(c := (if saved_sp s nx = In_schedule then None else Some t))"
    using r(13) x(9) f(5) by (simp add: switched_def y_def)
  show thesis
  proof (rule that [OF _ r(2) pq tt zt(1) _ _ _ _ _ cn pv])
    show "jlos_process_exit c t code s = Some s'" using en r(1) by (simp add: jlos_process_exit_def y_def)
    show "exit_code (tk s' t) = code" "pid (tk s' t) = pid (tk s t)" "parent_pid (tk s' t) = parent_pid (tk s t)"
      using zt(2) xt by (simp_all add: person_def)
    show "pid (tk s' p) = pid (tk s p)" using zt(3) x(10) vt(2) by (simp add: person_def y_def)
    show "num_cpus s' = num_cpus s" using r(4) x(6) f(3) by (simp add: y_def)
  qed
qed

text \<open>Reaping reports the child in any case, and frees it unless a CPU still uses it.\<close>

lemma reap_child_reports:
  assumes ok: "sched_inv s" and t: "t \<in> set (tasks s)" "status (tk s t) = ZOMBIE" and par: "parent_pid (tk s t) = pid (tk s p)"
  shows "jlos_task_reap_child c (pid (tk s t)) p s
    = Some (sint (pid (tk s t)), Some (exit_code (tk s t)), task_free_locked c t s)"
    and "jlos_task_wait_or_reap c (pid (tk s t)) p s = jlos_task_reap_child c (pid (tk s t)) p s"
  using find_pid_task [OF ok t(1)] par t(2) by (simp_all add: jlos_task_reap_child_def jlos_task_wait_or_reap_def)

lemma reap_child_frees:
  assumes ok: "sched_inv s" and c: "c < num_cpus s" and t: "t \<in> set (tasks s)" "status (tk s t) = ZOMBIE"
    and free: "\<not> jlos_hal_is_task_in_use t s" and s'_def: "s' = task_free_locked c t s"
  shows "sched_inv s'" and "set (tasks s') = set (tasks s) - {t}" and "find_pid_locked (pid (tk s t)) s' = Some None"
proof -
  note e = task_free_locked_effect [OF ok t(1) free c s'_def] and k = task_free_locked_keeps [OF ok t(1) free c t(2) s'_def]
  have pid: "pid_of s' = pid_of s"
  proof
    fix x
    from e(13) [of x] obtain i where "tk s' x = (tk s x)\<lparr>slot_idx := i\<rparr>" by blast
    then show "pid_of s' x = pid_of s x" by (simp add: pid_of_def)
  qed
  have "pid (tk s t) \<notin> pid_of s' ` set (tasks s')"
  proof
    assume "pid (tk s t) \<in> pid_of s' ` set (tasks s')"
    then obtain x where "x \<in> set (tasks s) - {t}" "pid_of s x = pid_of s t" unfolding e(10) pid
      by (metis imageE pid_of_def)
    then show False using inj_onD [OF pid_inj [OF ok] _ _ t(1)] by blast
  qed
  then show "find_pid_locked (pid (tk s t)) s' = Some None" by (rule find_pid_none [OF k(1)])
  show "sched_inv s'" "set (tasks s') = set (tasks s) - {t}" using k(1) e(10) by simp_all
qed

text \<open>
  C11: exit and wait meet. When a task exits whose parent waits for it, the call returns, the
  parent becomes runnable, and the dead task stays in the table until it is reaped. Reaping
  it then, also when the parent repeats its wait, yields its pid and exit code. It frees the task and takes its pid out of the table
  exactly when the task that runs next on the CPU resumes inside the scheduler and no other CPU
  names the dead task as the one it switched from; otherwise, as after a switch to a task that
  runs for the first time, the task counts as in use and reaping leaves it in the table.
\<close>

theorem exit_wait_roundtrip:
  assumes "sched_inv s" and "c < num_cpus s" and "cur s c = Some t" and "idle_task s c \<noteq> Some t" and "waits_for s p t"
  shows "\<exists>s' s'' nx. jlos_process_exit c t code s = Some s' \<and> sched_inv s' \<and> (p \<in> queued s' \<or> cur s' c = Some p)
     \<and> t \<in> set (tasks s') \<and> status (tk s' t) = ZOMBIE \<and> cur s' c = Some nx
     \<and> jlos_task_reap_child c (pid (tk s t)) p s' = Some (sint (pid (tk s t)), Some code, s'') \<and> sched_inv s''
     \<and> jlos_task_wait_or_reap c (pid (tk s t)) p s' = jlos_task_reap_child c (pid (tk s t)) p s'
     \<and> (if saved_sp s nx = In_schedule \<and> (\<forall>d<num_cpus s. d = c \<or> prev s d \<noteq> Some t)
        then set (tasks s'') = set (tasks s') - {t} \<and> jlos_task_manager_find_pid (pid (tk s t)) s'' = Some None
        else s'' = s')"
proof -
  obtain s' nx where r: "jlos_process_exit c t code s = Some s'" "sched_inv s'" "p \<in> queued s' \<or> cur s' c = Some p"
    "t \<in> set (tasks s')" "status (tk s' t) = ZOMBIE" "exit_code (tk s' t) = code" "pid (tk s' t) = pid (tk s t)"
    "parent_pid (tk s' t) = parent_pid (tk s t)" "pid (tk s' p) = pid (tk s p)"
    "num_cpus s' = num_cpus s" "cur s' c = Some nx" "prev s' = (prev s)(c := (if saved_sp s nx = In_schedule then None else Some t))"
    by (rule exit_result [OF assms(1-5), of code])
  have par: "parent_pid (tk s' t) = pid (tk s' p)" using r(8,9) assms(5) by (simp add: waits_for_def)
  have c: "c < num_cpus s'" using r(10) assms(2) by simp
  have "cur s' d \<noteq> Some t" if "d < num_cpus s'" for d using curD(3) [OF r(2) that, of t] r(5) by auto
  then have use: "jlos_hal_is_task_in_use t s' \<longleftrightarrow> \<not> (saved_sp s nx = In_schedule \<and> (\<forall>d<num_cpus s. d = c \<or> prev s d \<noteq> Some t))"
    using r(10,12) assms(2) by (auto simp: is_task_in_use_iff)
  define s'' where "s'' = task_free_locked c t s'"
  have rp: "jlos_task_reap_child c (pid (tk s t)) p s' = Some (sint (pid (tk s t)), Some code, s'')"
    "jlos_task_wait_or_reap c (pid (tk s t)) p s' = jlos_task_reap_child c (pid (tk s t)) p s'"
    using reap_child_reports [OF r(2,4,5) par, of c] r(6,7) by (simp_all add: s''_def)
  show ?thesis
  proof (cases "jlos_hal_is_task_in_use t s'")
    case True
    then have "s'' = s'" by (simp add: s''_def task_free_locked_def)
    then show ?thesis using r(1-5,11) rp use True by (intro exI [of _ s'] exI [of _ s''] exI [of _ nx]) auto
  next
    case False
    note f = reap_child_frees [OF r(2) c r(4,5) False s''_def]
    then have "jlos_task_manager_find_pid (pid (tk s t)) s'' = Some None" using r(7) by (simp add: jlos_task_manager_find_pid_def)
    then show ?thesis using r(1-5,11) rp use False f(1,2) by (intro exI [of _ s'] exI [of _ s''] exI [of _ nx]) simp
  qed
qed

text \<open>A task that has forked waits for its child, which runs; every task has been switched away from before.\<close>

lemma family:
  obtains s where "sched_inv s" "0 < num_cpus s" "cur s 0 = Some 2" "idle_task s 0 \<noteq> Some 2" "waits_for s 1 2" "saved_sp s = (\<lambda>_. In_schedule)"
    "num_cpus s = 2" "prev s 1 = None" "pid (tk s 2) = 4"
proof -
  have room: "length (tasks booted) < max_tasks booted \<or> True" by simp
  obtain f where f: "jlos_process_fork_inner (Some 2) True True True True 1 booted = (Some 2, f)" "sched_inv f"
    "tasks f = tasks booted @ [2]" "queued f = insert 2 (queued booted)" "num_cpus f = num_cpus booted" "cur f = cur booted"
    "idle_task f = idle_task booted" "tk f = (tk booted)(2 := (child_of booted 1)\<lparr>slot_idx := int (length (tasks booted))\<rparr>)"
    "ticks f = ticks booted" "sleep_wheel f = sleep_wheel booted" "next_pid f = next_pid booted + 1"
    "zombie_head f = zombie_head booted" "prev f = prev booted \<and> saved_sp f = (saved_sp booted)(2 := Entry_stub)"
    by (rule fork_result [OF booted_props(1) booted_room(2-4) room])
  have ids: "pid (tk f 2) = 4" "parent_pid (tk f 2) = 3" "pid (tk f 1) = 3" "status (tk f 2) = READY"
    using booted_props(8,10) by (simp_all add: f(8) child_of_def)
  have "find_pid_locked 4 f = Some (Some 2)" using find_pid_task [OF f(2), of 2] f(3) ids(1) by simp
  then have g: "jlos_task_set_waiting 1 4 f = Some (rq_remove_specific 1 (set_task 1 (\<lambda>k. k\<lparr>status := WAITING, waiting_pid := 4\<rparr>) f))"
    using ids(4) by (simp add: jlos_task_set_waiting_def jlos_task_manager_find_pid_def)
  define g where "g = rq_remove_specific 1 (set_task 1 (\<lambda>k. k\<lparr>status := WAITING, waiting_pid := 4\<rparr>) f)"
  have i: "1 \<in> set (tasks f)" "\<not> idle_of f 1" "1 \<notin> set (zombie_head f)" "\<forall>c<num_cpus f. cur f c = Some 1 \<longrightarrow> c \<in> {}"
    by (auto simp: idle_of_def booted_props f split: if_splits)
  note k = blocked_off_keeps [OF f(2) i(1-3) _ _ i(4) subset_refl g_def]
  have kg: "sched_inv g" "queued g = {2}" "tk g = tk (set_task 1 (\<lambda>k. k\<lparr>status := WAITING, waiting_pid := 4\<rparr>) f)"
    using k f(4) booted_props(3) by (auto simp: keeps_identity_def)
  have gf: "tasks g = [0, 1, 2]" "cur g = cur booted" "idle_task g = idle_task booted" "num_cpus g = 2" "zombie_head g = []"
    "sleep_wheel g = sleep_wheel booted" "prev g = (\<lambda>_. None)"
    using f booted_props by (simp_all add: g_def rq_remove_specific_def rq_unlink_def Let_def)
  have h: "sched_ok g {0}" "0 < num_cpus g" "cur g 0 = Some 0"
    using sched_ok_mono [OF kg(1)] gf booted_props(5) by auto
  have c0: "contenders 0 0 g = {2}"
    using kg(2) gf booted_props by (simp add: contenders_def no_sleepers preempted_def)
  obtain nx s where s: "jlos_task_manager_schedule 0 g = Some s" "sched_inv s" "cur s = (cur g)(0 := Some nx)"
    "num_cpus s = num_cpus g" "idle_task s = idle_task g" "remain_slice (tk s nx) = default_slice (tk s nx)"
    "queued s = contenders 0 0 g - {nx}" "nx \<in> contenders 0 0 g \<or> idle_task g 0 = Some nx \<and> contenders 0 0 g = {}"
    "resched s 0 = False" "evolves g s" "set (tasks s) \<union> set (zombie_head g) = set (tasks g) \<union> set (zombie_head g)"
    "wheel_nodes (sleep_wheel s) \<subseteq> wheel_nodes (sleep_wheel g) \<union> set (zombie_head g)"
    "switched 0 0 nx g s"
    by (rule schedule_result [OF h])
  have nx: "nx = 2" using s(8) c0 by simp
  have per: "person (tk s x) = person (tk g x)" "status (tk g x) = WAITING \<longrightarrow> status (tk s x) = WAITING" for x
    using s(10) by (auto simp: evolves_def)
  have "pid (tk s 2) = 4" "parent_pid (tk s 2) = 3" "pid (tk s 1) = 3" "waiting_pid (tk s 1) = 4" "status (tk s 1) = WAITING"
    using per [of 1] per [of 2] kg(3) ids by (simp_all add: person_def)
  moreover have "set (tasks s) = {0, 1, 2}" using s(11) gf by simp
  ultimately have w: "waits_for s 1 2" "pid (tk s 2) = 4" by (simp_all add: waits_for_def)
  define u where "u = s\<lparr>saved_sp := (\<lambda>_. In_schedule)\<rparr>"
  have "prev s 1 = None" using s(13) gf(7) nx by (simp add: switched_def)
  moreover have "sched_inv u" unfolding u_def by (rule sched_ok_saved_sp [OF s(2)])
  moreover have "waits_for u 1 2" using w(1) by (auto simp: waits_for_def u_def)
  ultimately show thesis using that [of u] s(3-5) nx w(2) gf booted_props by (simp add: u_def)
qed

theorem exit_wait_roundtrip_witness:
  "\<exists>s s' s''. waits_for s 1 2 \<and> jlos_process_exit 0 2 7 s = Some s' \<and> jlos_task_reap_child 0 4 1 s' = Some (4, Some 7, s'')
     \<and> sched_inv s'' \<and> jlos_task_manager_find_pid 4 s'' = Some None"
proof (rule family)
  fix s assume s: "sched_inv s" "0 < num_cpus s" "cur s 0 = Some 2" "idle_task s 0 \<noteq> Some 2" "waits_for s 1 2"
    "saved_sp s = (\<lambda>_. In_schedule)" "num_cpus s = 2" "prev s 1 = None" "pid (tk s 2) = 4"
  have "\<forall>d<num_cpus s. d = 0 \<or> prev s d \<noteq> Some 2" using s(7,8) by (auto simp: less_2_cases_iff)
  then show ?thesis using exit_wait_roundtrip [OF s(1-5), of 7] s(5,6,9) by auto
qed

section \<open>Signals\<close>

text \<open>What a pending signal does: it is ignored, handled, or fatal.\<close>

definition deliverable :: "(nat \<Rightarrow> u64) \<Rightarrow> nat \<Rightarrow> bool" where
  "deliverable h sig \<longleftrightarrow> sig \<noteq> 0 \<and> h sig \<noteq> 1 \<and> (h sig \<noteq> 0 \<or> sig \<in> {9, 11, 15})"

definition delivered :: "(nat \<Rightarrow> u64) \<Rightarrow> u32 \<Rightarrow> delivery \<Rightarrow> bool" where
  "delivered h pend d \<longleftrightarrow>
     (case d of
        No_signal \<Rightarrow> \<forall>k. bit pend k \<longrightarrow> \<not> deliverable h k
      | Handler sig a \<Rightarrow> bit pend sig \<and> deliverable h sig \<and> a = h sig \<and> a \<noteq> 0 \<and> (\<forall>k < sig. bit pend k \<longrightarrow> \<not> deliverable h k)
      | Fatal sig \<Rightarrow> bit pend sig \<and> deliverable h sig \<and> h sig = 0 \<and> (\<forall>k < sig. bit pend k \<longrightarrow> \<not> deliverable h k))"

lemma bit_clear_lowest: "pend \<noteq> 0 \<Longrightarrow> k = builtin_ctz pend \<Longrightarrow> bit (pend AND NOT (push_bit k 1)) i \<longleftrightarrow> bit pend i \<and> i \<noteq> k"
  for pend :: u32
  using bit_imp_le_length [of pend i] by (auto simp: bit_and_iff bit_not_iff bit_exp_iff)

text \<open>The bits the loop clears: those up to the signal it delivers.\<close>

definition last_of :: "delivery \<Rightarrow> nat" where
  "last_of d = (case d of No_signal \<Rightarrow> 32 | Handler sig _ \<Rightarrow> sig | Fatal sig \<Rightarrow> sig)"

lemma deliver_loop_result:
  assumes "deliver_loop pend t s = (d, s')"
  shows "delivered (signal_handlers (tk s t)) pend d
     \<and> (\<forall>k. bit (signal_pending (tk s' t)) k \<longleftrightarrow> bit (signal_pending (tk s t)) k \<and> \<not> (bit pend k \<and> k \<le> last_of d))
     \<and> (\<forall>x. x \<noteq> t \<longrightarrow> tk s' x = tk s x)"
  using assms
proof (induction "unat pend" arbitrary: pend s rule: less_induct)
  case less
  show ?case
  proof (cases "pend = 0")
    case True
    then show ?thesis using less.prems by (subst (asm) deliver_loop.simps) (auto simp: delivered_def)
  next
    case False
    define k where "k = builtin_ctz pend"
    define s1 where "s1 = set_task t (\<lambda>j. j\<lparr>signal_pending := signal_pending j AND NOT (push_bit k 1)\<rparr>) s"
    define rest where "rest = pend AND NOT (push_bit k 1)"
    have kb: "bit pend k" "\<And>j. j < k \<Longrightarrow> \<not> bit pend j" "k < 32"
      using builtin_ctz_props [OF False] by (auto simp: k_def dest: bit_imp_le_length)
    have rb: "bit rest j \<longleftrightarrow> bit pend j \<and> j \<noteq> k" for j unfolding rest_def by (rule bit_clear_lowest [OF False k_def])
    have pb: "bit (signal_pending (tk s1 t)) j \<longleftrightarrow> bit (signal_pending (tk s t)) j \<and> j \<noteq> k" for j
      using bit_imp_le_length [of "signal_pending (tk s t)" j] by (auto simp: s1_def bit_and_iff bit_not_iff bit_exp_iff)
    have h1: "signal_handlers (tk s1 t) = signal_handlers (tk s t)" by (simp add: s1_def)
    let ?h = "signal_handlers (tk s t)"
    have unf: "deliver_loop pend t s = (if k = 0 \<or> ?h k = 1 then deliver_loop rest t s1
        else if ?h k \<noteq> 0 then (Handler k (?h k), s1) else if k = 9 \<or> k = 11 \<or> k = 15 then (Fatal k, s1) else deliver_loop rest t s1)"
      using False by (subst deliver_loop.simps) (simp add: Let_def k_def [symmetric] rest_def s1_def)
    have above: "bit rest j \<Longrightarrow> k < j" for j using rb kb(2) by (metis linorder_neqE_nat)
    show ?thesis
    proof (cases "deliverable ?h k")
      case True
      then have "d = (if ?h k \<noteq> 0 then Handler k (?h k) else Fatal k)" "s' = s1"
        using less.prems unf by (auto simp: deliverable_def split: if_splits)
      then show ?thesis using True kb pb by (auto simp: delivered_def last_of_def s1_def deliverable_def dest: less_le_trans)
    next
      case nd: False
      then have eq: "deliver_loop pend t s = deliver_loop rest t s1" using unf by (auto simp: deliverable_def)
      have "deliver_loop rest t s1 = (d, s')" using less.prems eq by simp
      then have ih: "delivered ?h rest d
         \<and> (\<forall>j. bit (signal_pending (tk s' t)) j \<longleftrightarrow> bit (signal_pending (tk s1 t)) j \<and> \<not> (bit rest j \<and> j \<le> last_of d))
         \<and> (\<forall>x. x \<noteq> t \<longrightarrow> tk s' x = tk s1 x)"
        using less.hyps [of rest s1] clear_lowest_less [OF False k_def] h1 by (simp add: rest_def word_less_nat_alt)
      have skip: "(bit rest j \<longrightarrow> \<not> deliverable ?h j) = (bit pend j \<longrightarrow> \<not> deliverable ?h j)" for j
        using rb nd by auto
      have "delivered ?h pend d" using ih rb unfolding delivered_def skip by (auto split: delivery.splits)
      moreover have "k \<le> last_of d"
        using ih above kb(3) by (auto simp: delivered_def last_of_def split: delivery.splits dest: less_imp_le)
      then have "bit (signal_pending (tk s' t)) j \<longleftrightarrow> bit (signal_pending (tk s t)) j \<and> \<not> (bit pend j \<and> j \<le> last_of d)" for j
        using ih pb rb kb(1) by auto
      moreover have "x \<noteq> t \<Longrightarrow> tk s' x = tk s x" for x using ih by (simp add: s1_def)
      ultimately show ?thesis by blast
    qed
  qed
qed

text \<open>
  C35: on the way back to user mode the lowest pending signal that is not ignored is
  delivered: to its handler if it has one, fatally if it is kill, segmentation fault or
  terminate without a handler. The signals up to it are consumed, later ones stay pending,
  and with none to deliver the pending set ends empty.
\<close>

theorem signal_deliver_lowest:
  "delivered (signal_handlers (tk s t)) (signal_pending (tk s t)) (fst (jlos_signal_check_deliver t s))
   \<and> (\<forall>k. bit (signal_pending (tk (snd (jlos_signal_check_deliver t s)) t)) k
        \<longleftrightarrow> bit (signal_pending (tk s t)) k \<and> last_of (fst (jlos_signal_check_deliver t s)) < k)"
proof -
  obtain d s' where e: "deliver_loop (signal_pending (tk s t)) t s = (d, s')" by fastforce
  show ?thesis using deliver_loop_result [OF e] e by (auto simp: jlos_signal_check_deliver_def not_le)
qed

section \<open>Descriptors\<close>

lemma fd_scan_result:
  assumes "i + k \<le> length fs"
  shows "(fd_scan i k fs = Some (-1, fs) \<and> (\<forall>j. i \<le> j \<and> j < i + k \<longrightarrow> fd_type (fs ! j) \<noteq> FD_UNUSED))
     \<or> (\<exists>j. i \<le> j \<and> j < i + k \<and> fd_scan i k fs = Some (int j, fs[j := (fs ! j)\<lparr>fd_type := FD_PIPE\<rparr>])
          \<and> fd_type (fs ! j) = FD_UNUSED \<and> (\<forall>m. i \<le> m \<and> m < j \<longrightarrow> fd_type (fs ! m) \<noteq> FD_UNUSED))"
  using assms
proof (induction k arbitrary: i)
  case (Suc k)
  show ?case
  proof (cases "fd_type (fs ! i) = FD_UNUSED")
    case True
    then show ?thesis using Suc.prems by (intro disjI2 exI [of _ i]) auto
  next
    case False
    have step: "fd_scan i (Suc k) fs = fd_scan (Suc i) k fs" using False Suc.prems by simp
    have first: "fd_type (fs ! m) \<noteq> FD_UNUSED" if "i \<le> m" "Suc i \<le> m \<Longrightarrow> fd_type (fs ! m) \<noteq> FD_UNUSED" for m
      using that False by (cases "m = i") auto
    have "Suc i + k \<le> length fs" using Suc.prems by simp
    from Suc.IH [OF this] show ?thesis
    proof (elim disjE exE conjE, goal_cases)
      case 1
      then have "\<forall>j. i \<le> j \<and> j < i + Suc k \<longrightarrow> fd_type (fs ! j) \<noteq> FD_UNUSED" using first by auto
      then show ?thesis using step 1(1) by (simp del: fd_scan.simps)
    next
      case (2 j)
      then have "\<forall>m. i \<le> m \<and> m < j \<longrightarrow> fd_type (fs ! m) \<noteq> FD_UNUSED" using first by auto
      then show ?thesis using step 2 by (intro disjI2 exI [of _ j]) (simp del: fd_scan.simps)
    qed
  qed
qed auto

text \<open>
  C36: allocating a descriptor returns the lowest unused one from 3 on, or -1 when all of these
  are in use; it is then in use and found under its number, no other entry changes, and
  freeing it makes it unused again.
\<close>

theorem fd_malloc_roundtrip:
  assumes "length (fds (tk s t)) = 16"
  shows "(\<exists>s'. jlos_task_fd_malloc t s = Some (-1, s') \<and> fds (tk s' t) = fds (tk s t)
        \<and> (\<forall>j. 3 \<le> j \<and> j < 16 \<longrightarrow> jlos_task_fd_get t (int j) s = Some j))
     \<or> (\<exists>i s'. jlos_task_fd_malloc t s = Some (int i, s') \<and> 3 \<le> i \<and> i < 16 \<and> jlos_task_fd_get t (int i) s = None
        \<and> (\<forall>j. 3 \<le> j \<and> j < i \<longrightarrow> jlos_task_fd_get t (int j) s = Some j)
        \<and> jlos_task_fd_get t (int i) s' = Some i \<and> (\<forall>j. j \<noteq> i \<longrightarrow> fds (tk s' t) ! j = fds (tk s t) ! j)
        \<and> jlos_task_fd_get t (int i) (jlos_task_fd_free t (int i) s') = None)"
proof -
  let ?fs = "fds (tk s t)"
  have "3 + 13 \<le> length ?fs" using assms by simp
  from fd_scan_result [OF this] show ?thesis
  proof (elim disjE exE conjE, goal_cases)
    case 1
    then show ?thesis
      by (intro disjI1 exI [of _ "set_task t (\<lambda>k. k\<lparr>fds := ?fs\<rparr>) s"]) (auto simp: jlos_task_fd_malloc_def jlos_task_fd_get_def)
  next
    case (2 i)
    then show ?thesis using assms
      by (intro disjI2 exI [of _ i] exI [of _ "set_task t (\<lambda>k. k\<lparr>fds := ?fs[i := (?fs ! i)\<lparr>fd_type := FD_PIPE\<rparr>]\<rparr>) s"])
        (auto simp: jlos_task_fd_malloc_def jlos_task_fd_get_def jlos_task_fd_free_def)
  qed
qed

theorem fd_malloc_roundtrip_witness:
  "\<exists>s'. jlos_task_fd_malloc 0 power_on = Some (3, s') \<and> jlos_task_fd_get 0 3 s' = Some 3
     \<and> jlos_task_fd_get 0 3 (jlos_task_fd_free 0 3 s') = None"
proof -
  have fds: "fds (tk power_on 0) = replicate 16 \<lparr>fd_type = FD_UNUSED, fd_obj = None, fd_flags = 0\<rparr>"
    by (simp add: power_on_def blank_task_def)
  then have "jlos_task_fd_get 0 (int j) power_on = None" if "j < 16" for j
    using that by (simp add: jlos_task_fd_get_def)
  then have no: "\<not> (\<forall>j. 3 \<le> j \<and> j < 16 \<longrightarrow> jlos_task_fd_get 0 (int j) power_on = Some j)"
    "\<And>i. i < 16 \<Longrightarrow> (\<forall>j. 3 \<le> j \<and> j < i \<longrightarrow> jlos_task_fd_get 0 (int j) power_on = Some j) \<Longrightarrow> i \<le> 3"
    by (force, metis less_trans not_le option.distinct(1) order_refl)
  obtain i s' where r: "jlos_task_fd_malloc 0 power_on = Some (int i, s')" "3 \<le> i" "i < 16"
    "\<forall>j. 3 \<le> j \<and> j < i \<longrightarrow> jlos_task_fd_get 0 (int j) power_on = Some j"
    "jlos_task_fd_get 0 (int i) s' = Some i" "jlos_task_fd_get 0 (int i) (jlos_task_fd_free 0 (int i) s') = None"
    using fd_malloc_roundtrip [of power_on 0] no(1) fds by auto
  have "i = 3" using no(2) [OF r(3,4)] r(2) by simp
  then show ?thesis using r by auto
qed

section \<open>The task name\<close>

lemma name_loop_full:
  assumes "\<forall>j<n. m (src + (i + j)) \<noteq> 0" and "\<forall>j k. j < i + n \<longrightarrow> k < i + n \<longrightarrow> dst + j \<noteq> src + k"
  shows "fst (name_loop dst src i n m) = i + n"
  using assms
proof (induction n arbitrary: i m)
  case (Suc n)
  let ?m = "m(dst + i := m (src + i))"
  have z: "m (src + i) \<noteq> 0" using Suc.prems(1) by (metis add.right_neutral zero_less_Suc)
  have "?m (src + (Suc i + j)) \<noteq> 0" if j: "j < n" for j
  proof -
    have "m (src + (i + Suc j)) \<noteq> 0" using Suc.prems(1) j by blast
    moreover have "dst + i \<noteq> src + (i + Suc j)"
      using Suc.prems(2) [THEN spec [of _ i], THEN spec [of _ "i + Suc j"]] j by linarith
    ultimately show ?thesis by simp
  qed
  then have "fst (name_loop dst src (Suc i) n ?m) = Suc i + n" using Suc.prems(2) by (intro Suc.IH) auto
  then show ?case using z by simp
qed simp

text \<open>
  A task name of 32 characters or more is copied in full and its terminator is written
  to the 33rd byte, one past the name array.
\<close>

lemma task_name_overflow:
  assumes "\<forall>j<32. m (src + j) \<noteq> 0" and "dst + 32 \<le> src \<or> src + 32 \<le> dst"
  shows "task_name_init dst src m (dst + 32) = 0"
  using name_loop_full [of 32 m src 0 dst] assms by (auto simp: task_name_init_def split: prod.splits)

end
