(* ===== verification/Sync.thy ===== *)
theory Sync
  imports Sched_Life
begin

text \<open>
  Semaphores, mutexes and condition variables (kernel/sync.c) on top of the scheduler. Each
  has a wait queue, a list of the scheduler state named by a number. What is done under the
  spin lock of the object is one step; a task that has to wait then calls the scheduler.
\<close>

section \<open>Model\<close>

definition wait_enqueue :: "nat \<Rightarrow> nat \<Rightarrow> sched \<Rightarrow> sched" where
  "wait_enqueue q t s = s\<lparr>wq := (wq s)(q := wq s q @ [t])\<rparr>"

definition wait_dequeue :: "nat \<Rightarrow> sched \<Rightarrow> nat option \<times> sched" where
  "wait_dequeue q s = (case wq s q of [] \<Rightarrow> (None, s) | t # rest \<Rightarrow> (Some t, s\<lparr>wq := (wq s)(q := rest)\<rparr>))"

subsection \<open>Semaphores\<close>

record jlos_semaphore =
  resource_count :: u32
  sem_queue :: nat

definition jlos_semaphore_init :: "nat \<Rightarrow> u32 \<Rightarrow> sched \<Rightarrow> jlos_semaphore \<times> sched" where
  "jlos_semaphore_init q init_count s = (\<lparr>resource_count = init_count, sem_queue = q\<rparr>, s\<lparr>wq := (wq s)(q := [])\<rparr>)"

text \<open>The part under the lock; the flag tells whether the task has to give up its CPU.\<close>

definition semaphore_down :: "nat \<Rightarrow> jlos_semaphore \<Rightarrow> sched \<Rightarrow> bool \<times> jlos_semaphore \<times> sched" where
  "semaphore_down t sem s =
     (let n = resource_count sem - 1; sem = sem\<lparr>resource_count := n\<rparr>
      in if 0 \<le> sint n then (False, sem, s)
         else (True, sem, jlos_task_set_blocked t (wait_enqueue (sem_queue sem) t s)))"

definition jlos_semaphore_wait :: "nat \<Rightarrow> jlos_semaphore \<Rightarrow> sched \<Rightarrow> (jlos_semaphore \<times> sched) option" where
  "jlos_semaphore_wait c sem s =
     (case cur s c of
        None \<Rightarrow> Some (sem, s)
      | Some t \<Rightarrow>
          (case semaphore_down t sem s of (blk, sem, s) \<Rightarrow>
             if blk then map_option (Pair sem) (jlos_task_manager_schedule c s) else Some (sem, s)))"

definition wake_if_blocked :: "nat option \<Rightarrow> sched \<Rightarrow> sched" where
  "wake_if_blocked w s =
     (case w of None \<Rightarrow> s | Some t \<Rightarrow> if status (tk s t) = BLOCKED then jlos_task_wakeup t s else s)"

definition jlos_semaphore_post :: "jlos_semaphore \<Rightarrow> sched \<Rightarrow> jlos_semaphore \<times> sched" where
  "jlos_semaphore_post sem s =
     (let n = resource_count sem + 1; sem = sem\<lparr>resource_count := n\<rparr>
      in if 0 < sint n then (sem, s)
         else (sem, case wait_dequeue (sem_queue sem) s of (w, s) \<Rightarrow> wake_if_blocked w s))"

subsection \<open>Mutexes\<close>

record jlos_mutex =
  locked :: u32
  owner :: "nat option"
  recursion :: u32
  mutex_queue :: nat

definition jlos_mutex_init :: "nat \<Rightarrow> sched \<Rightarrow> jlos_mutex \<times> sched" where
  "jlos_mutex_init q s = (\<lparr>locked = 0, owner = None, recursion = 0, mutex_queue = q\<rparr>, s\<lparr>wq := (wq s)(q := [])\<rparr>)"

definition mutex_try :: "nat \<Rightarrow> jlos_mutex \<Rightarrow> sched \<Rightarrow> bool \<times> jlos_mutex \<times> sched" where
  "mutex_try t m s =
     (if owner m = Some t then (False, m\<lparr>recursion := recursion m + 1\<rparr>, s)
      else if locked m = 0 then (False, m\<lparr>locked := 1, owner := Some t, recursion := 1\<rparr>, s)
      else (True, m, jlos_task_set_blocked t (wait_enqueue (mutex_queue m) t s)))"

definition jlos_mutex_lock :: "nat \<Rightarrow> jlos_mutex \<Rightarrow> sched \<Rightarrow> (jlos_mutex \<times> sched) option" where
  "jlos_mutex_lock c m s =
     (case cur s c of
        None \<Rightarrow> Some (m, s)
      | Some t \<Rightarrow>
          (case mutex_try t m s of (blk, m, s) \<Rightarrow>
             if blk then map_option (Pair m) (jlos_task_manager_schedule c s) else Some (m, s)))"

definition jlos_mutex_unlock :: "nat \<Rightarrow> jlos_mutex \<Rightarrow> sched \<Rightarrow> jlos_mutex \<times> sched" where
  "jlos_mutex_unlock c m s =
     (if cur s c = None \<or> owner m \<noteq> cur s c then (m, s)
      else let n = recursion m - 1
           in if 0 < n then (m\<lparr>recursion := n\<rparr>, s)
              else let m = m\<lparr>recursion := n, owner := None, locked := 0\<rparr>
                   in case wait_dequeue (mutex_queue m) s of
                        (None, s) \<Rightarrow> (m, s)
                      | (Some t, s) \<Rightarrow>
                          if status (tk s t) = BLOCKED
                          then (m\<lparr>locked := 1, owner := Some t, recursion := 1\<rparr>, jlos_task_wakeup t s)
                          else (m, s))"

subsection \<open>Condition variables\<close>

text \<open>
  A condition variable is its wait queue. The wait runs up to the point where the task gives
  up its CPU; when it runs again it takes the mutex back with \<open>jlos_mutex_lock\<close>.
\<close>

definition jlos_cond_init :: "nat \<Rightarrow> sched \<Rightarrow> sched" where
  "jlos_cond_init q s = s\<lparr>wq := (wq s)(q := [])\<rparr>"

definition jlos_cond_wait :: "nat \<Rightarrow> nat \<Rightarrow> jlos_mutex \<Rightarrow> sched \<Rightarrow> (jlos_mutex \<times> sched) option" where
  "jlos_cond_wait c q m s =
     (case cur s c of
        None \<Rightarrow> Some (m, s)
      | Some t \<Rightarrow>
          (let s = jlos_task_set_blocked t (wait_enqueue q t s); (m, s) = jlos_mutex_unlock c m s
           in map_option (Pair m) (jlos_task_manager_schedule c s)))"

definition jlos_cond_signal :: "nat \<Rightarrow> sched \<Rightarrow> sched" where
  "jlos_cond_signal q s = (case wait_dequeue q s of (w, s) \<Rightarrow> wake_if_blocked w s)"

lemma wq_wake [simp]: "wq (wake_if_blocked w s) = wq s"
  by (auto simp: wake_if_blocked_def jlos_task_wakeup_def Let_def jlos_sched_set_need_resched_on_def
      jlos_task_set_ready_def split: option.splits)

function jlos_cond_broadcast :: "nat \<Rightarrow> sched \<Rightarrow> sched" where
  "jlos_cond_broadcast q s =
     (case wait_dequeue q s of (None, s') \<Rightarrow> s' | (Some t, s') \<Rightarrow> jlos_cond_broadcast q (wake_if_blocked (Some t) s'))"
  by pat_completeness auto

termination
  by (relation "measure (\<lambda>(q, s). length (wq s q))") (auto simp: wait_dequeue_def split: list.splits)

declare jlos_cond_broadcast.simps [simp del]

section \<open>The wait queues\<close>

interpretation waitq: fifo_queue "wait_enqueue q" "wait_dequeue q" "\<lambda>s xs. wq s q = xs" "\<lambda>n xs. True" for q
  by unfold_locales (auto simp: wait_enqueue_def wait_dequeue_def)

text \<open>Whoever is on a wait queue is parked there, once.\<close>

definition waiters_ok :: "nat \<Rightarrow> sched \<Rightarrow> bool" where
  "waiters_ok q s \<longleftrightarrow> distinct (wq s q) \<and> (\<forall>x\<in>set (wq s q). x \<in> set (tasks s) \<and> parked s x)"

lemma sched_ok_wq [simp]: "sched_ok (s\<lparr>wq := f\<rparr>) B \<longleftrightarrow> sched_ok s B"
  unfolding sched_ok_def table_ok_def places_ok_def cpus_ok_def wheel_ok_def rq_ok_def queued_def pid_of_def by simp

lemma queued_wq [simp]: "queued (s\<lparr>wq := f\<rparr>) = queued s"
  by (simp add: queued_def)

text \<open>What a call of the scheduler means for the wait queues.\<close>

lemma schedule_waiters:
  assumes ok: "sched_ok s {c}" and ev: "evolves s s'"
    and ts: "set (tasks s') \<union> set (zombie_head s) = set (tasks s) \<union> set (zombie_head s)" and w: "waiters_ok q s"
  shows "wq s' q = wq s q" and "waiters_ok q s'"
proof -
  have "\<forall>x\<in>set (wq s q). parked s x" using w by (simp add: waiters_ok_def)
  then show q: "wq s' q = wq s q" using ev by (simp add: evolves_def)
  have "x \<in> set (tasks s') \<and> parked s' x" if x: "x \<in> set (wq s q)" for x
  proof -
    have p: "x \<in> set (tasks s)" "parked s x" using w x by (auto simp: waiters_ok_def)
    then have "x \<notin> set (zombie_head s)" using sched_okD(3) [OF ok] by (auto simp: places_ok_def parked_def)
    then show ?thesis using ts p ev by (auto simp: evolves_def)
  qed
  then show "waiters_ok q s'" using w q by (simp add: waiters_ok_def)
qed

text \<open>A running task that parks itself on a queue.\<close>

definition can_wait :: "nat \<Rightarrow> nat \<Rightarrow> sched \<Rightarrow> bool" where
  "can_wait c t s \<longleftrightarrow> c < num_cpus s \<and> cur s c = Some t \<and> idle_task s c \<noteq> Some t \<and> t \<notin> wheel_nodes (sleep_wheel s)"

lemma park_general:
  assumes ok: "sched_inv s" and t: "t \<in> set (tasks s)" "\<not> idle_of s t" "status (tk s t) \<in> {READY, RUNNING}"
      "t \<notin> wheel_nodes (sleep_wheel s)"
    and cur: "\<forall>c<num_cpus s. cur s c = Some t \<longrightarrow> c \<in> C"
    and w: "waiters_ok q s" and s'_def: "s' = jlos_task_set_blocked t (wait_enqueue q t s)"
  shows "sched_ok s' C" and "wq s' q = wq s q @ [t]" and "waiters_ok q s'" and "parked s' t" and "queued s' = queued s - {t}"
    and "cur s' = cur s" and "num_cpus s' = num_cpus s" and "p \<noteq> q \<Longrightarrow> wq s' p = wq s p"
    and "p \<noteq> q \<Longrightarrow> waiters_ok p s \<Longrightarrow> waiters_ok p s'" and "tasks s' = tasks s" and "idle_task s' = idle_task s"
    and "sleep_wheel s' = sleep_wheel s" and "x \<noteq> t \<Longrightarrow> tk s' x = tk s x" and "zombie_head s' = zombie_head s"
proof -
  define v where "v = wait_enqueue q t s"
  have v: "sched_inv v" using ok by (simp add: v_def wait_enqueue_def)
  have vf: "tk v = tk s" "tasks v = tasks s" "num_cpus v = num_cpus s" "cur v = cur s" "idle_task v = idle_task s"
    "sleep_wheel v = sleep_wheel s" "zombie_head v = zombie_head s" "queued v = queued s"
    by (simp_all add: v_def wait_enqueue_def)
  have z: "t \<notin> set (zombie_head v)" using sched_okD(3) [OF v] t(3) vf by (auto simp: places_ok_def)
  have ni: "\<not> idle_of v t" using t(2) by (simp add: idle_of_def vf)
  let ?u = "\<lambda>k. k\<lparr>status := BLOCKED\<rparr>"
  have eq: "s' = rq_remove_specific t (set_task t ?u v)" by (simp add: s'_def v_def jlos_task_set_blocked_def)
  have id: "keeps_identity (tk v t) (?u (tk v t))" "priority (?u (tk v t)) = priority (tk v t)" by (simp_all add: keeps_identity_def)
  have tv: "t \<in> set (tasks v)" "\<forall>c<num_cpus v. cur v c = Some t \<longrightarrow> c \<in> C" using t(1) cur vf by auto
  note k = blocked_off_keeps [OF v tv(1) ni z id tv(2) _ eq]
  show "sched_ok s' C" using k(1) by simp
  show "queued s' = queued s - {t}" using k(2) vf(8) by simp
  have f: "wq s' = wq v" "cur s' = cur v" "num_cpus s' = num_cpus v" "tasks s' = tasks v" "idle_task s' = idle_task v"
    "sleep_wheel s' = sleep_wheel v" "zombie_head s' = zombie_head v"
    by (simp_all add: eq rq_remove_specific_def rq_unlink_def Let_def)
  show "wq s' q = wq s q @ [t]" "p \<noteq> q \<Longrightarrow> wq s' p = wq s p" by (simp_all add: f v_def wait_enqueue_def)
  show "cur s' = cur s" "num_cpus s' = num_cpus s" "tasks s' = tasks s" "idle_task s' = idle_task s" "sleep_wheel s' = sleep_wheel s"
    "zombie_head s' = zombie_head s"
    by (simp_all add: f vf)
  have tk': "tk s' = (tk s)(t := ?u (tk s t))" using k(3) by (simp add: vf set_task_def)
  then show "x \<noteq> t \<Longrightarrow> tk s' x = tk s x" by simp
  show pt: "parked s' t" using t(4) by (simp add: parked_def tk' f vf)
  have park: "parked s' x" if "parked s x" for x using that t(3) by (auto simp: parked_def tk' f vf)
  have "t \<notin> set (wq s q)" using w t(3) by (auto simp: waiters_ok_def parked_def)
  then show "waiters_ok q s'"
    using w pt park t(1) by (auto simp: waiters_ok_def f v_def wait_enqueue_def)
  show "p \<noteq> q \<Longrightarrow> waiters_ok p s \<Longrightarrow> waiters_ok p s'"
    using park by (auto simp: waiters_ok_def f v_def wait_enqueue_def)
qed

lemma can_waitD:
  assumes "sched_inv s" and "can_wait c t s"
  shows "t \<in> set (tasks s)" and "\<not> idle_of s t" and "status (tk s t) \<in> {READY, RUNNING}" and "t \<notin> wheel_nodes (sleep_wheel s)"
    and "\<forall>d<num_cpus s. cur s d = Some t \<longrightarrow> d \<in> {c}"
proof -
  note tc = assms(2) [unfolded can_wait_def]
  show "t \<in> set (tasks s)" "status (tk s t) \<in> {READY, RUNNING}" "t \<notin> wheel_nodes (sleep_wheel s)"
    using curD [OF assms(1), of c t] tc by auto
  show "\<not> idle_of s t" using cur_not_other_idle [OF assms(1), of c t] tc by simp
  show "\<forall>d<num_cpus s. cur s d = Some t \<longrightarrow> d \<in> {c}" using cur_only_here [OF assms(1), of c t] tc by simp
qed

lemma park_and_schedule:
  assumes ok: "sched_inv s" and t: "can_wait c t s" and w: "waiters_ok q s"
  obtains s' where "jlos_task_manager_schedule c (jlos_task_set_blocked t (wait_enqueue q t s)) = Some s'" "sched_inv s'"
    "wq s' q = wq s q @ [t]" "waiters_ok q s'" "parked s' t"
    "\<forall>p. p \<noteq> q \<longrightarrow> waiters_ok p s \<longrightarrow> wq s' p = wq s p \<and> waiters_ok p s'"
proof -
  define v where "v = jlos_task_set_blocked t (wait_enqueue q t s)"
  note k = park_general [OF ok can_waitD [OF ok t] w v_def]
  have cv: "c < num_cpus v" "cur v c = Some t" using t k(6,7) by (auto simp: can_wait_def)
  obtain nx s' where r: "jlos_task_manager_schedule c v = Some s'" "sched_inv s'" "cur s' = (cur v)(c := Some nx)"
    "num_cpus s' = num_cpus v" "idle_task s' = idle_task v" "remain_slice (tk s' nx) = default_slice (tk s' nx)"
    "queued s' = contenders c t v - {nx}"
    "nx \<in> contenders c t v \<or> idle_task v c = Some nx \<and> contenders c t v = {}" "resched s' c = False" "evolves v s'"
    "set (tasks s') \<union> set (zombie_head v) = set (tasks v) \<union> set (zombie_head v)"
    "wheel_nodes (sleep_wheel s') \<subseteq> wheel_nodes (sleep_wheel v) \<union> set (zombie_head v)"
    "switched c t nx v s'"
    by (rule schedule_result [OF k(1) cv])
  note sw = schedule_waiters [OF k(1) r(10,11)]
  have "\<forall>p. p \<noteq> q \<longrightarrow> waiters_ok p s \<longrightarrow> wq s' p = wq s p \<and> waiters_ok p s'" using sw k(8,9) by metis
  moreover have "parked s' t" using r(10) k(4) by (simp add: evolves_def)
  ultimately show thesis using that [of s'] r(1,2) sw [OF k(3)] k(2) by (simp add: v_def)
qed

text \<open>Waking the first waiter of a queue.\<close>

lemma wake_first:
  assumes ok: "sched_ok s B" and w: "waiters_ok q s" and q: "wq s q = t # rest"
    and v_def: "v = s\<lparr>wq := (wq s)(q := rest)\<rparr>" and s'_def: "s' = jlos_task_wakeup t v"
  shows "wait_dequeue q s = (Some t, v)" and "status (tk v t) = BLOCKED" and "sched_ok s' B" and "queued s' = insert t (queued s)"
    and "wq s' q = rest" and "waiters_ok q s'" and "cur s' = cur s" and "num_cpus s' = num_cpus s" and "tasks s' = tasks s"
    and "idle_task s' = idle_task s" and "x \<noteq> t \<Longrightarrow> tk s' x = tk s x" and "p \<noteq> q \<Longrightarrow> wq s' p = wq s p"
    and "wheel_nodes (sleep_wheel s') \<subseteq> wheel_nodes (sleep_wheel s)" and "x \<noteq> t \<Longrightarrow> parked s x \<Longrightarrow> parked s' x"
proof -
  have t: "t \<in> set (tasks v)" "status (tk v t) = BLOCKED" "sched_ok v B"
    using w q ok by (auto simp: waiters_ok_def parked_def v_def)
  then show "status (tk v t) = BLOCKED" by simp
  show "wait_dequeue q s = (Some t, v)" by (simp add: wait_dequeue_def q v_def)
  note k = wakeup_result [OF t(3,1) s'_def]
  show "sched_ok s' B" by (rule k(1))
  show "queued s' = insert t (queued s)" using k(2) t(2) by (simp add: v_def)
  have wn: "wheel_nodes (sleep_wheel s') \<subseteq> wheel_nodes (sleep_wheel v)"
    using sched_okD(5) [OF t(3)] nodes_del [of "sleep_wheel v" t]
    by (auto simp: s'_def jlos_task_wakeup_def Let_def jlos_sched_set_need_resched_on_def jlos_task_set_ready_def wheel_ok_def)
  then show "wheel_nodes (sleep_wheel s') \<subseteq> wheel_nodes (sleep_wheel s)" by (simp add: v_def)
  show x: "x \<noteq> t \<Longrightarrow> tk s' x = tk s x" for x using k(7) by (simp add: v_def)
  show par: "x \<noteq> t \<Longrightarrow> parked s x \<Longrightarrow> parked s' x" for x using x [of x] wn by (auto simp: parked_def v_def)
  show wq: "wq s' q = rest" "p \<noteq> q \<Longrightarrow> wq s' p = wq s p" and "cur s' = cur s" "num_cpus s' = num_cpus s"
    and ts: "tasks s' = tasks s" and "idle_task s' = idle_task s"
    using k(8-12) by (simp_all add: v_def)
  have "x \<in> set (tasks s) \<and> x \<noteq> t \<and> parked s x" if "x \<in> set rest" for x
    using w q that by (auto simp: waiters_ok_def)
  then show "waiters_ok q s'" using w q par unfolding waiters_ok_def wq(1) ts by auto
qed

section \<open>A running task\<close>

text \<open>The machine of the earlier examples after the first call of the scheduler: task 1 runs on CPU 0.\<close>

lemma one_running:
  obtains s where "sched_inv s" "can_wait 0 1 s" "num_cpus s = 2" "queued s = {}" "set (tasks s) = {0, 1}"
    "wheel_nodes (sleep_wheel s) = {}" "pid (tk s 1) = 3" "cur s = (\<lambda>_. None)(0 := Some 1)" "idle_task s = (\<lambda>_. None)(0 := Some 0)"
proof -
  have b: "sched_ok booted {0}" "0 < num_cpus booted" "cur booted 0 = Some 0"
    using sched_ok_mono [OF booted_props(1)] booted_props(4,5) by auto
  have c0: "contenders 0 0 booted = {1}" using booted_props by (simp add: contenders_def no_sleepers preempted_def)
  obtain nx s where s: "jlos_task_manager_schedule 0 booted = Some s" "sched_inv s" "cur s = (cur booted)(0 := Some nx)"
    "num_cpus s = num_cpus booted" "idle_task s = idle_task booted" "remain_slice (tk s nx) = default_slice (tk s nx)"
    "queued s = contenders 0 0 booted - {nx}"
    "nx \<in> contenders 0 0 booted \<or> idle_task booted 0 = Some nx \<and> contenders 0 0 booted = {}" "resched s 0 = False"
    "evolves booted s" "set (tasks s) \<union> set (zombie_head booted) = set (tasks booted) \<union> set (zombie_head booted)"
    "wheel_nodes (sleep_wheel s) \<subseteq> wheel_nodes (sleep_wheel booted) \<union> set (zombie_head booted)"
    "switched 0 0 nx booted s"
    by (rule schedule_result [OF b])
  have nx: "nx = 1" using s(8) c0 by simp
  have "person (tk s 1) = person (tk booted 1)" using s(10) by (simp add: evolves_def)
  then have "pid (tk s 1) = 3" using booted_props(8) by (simp add: person_def)
  moreover have "set (tasks s) = {0, 1}" "wheel_nodes (sleep_wheel s) = {}" using s(11,12) booted_props by auto
  moreover have "queued s = {}" using s(7) c0 nx by simp
  ultimately show thesis using that [OF s(2)] s(3-5) nx booted_props by (simp add: can_wait_def)
qed

lemma fresh_queue: "sched_inv s \<Longrightarrow> can_wait c t s \<Longrightarrow> sched_inv (s\<lparr>wq := (wq s)(q := [])\<rparr>) \<and> can_wait c t (s\<lparr>wq := (wq s)(q := [])\<rparr>)
     \<and> waiters_ok q (s\<lparr>wq := (wq s)(q := [])\<rparr>)"
  by (simp add: can_wait_def waiters_ok_def)

section \<open>Semaphores\<close>

text \<open>A negative count is the number of waiters.\<close>

definition sem_inv :: "jlos_semaphore \<Rightarrow> sched \<Rightarrow> bool" where
  "sem_inv sem s \<longleftrightarrow> waiters_ok (sem_queue sem) s \<and> int (length (wq s (sem_queue sem))) = max 0 (- sint (resource_count sem))"

lemma sint_shift:
  fixes x :: u32
  assumes "- (2 ^ 31) \<le> sint x + d" and "sint x + d < 2 ^ 31"
  shows "sint (x + of_int d) = sint x + d"
proof -
  have "x + of_int d = word_of_int (sint x + d)" by simp
  then have "sint (x + of_int d) = signed_take_bit 31 (sint x + d)"
    by (simp only: signed_of_int) simp
  then show ?thesis using signed_take_bit_int_eq_self [of 31 "sint x + d"] assms by simp
qed

lemma sint_bounds: "- (2 ^ 31) \<le> sint x" "sint x < 2 ^ 31" for x :: u32
  using sint_ge [of x] sint_lt [of x] by simp_all

lemma sint_pred: "x \<noteq> 0x80000000 \<Longrightarrow> sint (x - 1) = sint x - 1" for x :: u32
proof -
  assume "x \<noteq> 0x80000000"
  then have "sint x \<noteq> sint (0x80000000 :: u32)" using signed_word_eqI by blast
  then show ?thesis using sint_shift [of x "-1"] sint_bounds [of x] by simp
qed

lemma sint_succ: "x \<noteq> 0x7FFFFFFF \<Longrightarrow> sint (x + 1) = sint x + 1" for x :: u32
proof -
  assume "x \<noteq> 0x7FFFFFFF"
  then have "sint x \<noteq> sint (0x7FFFFFFF :: u32)" using signed_word_eqI by blast
  then show ?thesis using sint_shift [of x 1] sint_bounds [of x] by simp
qed

text \<open>
  C17: waiting on a semaphore takes a resource at once when there is one; otherwise the task
  goes to the end of the wait queue and stays parked there while the CPU runs another
  task. The count below zero is always the number of waiters.
\<close>

theorem semaphore_wait_correct:
  assumes "sched_inv s" and "can_wait c t s" and "sem_inv sem s" and "resource_count sem \<noteq> 0x80000000"
  shows "\<exists>sem' s'. jlos_semaphore_wait c sem s = Some (sem', s') \<and> sched_inv s' \<and> sem_inv sem' s'
     \<and> sint (resource_count sem') = sint (resource_count sem) - 1
     \<and> (if 0 < sint (resource_count sem) then s' = s else wq s' (sem_queue sem) = wq s (sem_queue sem) @ [t] \<and> parked s' t)"
proof -
  let ?n = "resource_count sem - 1" and ?q = "sem_queue sem"
  let ?sem = "sem\<lparr>resource_count := ?n\<rparr>"
  have n: "sint ?n = sint (resource_count sem) - 1" using sint_pred [OF assms(4)] .
  have cur: "cur s c = Some t" using assms(2) by (simp add: can_wait_def)
  have w: "waiters_ok ?q s" "int (length (wq s ?q)) = max 0 (- sint (resource_count sem))"
    using assms(3) by (auto simp: sem_inv_def)
  show ?thesis
  proof (cases "0 < sint (resource_count sem)")
    case True
    then have "jlos_semaphore_wait c sem s = Some (?sem, s)"
      using cur n by (simp add: jlos_semaphore_wait_def semaphore_down_def Let_def)
    then show ?thesis using assms(1) w n True by (auto simp: sem_inv_def)
  next
    case False
    obtain s' where r: "jlos_task_manager_schedule c (jlos_task_set_blocked t (wait_enqueue ?q t s)) = Some s'" "sched_inv s'"
      "wq s' ?q = wq s ?q @ [t]" "waiters_ok ?q s'" "parked s' t"
      "\<forall>p. p \<noteq> ?q \<longrightarrow> waiters_ok p s \<longrightarrow> wq s' p = wq s p \<and> waiters_ok p s'"
      by (rule park_and_schedule [OF assms(1,2) w(1)])
    have "jlos_semaphore_wait c sem s = Some (?sem, s')"
      using cur n False r(1) by (simp add: jlos_semaphore_wait_def semaphore_down_def Let_def)
    then show ?thesis using r n w(2) False by (auto simp: sem_inv_def)
  qed
qed

theorem semaphore_wait_correct_witness:
  "\<exists>sem s sem' s'. jlos_semaphore_wait 0 sem s = Some (sem', s') \<and> sched_inv s' \<and> sem_inv sem' s'
     \<and> sint (resource_count sem') = -1 \<and> wq s' 5 = [1] \<and> parked s' 1"
proof (rule one_running)
  fix s0 assume s0: "sched_inv s0" "can_wait 0 1 s0"
  define s where "s = s0\<lparr>wq := (wq s0)(5 := [])\<rparr>"
  let ?sem = "\<lparr>resource_count = 0, sem_queue = 5\<rparr>"
  have f: "sched_inv s" "can_wait 0 1 s" "waiters_ok 5 s" using fresh_queue [OF s0, of 5] by (simp_all add: s_def)
  moreover have "sem_inv ?sem s" using f(3) by (simp add: sem_inv_def s_def)
  ultimately show ?thesis using semaphore_wait_correct [of s 0 1 ?sem] by (force simp: s_def)
qed

text \<open>
  C12: posting a semaphore adds a resource when nobody waits, and otherwise hands it to the
  task that has waited longest, which leaves the wait queue and is queued to run; all
  others keep waiting in their order.
\<close>

theorem semaphore_post_correct:
  assumes "sched_ok s B" and "sem_inv sem s" and "resource_count sem \<noteq> 0x7FFFFFFF"
  shows "\<exists>sem' s'. jlos_semaphore_post sem s = (sem', s') \<and> sched_ok s' B \<and> sem_inv sem' s'
     \<and> sint (resource_count sem') = sint (resource_count sem) + 1
     \<and> (if 0 \<le> sint (resource_count sem) then s' = s
        else \<exists>t rest. wq s (sem_queue sem) = t # rest \<and> wq s' (sem_queue sem) = rest \<and> queued s' = insert t (queued s))"
proof -
  let ?n = "resource_count sem + 1" and ?q = "sem_queue sem"
  let ?sem = "sem\<lparr>resource_count := ?n\<rparr>"
  have n: "sint ?n = sint (resource_count sem) + 1" using sint_succ [OF assms(3)] .
  have w: "waiters_ok ?q s" "int (length (wq s ?q)) = max 0 (- sint (resource_count sem))"
    using assms(2) by (auto simp: sem_inv_def)
  show ?thesis
  proof (cases "0 \<le> sint (resource_count sem)")
    case True
    then have "jlos_semaphore_post sem s = (?sem, s)"
      using n by (simp add: jlos_semaphore_post_def Let_def)
    then show ?thesis using assms(1) w n True by (auto simp: sem_inv_def)
  next
    case False
    then have "wq s ?q \<noteq> []" using w(2) by auto
    then obtain t rest where q: "wq s ?q = t # rest" by (auto simp: neq_Nil_conv)
    define v where "v = s\<lparr>wq := (wq s)(?q := rest)\<rparr>"
    define s' where "s' = jlos_task_wakeup t v"
    note k = wake_first [OF assms(1) w(1) q v_def s'_def]
    have res: "jlos_semaphore_post sem s = (?sem, s')"
      using n False k(1,2) by (simp add: jlos_semaphore_post_def Let_def wake_if_blocked_def s'_def)
    have "int (length rest) = max 0 (- sint ?n)" using w(2) q n False by simp
    then have "sem_inv ?sem s'" using k(5,6) by (simp add: sem_inv_def)
    then show ?thesis using res k(3,4,5) n q False by auto
  qed
qed

lemma parked_once:
  obtains sem s where "sched_inv s" "sem_inv sem s" "sint (resource_count sem) = -1" "sem_queue sem = 5" "wq s 5 = [1]" "resource_count sem = -1"
proof (rule one_running)
  fix s0 assume s0: "sched_inv s0" "can_wait 0 1 s0"
  define s where "s = s0\<lparr>wq := (wq s0)(5 := [])\<rparr>"
  have f: "sched_inv s" "can_wait 0 1 s" "waiters_ok 5 s" using fresh_queue [OF s0, of 5] by (simp_all add: s_def)
  obtain s' where r: "jlos_task_manager_schedule 0 (jlos_task_set_blocked 1 (wait_enqueue 5 1 s)) = Some s'" "sched_inv s'"
    "wq s' 5 = wq s 5 @ [1]" "waiters_ok 5 s'" "parked s' 1"
    "\<forall>p. p \<noteq> 5 \<longrightarrow> waiters_ok p s \<longrightarrow> wq s' p = wq s p \<and> waiters_ok p s'"
    by (rule park_and_schedule [OF f])
  then show thesis using that [of s' "\<lparr>resource_count = -1, sem_queue = 5\<rparr>"] by (simp add: sem_inv_def s_def)
qed

theorem semaphore_post_correct_witness:
  "\<exists>sem s sem' s'. jlos_semaphore_post sem s = (sem', s') \<and> wq s 5 = [1] \<and> wq s' 5 = [] \<and> 1 \<in> queued s'
     \<and> resource_count sem = -1 \<and> sint (resource_count sem') = 0"
proof (rule parked_once)
  fix sem s
  assume a: "sched_inv s" "sem_inv sem s" "sint (resource_count sem) = -1" "sem_queue sem = 5" "wq s 5 = [1]" "resource_count sem = -1"
  have "resource_count sem \<noteq> 0x7FFFFFFF" using a(6) by simp
  from semaphore_post_correct [OF a(1,2) this] obtain sem' s' t rest where
    r: "jlos_semaphore_post sem s = (sem', s')" "sint (resource_count sem') = sint (resource_count sem) + 1"
      "wq s 5 = t # rest" "wq s' 5 = rest" "queued s' = insert t (queued s)"
    unfolding a(3,4) by auto
  then have "wq s' 5 = []" "1 \<in> queued s'" "sint (resource_count sem') = 0" using a(3,5) by auto
  then show ?thesis using r(1) a(5,6) by blast
qed

section \<open>Mutexes\<close>

definition mutex_inv :: "jlos_mutex \<Rightarrow> sched \<Rightarrow> bool" where
  "mutex_inv m s \<longleftrightarrow> waiters_ok (mutex_queue m) s
     \<and> (case owner m of None \<Rightarrow> locked m = 0 \<and> wq s (mutex_queue m) = []
        | Some t \<Rightarrow> locked m = 1 \<and> 0 < recursion m \<and> t \<notin> set (wq s (mutex_queue m)))"

text \<open>
  C18: locking a mutex gives it to the caller at once when it is free, with a recursion count
  of 1, and when it is already the caller's, with the count raised by 1; otherwise the mutex
  stays as it is and the caller is parked at the end of the wait queue.
\<close>

theorem mutex_lock_correct:
  assumes "sched_inv s" and "can_wait c t s" and "mutex_inv m s" and "recursion m \<noteq> -1"
  shows "\<exists>m' s'. jlos_mutex_lock c m s = Some (m', s') \<and> sched_inv s' \<and> mutex_inv m' s'
     \<and> (if owner m = None \<or> owner m = Some t
        then owner m' = Some t \<and> locked m' = 1 \<and> mutex_queue m' = mutex_queue m
          \<and> recursion m' = (if owner m = Some t then recursion m + 1 else 1) \<and> s' = s
        else m' = m \<and> wq s' (mutex_queue m) = wq s (mutex_queue m) @ [t] \<and> parked s' t)"
proof -
  let ?q = "mutex_queue m"
  have cur: "cur s c = Some t" using assms(2) by (simp add: can_wait_def)
  have run: "status (tk s t) = RUNNING" using curD(3) [OF assms(1), of c t] assms(2) by (simp add: can_wait_def)
  have w: "waiters_ok ?q s" using assms(3) by (simp add: mutex_inv_def)
  show ?thesis
  proof (cases "owner m = None \<or> owner m = Some t")
    case True
    have "recursion m + 1 \<noteq> 0" using assms(4) by (metis add.inverse_inverse add_eq_0_iff)
    moreover have "t \<notin> set (wq s ?q)" using w run by (auto simp: waiters_ok_def parked_def)
    moreover define m' where "m' = (if owner m = Some t then m\<lparr>recursion := recursion m + 1\<rparr>
      else m\<lparr>locked := 1, owner := Some t, recursion := 1\<rparr>)"
    have m': "jlos_mutex_lock c m s = Some (m', s)" "owner m' = Some t" "mutex_queue m' = ?q"
      "locked m' = 1" "recursion m' = (if owner m = Some t then recursion m + 1 else 1)"
      using True cur assms(3) by (auto simp: jlos_mutex_lock_def mutex_try_def mutex_inv_def m'_def)
    ultimately have "mutex_inv m' s" using w assms(3) by (auto simp: mutex_inv_def word_gt_0)
    then show ?thesis using True m' assms(1) by auto
  next
    case False
    then obtain o' where o': "owner m = Some o'" "o' \<noteq> t" by auto
    obtain s' where r: "jlos_task_manager_schedule c (jlos_task_set_blocked t (wait_enqueue ?q t s)) = Some s'" "sched_inv s'"
      "wq s' ?q = wq s ?q @ [t]" "waiters_ok ?q s'" "parked s' t"
      "\<forall>p. p \<noteq> ?q \<longrightarrow> waiters_ok p s \<longrightarrow> wq s' p = wq s p \<and> waiters_ok p s'"
      by (rule park_and_schedule [OF assms(1,2) w])
    have "jlos_mutex_lock c m s = Some (m, s')"
      using cur False o' assms(3) r(1) by (simp add: jlos_mutex_lock_def mutex_try_def mutex_inv_def)
    moreover have "mutex_inv m s'" using assms(3) o' r(3,4) by (simp add: mutex_inv_def)
    ultimately show ?thesis using r False by auto
  qed
qed

theorem mutex_lock_correct_witness:
  "\<exists>s m'. jlos_mutex_lock 0 \<lparr>locked = 0, owner = None, recursion = 0, mutex_queue = 5\<rparr> s = Some (m', s) \<and> mutex_inv m' s
     \<and> owner m' = Some 1 \<and> recursion m' = 1"
proof (rule one_running)
  fix s0 assume s0: "sched_inv s0" "can_wait 0 1 s0"
  define s where "s = s0\<lparr>wq := (wq s0)(5 := [])\<rparr>"
  let ?m = "\<lparr>locked = 0, owner = None, recursion = 0, mutex_queue = 5\<rparr>"
  have f: "sched_inv s" "can_wait 0 1 s" "waiters_ok 5 s" using fresh_queue [OF s0, of 5] by (simp_all add: s_def)
  have "mutex_inv ?m s" using f(3) by (simp add: mutex_inv_def s_def)
  then show ?thesis using mutex_lock_correct [OF f(1,2), of ?m] by force
qed

text \<open>
  C6: only the owner can unlock a mutex. Its last unlock hands the mutex over to the task
  that has waited longest, which becomes runnable and already owns it, so that nobody can
  take it in between; with no waiter the mutex becomes free.
\<close>

theorem mutex_unlock_correct:
  assumes "sched_ok s B" and "mutex_inv m s"
  shows "\<exists>m' s'. jlos_mutex_unlock c m s = (m', s') \<and> sched_ok s' B \<and> mutex_inv m' s'
     \<and> (if cur s c = None \<or> owner m \<noteq> cur s c then m' = m \<and> s' = s
        else if recursion m \<noteq> 1 then owner m' = owner m \<and> recursion m' = recursion m - 1 \<and> s' = s
        else case wq s (mutex_queue m) of [] \<Rightarrow> owner m' = None \<and> s' = s
             | t # rest \<Rightarrow> owner m' = Some t \<and> wq s' (mutex_queue m) = rest \<and> queued s' = insert t (queued s))"
proof -
  let ?q = "mutex_queue m"
  have w: "waiters_ok ?q s" using assms(2) by (simp add: mutex_inv_def)
  show ?thesis
  proof (cases "cur s c = None \<or> owner m \<noteq> cur s c")
    case True
    then show ?thesis using assms by (auto simp: jlos_mutex_unlock_def)
  next
    case False
    then obtain t where t: "cur s c = Some t" "owner m = Some t" by auto
    have rec: "0 < recursion m" "locked m = 1" using assms(2) t by (auto simp: mutex_inv_def)
    have pos: "0 < recursion m - 1 \<longleftrightarrow> recursion m \<noteq> 1" by (auto simp: word_gt_0)
    show ?thesis
    proof (cases "recursion m = 1")
      case False
      then show ?thesis using t assms pos by (auto simp: jlos_mutex_unlock_def mutex_inv_def Let_def)
    next
      case one: True
      show ?thesis
      proof (cases "wq s ?q")
        case Nil
        then show ?thesis using t assms w one by (auto simp: jlos_mutex_unlock_def mutex_inv_def Let_def wait_dequeue_def)
      next
        case (Cons u rest)
        define v where "v = s\<lparr>wq := (wq s)(?q := rest)\<rparr>"
        define s' where "s' = jlos_task_wakeup u v"
        define m' where "m' = m\<lparr>recursion := 1, owner := Some u, locked := 1\<rparr>"
        note k = wake_first [OF assms(1) w Cons v_def s'_def]
        have "jlos_mutex_unlock c m s = (m', s')"
          using t one k(1,2) by (simp add: jlos_mutex_unlock_def Let_def s'_def m'_def)
        moreover have "u \<notin> set rest" using w Cons by (simp add: waiters_ok_def)
        then have "mutex_inv m' s'" using k(5,6) by (simp add: mutex_inv_def m'_def)
        ultimately show ?thesis using t one k(3,4,5) Cons by (auto simp: m'_def)
      qed
    qed
  qed
qed

theorem mutex_unlock_correct_witness:
  "\<exists>s m'. jlos_mutex_unlock 0 \<lparr>locked = 1, owner = Some 1, recursion = 1, mutex_queue = 5\<rparr> s = (m', s) \<and> mutex_inv m' s
     \<and> owner m' = None"
proof (rule one_running)
  fix s0 assume s0: "sched_inv s0" "can_wait 0 1 s0"
  define s where "s = s0\<lparr>wq := (wq s0)(5 := [])\<rparr>"
  let ?m = "\<lparr>locked = 1, owner = Some 1, recursion = 1, mutex_queue = 5\<rparr>"
  have f: "sched_inv s" "can_wait 0 1 s" "waiters_ok 5 s" "wq s 5 = []" using fresh_queue [OF s0, of 5] by (simp_all add: s_def)
  then have "mutex_inv ?m s" "cur s 0 = Some 1" by (simp_all add: mutex_inv_def can_wait_def)
  then show ?thesis using mutex_unlock_correct [OF f(1), of ?m 0] f(4) by force
qed

section \<open>Condition variables\<close>

lemma broadcast_result:
  assumes "sched_ok s B" and "waiters_ok q s" and "wq s q = ws"
  shows "sched_ok (jlos_cond_broadcast q s) B \<and> queued (jlos_cond_broadcast q s) = queued s \<union> set ws
     \<and> wq (jlos_cond_broadcast q s) q = [] \<and> cur (jlos_cond_broadcast q s) = cur s"
  using assms
proof (induction ws arbitrary: s)
  case Nil
  then show ?case by (subst (1 2 3 4) jlos_cond_broadcast.simps) (simp add: wait_dequeue_def)
next
  case (Cons t rest)
  define v where "v = s\<lparr>wq := (wq s)(q := rest)\<rparr>"
  define s' where "s' = jlos_task_wakeup t v"
  note k = wake_first [OF Cons.prems v_def s'_def]
  have "jlos_cond_broadcast q s = jlos_cond_broadcast q s'"
    using k(1,2) by (subst jlos_cond_broadcast.simps) (simp add: wake_if_blocked_def s'_def)
  then show ?case using Cons.IH [OF k(3,6,5)] k(4,7) by auto
qed

text \<open>
  C19: a broadcast wakes every task that waits for the condition, and a signal the one that
  has waited longest: they leave the wait queue and are queued to run. A waiting task has
  given up the mutex and its CPU.
\<close>

theorem cond_wakes:
  assumes "sched_ok s B" and "waiters_ok q s"
  shows "sched_ok (jlos_cond_broadcast q s) B \<and> wq (jlos_cond_broadcast q s) q = []
     \<and> queued (jlos_cond_broadcast q s) = queued s \<union> set (wq s q)
     \<and> sched_ok (jlos_cond_signal q s) B \<and> wq (jlos_cond_signal q s) q = tl (wq s q)
     \<and> queued (jlos_cond_signal q s) = queued s \<union> set (take 1 (wq s q))"
proof -
  have "sched_ok (jlos_cond_signal q s) B \<and> wq (jlos_cond_signal q s) q = tl (wq s q)
     \<and> queued (jlos_cond_signal q s) = queued s \<union> set (take 1 (wq s q))"
  proof (cases "wq s q")
    case Nil
    then show ?thesis using assms(1) by (simp add: jlos_cond_signal_def wait_dequeue_def wake_if_blocked_def)
  next
    case (Cons t rest)
    note k = wake_first [OF assms Cons refl refl]
    show ?thesis using k(1-5) Cons by (simp add: jlos_cond_signal_def wake_if_blocked_def)
  qed
  then show ?thesis using broadcast_result [OF assms refl] by simp
qed

theorem cond_wakes_witness:
  "\<exists>s. wq s 5 = [1] \<and> 1 \<in> queued (jlos_cond_broadcast 5 s) \<and> wq (jlos_cond_broadcast 5 s) 5 = []"
proof (rule parked_once)
  fix sem s
  assume a: "sched_inv s" "sem_inv sem s" "sem_queue sem = 5" "wq s 5 = [1]"
  then have "waiters_ok 5 s" by (simp add: sem_inv_def)
  from cond_wakes [OF a(1) this] show ?thesis using a(4) by (intro exI [of _ s]) simp
qed

section \<open>Where it goes wrong\<close>

text \<open>
  C27: a post is lost when the first waiter has been killed. The kill wakes the task but leaves
  it on the wait queue; the post then takes it off, finds it runnable and wakes nobody,
  although the next task still waits for a resource that is there.
\<close>

theorem killed_waiter_takes_post:
  assumes "sched_ok s B" and "sem_inv sem s" and "wq s (sem_queue sem) = t # u # rest" and "cur s c \<noteq> Some t"
  shows "\<exists>s1 sem' s2. jlos_signal_send c t 9 s = Some (0, s1) \<and> jlos_semaphore_post sem s1 = (sem', s2)
     \<and> t \<in> queued s1 \<and> queued s2 = queued s1 \<and> wq s2 (sem_queue sem) = u # rest \<and> parked s2 u"
proof -
  let ?q = "sem_queue sem" and ?p = "\<lambda>k. k\<lparr>signal_pending := signal_pending k OR push_bit 9 1\<rparr>"
  have w: "waiters_ok ?q s" "int (length (wq s ?q)) = max 0 (- sint (resource_count sem))"
    using assms(2) by (auto simp: sem_inv_def)
  have t: "t \<in> set (tasks s)" "parked s t" "parked s u" "t \<noteq> u" using w(1) assms(3) by (auto simp: waiters_ok_def)
  define v where "v = set_task t ?p s"
  have v: "sched_ok v B" unfolding v_def by (intro set_task_same_status [OF assms(1)]) (auto simp: keeps_identity_def)
  have vt: "t \<in> set (tasks v)" "status (tk v t) = BLOCKED" using t by (simp_all add: v_def parked_def)
  define s1 where "s1 = jlos_task_wakeup t v"
  note k = wakeup_result [OF v vt(1) s1_def]
  have send: "jlos_signal_send c t 9 s = Some (0, s1)"
    using assms(4) vt(2) by (simp add: jlos_signal_send_def s1_def v_def Let_def)
  have q1: "t \<in> queued s1" using k(2) vt(2) by simp
  have wq1: "wq s1 ?q = t # u # rest" using k(12) assms(3) by (simp add: v_def)
  have st: "status (tk s1 t) \<noteq> BLOCKED" by (rule k(4))
  define s2 where "s2 = s1\<lparr>wq := (wq s1)(?q := u # rest)\<rparr>"
  have neg: "sint (resource_count sem) \<le> -2" using w(2) assms(3) by simp
  have "resource_count sem \<noteq> 0x7FFFFFFF" using neg by auto
  then have "sint (resource_count sem + 1) \<le> -1" using sint_succ neg by simp
  then have post: "jlos_semaphore_post sem s1 = (sem\<lparr>resource_count := resource_count sem + 1\<rparr>, s2)"
    using wq1 st by (simp add: jlos_semaphore_post_def wait_dequeue_def wake_if_blocked_def s2_def)
  have "wheel_nodes (sleep_wheel s1) \<subseteq> wheel_nodes (sleep_wheel s)"
    using sched_okD(5) [OF v] nodes_del [of "sleep_wheel v" t]
    by (auto simp: s1_def jlos_task_wakeup_def Let_def jlos_sched_set_need_resched_on_def jlos_task_set_ready_def wheel_ok_def v_def)
  then have "parked s2 u" using t(3,4) k(7) [of u] by (auto simp: parked_def s2_def v_def)
  then show ?thesis using send post q1 by (auto simp: s2_def)
qed

text \<open>Two tasks wait for the same semaphore.\<close>

lemma two_waiters:
  obtains s where "sched_inv s" "sem_inv \<lparr>resource_count = -2, sem_queue = 5\<rparr> s" "wq s 5 = [1, 2]" "cur s 0 = Some 0"
proof -
  have room: "length (tasks booted) < max_tasks booted \<or> True" by simp
  obtain f where f: "jlos_process_fork_inner (Some 2) True True True True 1 booted = (Some 2, f)" "sched_inv f"
    "tasks f = tasks booted @ [2]" "queued f = insert 2 (queued booted)" "num_cpus f = num_cpus booted" "cur f = cur booted"
    "idle_task f = idle_task booted" "tk f = (tk booted)(2 := (child_of booted 1)\<lparr>slot_idx := int (length (tasks booted))\<rparr>)"
    "ticks f = ticks booted" "sleep_wheel f = sleep_wheel booted" "next_pid f = next_pid booted + 1"
    "zombie_head f = zombie_head booted" "prev f = prev booted \<and> saved_sp f = (saved_sp booted)(2 := Entry_stub)"
    by (rule fork_result [OF booted_props(1) booted_room(2-4) room])
  define g where "g = f\<lparr>wq := (wq f)(5 := [])\<rparr>"
  have g: "sched_inv g" "waiters_ok 5 g" using f(2) by (simp_all add: g_def waiters_ok_def)
  have g1: "1 \<in> set (tasks g)" "\<not> idle_of g 1" "status (tk g 1) \<in> {READY, RUNNING}" "1 \<notin> wheel_nodes (sleep_wheel g)"
    "\<forall>c<num_cpus g. cur g c = Some 1 \<longrightarrow> c \<in> {}"
    and g2: "2 \<in> set (tasks g)" "\<not> idle_of g 2" "status (tk g 2) \<in> {READY, RUNNING}" "2 \<notin> wheel_nodes (sleep_wheel g)"
    "\<forall>c<num_cpus g. cur g c = Some 2 \<longrightarrow> c \<in> {}"
    using f booted_props by (auto simp: g_def idle_of_def child_of_def split: if_splits)
  define h where "h = jlos_task_set_blocked 1 (wait_enqueue 5 1 g)"
  note k = park_general [OF g(1) g1 g(2) h_def]
  have h2: "2 \<in> set (tasks h)" "\<not> idle_of h 2" "status (tk h 2) \<in> {READY, RUNNING}" "2 \<notin> wheel_nodes (sleep_wheel h)"
    "\<forall>c<num_cpus h. cur h c = Some 2 \<longrightarrow> c \<in> {}"
    using g2 k(6,7,10,11,12) k(13) [of 2] by (auto simp: idle_of_def)
  note m = park_general [OF k(1) h2 k(3) refl]
  show thesis
    using that [OF m(1)] m(2,3,6) k(2,6) f(6) booted_props(5) by (simp add: sem_inv_def g_def)
qed

theorem killed_waiter_takes_post_witness:
  "\<exists>s s1 sem' s2. jlos_signal_send 0 1 9 s = Some (0, s1) \<and> jlos_semaphore_post \<lparr>resource_count = -2, sem_queue = 5\<rparr> s1 = (sem', s2)
     \<and> queued s2 = queued s1 \<and> wq s2 5 = [2] \<and> parked s2 2"
proof (rule two_waiters)
  fix s assume a: "sched_inv s" "sem_inv \<lparr>resource_count = -2, sem_queue = 5\<rparr> s" "wq s 5 = [1, 2]" "cur s 0 = Some 0"
  then show ?thesis using killed_waiter_takes_post [OF a(1,2), of 1 2 "[]" 0] by auto
qed

text \<open>
  An idle CPU \<open>d\<close> takes a queued task over from the other CPU, also when that one still
  stands on it.
\<close>

lemma steal_from_other:
  assumes ok: "sched_ok s {c}" and c: "c < 2" "d < 2" "c \<noteq> d" and n: "num_cpus s = 2" and q: "queued s = {t}"
    and t: "cur s c = Some t"
  obtains s' where "pick_next d s = Some (Some t, s')" "tasks s' = tasks s" "cur s' = cur s" "slot_idx (tk s' t) = slot_idx (tk s t)"
proof -
  have inv: "rq_inv s" by (rule sched_okD(1) [OF ok])
  have cpu: "cpu (tk s t) = c" using curD(2) [OF ok _ t] c(1) n by simp
  have rdy: "status (tk s t) = READY" using queuedD(2) [OF ok] q by simp
  have only: "x = t \<and> e = c" if "x \<in> set (queue (rq s e) l)" for x e l
  proof -
    have "x \<in> queued s" using that unfolding queued_def by blast
    then show ?thesis using rq_okD(1) [OF inv that] q cpu by simp
  qed
  obtain l0 where on: "t \<in> set (queue (rq s c) l0)"
  proof -
    have "t \<in> queued s" using q by simp
    then obtain e l where e: "t \<in> set (queue (rq s e) l)" unfolding queued_def by blast
    then show thesis using that only [OF e] by blast
  qed
  have here: "rq_dequeue d s = Some (None, s)" using inv
  proof (cases rule: rq_dequeue_cases [of s d])
    case (first x l rest)
    then show ?thesis using only [of x d l] c(3) by simp
  qed
  obtain b m where bm: "busiest_loop d s [0..<num_cpus s] d 0 = (b, m)" by fastforce
  note max = busiest_loop_max [OF bm]
  have "rq_task_count c s \<noteq> 0" using rq_task_count_zero [OF inv, of c l0] on by force
  then have m: "m \<noteq> 0" using max(2) [of c] c n by simp
  then have b: "b = c" using max(3) c n by auto
  obtain l rest where tk: "rq_take c s = Some (Some (t, l), rq_drop c l t s)" "rq_inv (rq_drop c l t s)" "queued (rq_drop c l t s) = {}"
    using inv
  proof (cases rule: rq_take_cases [of s c])
    case empty
    then show thesis using on by simp
  next
    case (first x l rest)
    then have "x = t" using q by simp
    then show thesis using that first q by simp
  qed
  define u where "u = set_task t (\<lambda>k. k\<lparr>cpu := d\<rparr>) (rq_drop c l t s)"
  define v where "v = rq_enqueue t u"
  have u: "rq_inv u" "queued u = {}" unfolding u_def using tk(2,3) by (auto intro: rq_ok_set_task_off)
  have v: "rq_inv v" unfolding v_def using u rdy c n by (intro rq_enqueue_ok) (auto simp: u_def)
  have vq: "queued v = {t}" using u(2) by (simp add: v_def)
  have bal: "jlos_sched_balance d s = Some v"
    using bm n b c m tk(1) by (simp add: jlos_sched_balance_def rq_steal_cpu_def u_def v_def)
  have "t \<in> set (queue (rq v d) (clamp_pri (priority (tk s t))))" by (simp add: v_def u_def rq_enqueue_queue)
  then have ne: "queue (rq v d) (clamp_pri (priority (tk s t))) \<noteq> []" by auto
  show thesis using v
  proof (cases rule: rq_dequeue_cases [of v d])
    case empty
    then show thesis using ne by simp
  next
    case (first x k r)
    then have x: "x = t" using vq by simp
    let ?w = "set_task t (\<lambda>j. j\<lparr>priority := of_nat (aged_level v t k), default_slice := push_bit (aged_level v t k) 2,
          last_ready_tick := ticks v\<rparr>) (rq_drop d k t v)"
    have "pick_next d s = Some (Some t, ?w)" using here bal first(1) by (simp add: pick_next_def x)
    then show thesis by (rule that) (simp_all add: v_def u_def)
  qed
qed

text \<open>
  C24: on two CPUs a task can end up running on both. It blocks on a semaphore on one CPU;
  before that CPU has switched away from it, the semaphore is posted, and the idle other
  CPU, which looks for work, takes the woken task over and runs it.
\<close>

theorem woken_task_runs_twice:
  assumes "sched_inv s" and "can_wait c t s" and "sem_inv sem s" and "resource_count sem = 0" and "num_cpus s = 2"
    and "d < 2" and "d \<noteq> c" and "cur s d = Some i" and "idle_task s d = Some i" and "queued s = {}" and "zombie_head s = []"
    and "wheel_nodes (sleep_wheel s) = {}"
  shows "\<exists>sem1 s1 sem2 s2 s3. semaphore_down t sem s = (True, sem1, s1) \<and> jlos_semaphore_post sem1 s1 = (sem2, s2)
     \<and> jlos_task_manager_schedule d s2 = Some s3 \<and> cur s3 c = Some t \<and> cur s3 d = Some t"
proof -
  let ?q = "sem_queue sem"
  define sem1 where "sem1 = sem\<lparr>resource_count := -1\<rparr>"
  define s1 where "s1 = jlos_task_set_blocked t (wait_enqueue ?q t s)"
  have cc: "c < 2" "cur s c = Some t" using assms(2,5) by (auto simp: can_wait_def)
  have w: "waiters_ok ?q s" "wq s ?q = []" using assms(3,4) by (auto simp: sem_inv_def)
  note k = park_general [OF assms(1) can_waitD [OF assms(1,2)] w(1) s1_def]
  have down: "semaphore_down t sem s = (True, sem1, s1)"
    using assms(4) by (simp add: semaphore_down_def s1_def sem1_def)
  have q1: "wq s1 ?q = t # []" using k(2) w(2) by simp
  define v where "v = s1\<lparr>wq := (wq s1)(?q := [])\<rparr>"
  define s2 where "s2 = jlos_task_wakeup t v"
  note f = wake_first [OF k(1,3) q1 v_def s2_def]
  have post: "jlos_semaphore_post sem1 s1 = (sem1\<lparr>resource_count := 0\<rparr>, s2)"
    using f(1,2) by (simp add: jlos_semaphore_post_def sem1_def wake_if_blocked_def s2_def)
  have q2: "queued s2 = {t}" using f(4) k(5) assms(10) by simp
  have "zombie_head s2 = zombie_head v"
    by (simp add: s2_def jlos_task_wakeup_def Let_def jlos_sched_set_need_resched_on_def jlos_task_set_ready_def)
  then have z2: "zombie_head s2 = []" using k(14) assms(11) by (simp add: v_def)
  have e2: "expired s2 = {}" using f(13) k(12) assms(12) by (auto simp: expired_def split: if_splits)
  have n2: "num_cpus s2 = 2" "cur s2 = cur s" "idle_task s2 = idle_task s" using f(7,8,10) k(6,7,11) assms(5) by simp_all
  have di: "d < num_cpus s2" "cur s2 d = Some i" "idle_task s2 d = Some i" using n2 assms(6,8,9) by simp_all
  have id: "status (tk s2 i) = RUNNING" "\<not> sleeping (tk s2 i)" using idleD [OF f(3) di(1,3)] by auto
  have "\<not> idle_of s t" using can_waitD(2) [OF assms(1,2)] .
  then have ti: "t \<noteq> i" using assms(5,6,9) by (auto simp: idle_of_def)
  have rp: "requeue_prev d i s2 = s2" using id di(3) by (simp add: requeue_prev_def)
  obtain v3 where r3: "wheel_expire s2 = Some v3" "sched_ok v3 {c}"
    "queued v3 = queued s2 \<union> {x \<in> expired s2. status (tk s2 x) = BLOCKED}" "tasks v3 = tasks s2"
    "idle_task v3 = idle_task s2" "cur v3 = cur s2" "prev v3 = prev s2 \<and> saved_sp v3 = saved_sp s2" "num_cpus v3 = num_cpus s2" "ticks v3 = ticks s2"
    "evolves s2 v3" "wheel_nodes (sleep_wheel v3) \<subseteq> wheel_nodes (sleep_wheel s2)"
    by (rule wheel_expire_keeps [OF f(3)])
  have q3: "queued v3 = {t}" "num_cpus v3 = 2" "cur v3 c = Some t" using r3(3,6,8) q2 e2 n2 cc(2) by simp_all
  obtain v4 where p: "pick_next d v3 = Some (Some t, v4)" "tasks v4 = tasks v3" "cur v4 = cur v3" "slot_idx (tk v4 t) = slot_idx (tk v3 t)"
    using steal_from_other [OF r3(2) cc(1) assms(6) _ q3(2,1,3)] assms(7) by metis
  have "t \<in> set (tasks v3)" using queuedD(1) [OF r3(2)] q3(1) by simp
  then obtain j where j: "j < length (tasks v3)" "tasks v3 ! j = t" by (auto simp: in_set_conv_nth)
  then have "slot_idx (tk v3 t) = int j" using sched_okD(2) [OF r3(2)] by (auto simp: table_ok_def)
  then have "task_slot t v4 = (Some j, v4)" using p(2,4) j by (simp add: task_slot_def)
  then obtain s3 where "jlos_task_manager_schedule d s2 = Some s3" "cur s3 = (cur v4)(d := Some t)"
    using di(2) rp z2 r3(1) p(1) ti by (simp add: jlos_task_manager_schedule_def jlos_hal_context_switch_def jlos_task_set_running_def Let_def)
  then show ?thesis using down post p(3) q3(3) assms(7) by auto
qed

text \<open>Task 1 running on CPU 0 while CPU 1 stands on its idle task 2.\<close>

lemma two_cpus_up:
  obtains s where "sched_inv s" "can_wait 0 1 s" "num_cpus s = 2" "queued s = {}" "zombie_head s = []"
    "wheel_nodes (sleep_wheel s) = {}" "cur s 1 = Some 2" "idle_task s 1 = Some 2"
proof -
  define b where "b = jlos_sched_init_cpu True 1 2 booted"
  have pre: "1 < num_cpus booted" "cur booted 1 = None" "idle_task booted 1 = None" "2 \<notin> set (tasks booted)"
    "next_pid booted + 1 \<notin> pid_of booted ` set (tasks booted)" "length (tasks booted) < max_tasks booted \<or> True"
    using booted_props by (simp_all add: pid_of_def)
  note i = init_cpu_result [OF booted_props(1) pre b_def]
  have bf: "zombie_head b = []" "wheel_nodes (sleep_wheel b) = {}"
    using booted_props(6,14,15)
    by (simp_all add: b_def jlos_sched_init_cpu_def Let_def jlos_task_manager_add_task_def jlos_task_manager_enqueue_def
        jlos_task_set_running_def jlos_task_init_1_def jlos_task_set_ready_def wheel_nodes_def)
  have bq: "queued b = {1}" "wheel_nodes (sleep_wheel b) = {}" using i(5) booted_props(3) bf(2) by (simp_all add: queued_def)
  have c: "sched_ok b {0}" "0 < num_cpus b" "cur b 0 = Some 0"
    using sched_ok_mono [OF i(1)] i(2,6) booted_props(4,5) by auto
  have c0: "contenders 0 0 b = {1}" using bq i(3) booted_props(6) by (simp add: contenders_def no_sleepers preempted_def)
  obtain nx s where s: "jlos_task_manager_schedule 0 b = Some s" "sched_inv s" "cur s = (cur b)(0 := Some nx)"
    "num_cpus s = num_cpus b" "idle_task s = idle_task b" "remain_slice (tk s nx) = default_slice (tk s nx)"
    "queued s = contenders 0 0 b - {nx}"
    "nx \<in> contenders 0 0 b \<or> idle_task b 0 = Some nx \<and> contenders 0 0 b = {}" "resched s 0 = False"
    "evolves b s" "set (tasks s) \<union> set (zombie_head b) = set (tasks b) \<union> set (zombie_head b)"
    "wheel_nodes (sleep_wheel s) \<subseteq> wheel_nodes (sleep_wheel b) \<union> set (zombie_head b)"
    "switched 0 0 nx b s"
    by (rule schedule_result [OF c])
  have nx: "nx = 1" using s(8) c0 by simp
  have f: "num_cpus s = 2" "cur s 0 = Some 1" "cur s 1 = Some 2" "idle_task s 0 = Some 0" "idle_task s 1 = Some 2"
    "set (tasks s) = {0, 1, 2}" "idle_task s = (\<lambda>_. None)(0 := Some 0, 1 := Some 2)"
    using s(3-5,11) i(2-4,6) nx bf(1) booted_props(2,4-6) by auto
  have "status (tk s 0) = RUNNING" "status (tk s 2) = RUNNING" "status (tk s 1) = RUNNING"
    using idleD [OF s(2), of 0] idleD [OF s(2), of 1] curD(3) [OF s(2), of 0] f by simp_all
  then have "zombie_head s = []" using sched_okD(3) [OF s(2)] f(6) unfolding places_ok_def
    by (metis (no_types, lifting) ext insertE equals0D last_in_set subsetD task_status.distinct)
  moreover have "can_wait 0 1 s" using f bq(2) s(12) bf(1) by (auto simp: can_wait_def)
  moreover have "queued s = {}" "wheel_nodes (sleep_wheel s) = {}" using s(7,12) c0 nx bq(2) bf(1) by auto
  ultimately show thesis using that [OF s(2)] f by blast
qed

theorem woken_task_runs_twice_witness:
  "\<exists>s sem1 s1 sem2 s2 s3. semaphore_down 1 \<lparr>resource_count = 0, sem_queue = 5\<rparr> s = (True, sem1, s1)
     \<and> jlos_semaphore_post sem1 s1 = (sem2, s2) \<and> jlos_task_manager_schedule 1 s2 = Some s3 \<and> cur s3 0 = Some 1 \<and> cur s3 1 = Some 1"
proof (rule two_cpus_up)
  fix s0 assume a: "sched_inv s0" "can_wait 0 1 s0" "num_cpus s0 = 2" "queued s0 = {}" "zombie_head s0 = []"
    "wheel_nodes (sleep_wheel s0) = {}" "cur s0 1 = Some 2" "idle_task s0 1 = Some 2"
  define s where "s = s0\<lparr>wq := (wq s0)(5 := [])\<rparr>"
  have f: "sched_inv s" "can_wait 0 1 s" "waiters_ok 5 s" using fresh_queue [OF a(1,2), of 5] by (simp_all add: s_def)
  have g: "sem_inv \<lparr>resource_count = 0, sem_queue = 5\<rparr> s" using f(3) by (simp add: sem_inv_def s_def)
  have h: "num_cpus s = 2" "cur s 1 = Some 2" "idle_task s 1 = Some 2" "queued s = {}" "zombie_head s = []"
    "wheel_nodes (sleep_wheel s) = {}" using a by (simp_all add: s_def)
  have "\<exists>sem1 s1 sem2 s2 s3. semaphore_down 1 \<lparr>resource_count = 0, sem_queue = 5\<rparr> s = (True, sem1, s1)
     \<and> jlos_semaphore_post sem1 s1 = (sem2, s2) \<and> jlos_task_manager_schedule 1 s2 = Some s3 \<and> cur s3 0 = Some 1 \<and> cur s3 1 = Some 1"
    using woken_task_runs_twice [OF f(1,2) g _ h(1) _ _ h(2,3,4,5,6)] by simp
  then show ?thesis by blast
qed

end
