(* ===== verification/Paging.thy ===== *)
theory Paging
  imports Page_Alloc "HOL-Library.Monad_Syntax"
begin

text \<open>
  \<^verbatim>\<open>arch/x86/paging.c\<close> in its 64-bit configuration and \<^verbatim>\<open>kernel/paging.c\<close>: the four-level
  page tables over the page frame allocator of \<open>Page_Frame\<close>. Physical memory is a
  function from frame addresses to their 512 eight-byte words, so that page tables and
  the data of mapped pages live in the same memory. A pointer to a table is its
  physical address (the direct map is a bijection, \<open>virt_phys\<close>), a pointer to an entry
  is the table with an index. A path on which the code halts is \<open>None\<close>. Paging contexts
  are numbered; an operation that holds the lock of its context is one step.
\<close>

section \<open>State\<close>

record jlos_paging_context =
  root :: "u64 option"
  num_page_tables :: u32
  asid :: u32

text \<open>An entry of a translation cache that a CPU drops: one page, or everything.\<close>

datatype flush = Flush_Page u64 | Flush_All

text \<open>
  \<open>boot_heap\<close> is the pointer of the boot allocator while \<open>s_page_table_alloc\<close> refers to it,
  and \<open>None\<close> once tables come from the frame allocator. \<open>flushes\<close> is the sequence of
  invalidations, newest first, \<open>cr3\<close> what the CPU translates with.
\<close>

record vmem =
  frames :: pfa
  pmem :: "u64 \<Rightarrow> nat \<Rightarrow> u64"
  ctxs :: "nat \<Rightarrow> jlos_paging_context"
  boot_heap :: "u32 option"
  active :: "nat \<Rightarrow> nat option"
  cr3 :: "nat \<Rightarrow> u64"
  flushes :: "(nat \<times> flush) list"
  pcide_enabled :: bool
  next_pcid :: u32

definition has :: "'a::len word \<Rightarrow> 'a word \<Rightarrow> bool" where
  "has e f \<longleftrightarrow> e AND f \<noteq> 0"

abbreviation JLOS_PTE_PRESENT :: u64 where "JLOS_PTE_PRESENT \<equiv> 0x001"
abbreviation JLOS_PTE_WRITABLE :: u64 where "JLOS_PTE_WRITABLE \<equiv> 0x002"
abbreviation JLOS_PTE_USER :: u64 where "JLOS_PTE_USER \<equiv> 0x004"
abbreviation JLOS_PTE_WRITE_THROUGH :: u64 where "JLOS_PTE_WRITE_THROUGH \<equiv> 0x008"
abbreviation JLOS_PTE_CACHE_DISABLE :: u64 where "JLOS_PTE_CACHE_DISABLE \<equiv> 0x010"
abbreviation JLOS_PTE_ACCESSED :: u64 where "JLOS_PTE_ACCESSED \<equiv> 0x020"
abbreviation JLOS_PTE_DIRTY :: u64 where "JLOS_PTE_DIRTY \<equiv> 0x040"
abbreviation JLOS_PDE_PS :: u64 where "JLOS_PDE_PS \<equiv> 0x080"
abbreviation JLOS_PTE_GLOBAL :: u64 where "JLOS_PTE_GLOBAL \<equiv> 0x100"
abbreviation JLOS_PTE_NX :: u64 where "JLOS_PTE_NX \<equiv> 0x8000000000000000"

abbreviation JLOS_PAGING_ADDR_MASK :: u64 where "JLOS_PAGING_ADDR_MASK \<equiv> 0x000FFFFFFFFFF000"
abbreviation JLOS_PAGING_LARGE_SIZE :: u64 where "JLOS_PAGING_LARGE_SIZE \<equiv> 0x200000"
abbreviation JLOS_PAGING_LARGE_ADDR_MASK :: u64 where "JLOS_PAGING_LARGE_ADDR_MASK \<equiv> NOT (JLOS_PAGING_LARGE_SIZE - 1)"

abbreviation JLOS_PG_READ :: u32 where "JLOS_PG_READ \<equiv> 0x1"
abbreviation JLOS_PG_WRITE :: u32 where "JLOS_PG_WRITE \<equiv> 0x2"
abbreviation JLOS_PG_EXEC :: u32 where "JLOS_PG_EXEC \<equiv> 0x4"
abbreviation JLOS_PG_USER :: u32 where "JLOS_PG_USER \<equiv> 0x8"
abbreviation JLOS_PG_GLOBAL :: u32 where "JLOS_PG_GLOBAL \<equiv> 0x10"
abbreviation JLOS_PG_NOCACHE :: u32 where "JLOS_PG_NOCACHE \<equiv> 0x20"

abbreviation KERNEL_VIRTUAL_BASE :: u64 where "KERNEL_VIRTUAL_BASE \<equiv> 0xFFFFFFFF80000000"
abbreviation KERNEL_DIRECT_MAP_BASE :: u64 where "KERNEL_DIRECT_MAP_BASE \<equiv> 0xFFFF800000000000"
abbreviation KERNEL_DIRECT_MAP_SIZE :: u64 where "KERNEL_DIRECT_MAP_SIZE \<equiv> 0x0000008000000000"
abbreviation USER_SPACE_LIMIT :: u64 where "USER_SPACE_LIMIT \<equiv> 0x0000800000000000"

definition VIRT_TO_PHYS :: "u64 \<Rightarrow> u64" where
  "VIRT_TO_PHYS addr = (if KERNEL_VIRTUAL_BASE \<le> addr then addr - KERNEL_VIRTUAL_BASE else addr - KERNEL_DIRECT_MAP_BASE)"

definition PHYS_TO_VIRT :: "u64 \<Rightarrow> u64" where
  "PHYS_TO_VIRT addr = addr + KERNEL_DIRECT_MAP_BASE"

definition JLOS_PAGE_ALIGN_DOWN :: "u64 \<Rightarrow> u64" where
  "JLOS_PAGE_ALIGN_DOWN addr = addr AND NOT (4096 - 1)"

definition JLOS_PAGE_ALIGN_UP :: "u64 \<Rightarrow> u64" where
  "JLOS_PAGE_ALIGN_UP addr = JLOS_PAGE_ALIGN_DOWN (addr + 4096 - 1)"

section \<open>Indices and protection bits\<close>

definition jlos_paging_get_pml4_index :: "u64 \<Rightarrow> nat" where
  "jlos_paging_get_pml4_index va = unat (drop_bit 39 va AND 0x1FF)"

definition jlos_paging_get_pdpt_index :: "u64 \<Rightarrow> nat" where
  "jlos_paging_get_pdpt_index va = unat (drop_bit 30 va AND 0x1FF)"

definition jlos_paging_get_page_dir_index :: "u64 \<Rightarrow> nat" where
  "jlos_paging_get_page_dir_index va = unat (drop_bit 21 va AND 0x1FF)"

definition jlos_paging_get_page_table_index :: "u64 \<Rightarrow> nat" where
  "jlos_paging_get_page_table_index va = unat (drop_bit 12 va AND 0x1FF)"

definition jlos_paging_get_page_offset :: "u64 \<Rightarrow> u64" where
  "jlos_paging_get_page_offset va = va AND 0xFFF"

definition pte_prot :: "u32 \<Rightarrow> u64" where
  "pte_prot prot =
     (let p = JLOS_PTE_PRESENT;
          p = (if has prot JLOS_PG_WRITE then p OR JLOS_PTE_WRITABLE else p);
          p = (if has prot JLOS_PG_USER then p OR JLOS_PTE_USER else p);
          p = (if has prot JLOS_PG_GLOBAL then p OR JLOS_PTE_GLOBAL else p);
          p = (if has prot JLOS_PG_NOCACHE then p OR JLOS_PTE_CACHE_DISABLE else p)
      in if \<not> has prot JLOS_PG_EXEC then p OR JLOS_PTE_NX else p)"

section \<open>Memory and contexts\<close>

definition store :: "u64 \<Rightarrow> nat \<Rightarrow> u64 \<Rightarrow> vmem \<Rightarrow> vmem" where
  "store t i v s = s\<lparr>pmem := (pmem s)(t := (pmem s t)(i := v))\<rparr>"

definition clear_frame :: "u64 \<Rightarrow> vmem \<Rightarrow> vmem" where
  "clear_frame t s = s\<lparr>pmem := (pmem s)(t := (\<lambda>_. 0))\<rparr>"

definition set_ctx :: "nat \<Rightarrow> (jlos_paging_context \<Rightarrow> jlos_paging_context) \<Rightarrow> vmem \<Rightarrow> vmem" where
  "set_ctx ctx u s = s\<lparr>ctxs := (ctxs s)(ctx := u (ctxs s ctx))\<rparr>"

text \<open>An operation of the frame allocator inside the machine.\<close>

definition with_frames :: "(pfa \<Rightarrow> pfa option) \<Rightarrow> vmem \<Rightarrow> vmem option" where
  "with_frames f s = map_option (\<lambda>p. s\<lparr>frames := p\<rparr>) (f (frames s))"

definition flush :: "nat \<Rightarrow> flush \<Rightarrow> vmem \<Rightarrow> vmem" where
  "flush c f s = s\<lparr>flushes := (c, f) # flushes s\<rparr>"

definition frame_malloc :: "nat \<Rightarrow> vmem \<Rightarrow> (u64 option \<times> vmem) option" where
  "frame_malloc c s = map_option (\<lambda>(p, r). (map_option ucast r, s\<lparr>frames := p\<rparr>)) (jlos_page_frame_malloc c (frames s))"

definition paging_table_alloc :: "nat \<Rightarrow> vmem \<Rightarrow> (u64 option \<times> vmem) option" where
  "paging_table_alloc c s =
     (case boot_heap s of
        Some ptr \<Rightarrow> (case jlos_pfa_boot_alloc_page ptr of (addr, ptr') \<Rightarrow> Some (Some (ucast addr), s\<lparr>boot_heap := Some ptr'\<rparr>))
      | None \<Rightarrow> frame_malloc c s)"

section \<open>Walking and changing the tables\<close>

definition pte_walk :: "nat \<Rightarrow> u64 \<Rightarrow> vmem \<Rightarrow> (u64 \<times> nat) option" where
  "pte_walk ctx va s =
     (case root (ctxs s ctx) of
        None \<Rightarrow> None
      | Some pml4 \<Rightarrow>
          let pml4e = pmem s pml4 (jlos_paging_get_pml4_index va)
          in if \<not> has pml4e JLOS_PTE_PRESENT then None
             else let pdpt = pml4e AND JLOS_PAGING_ADDR_MASK;
                      pdpte = pmem s pdpt (jlos_paging_get_pdpt_index va)
                  in if \<not> has pdpte JLOS_PTE_PRESENT \<or> has pdpte JLOS_PDE_PS then None
                     else let pd = pdpte AND JLOS_PAGING_ADDR_MASK;
                              pde = pmem s pd (jlos_paging_get_page_dir_index va)
                          in if \<not> has pde JLOS_PTE_PRESENT \<or> has pde JLOS_PDE_PS then None
                             else Some (pde AND JLOS_PAGING_ADDR_MASK, jlos_paging_get_page_table_index va))"

definition root_ensure :: "nat \<Rightarrow> nat \<Rightarrow> vmem \<Rightarrow> (bool \<times> vmem) option" where
  "root_ensure c ctx s =
     (if root (ctxs s ctx) \<noteq> None then Some (True, s)
      else do {
        (r, s) \<leftarrow> paging_table_alloc c s;
        let s = set_ctx ctx (\<lambda>k. k\<lparr>root := r\<rparr>) s;
        (case r of None \<Rightarrow> Some (False, s) | Some t \<Rightarrow> Some (True, clear_frame t s))
      })"

definition paging_level_ensure :: "nat \<Rightarrow> nat \<Rightarrow> u64 \<Rightarrow> nat \<Rightarrow> bool \<Rightarrow> vmem \<Rightarrow> (u64 option \<times> vmem) option" where
  "paging_level_ensure c ctx t i user s =
     (if has (pmem s t i) JLOS_PTE_PRESENT then Some (Some (pmem s t i AND JLOS_PAGING_ADDR_MASK), s)
      else do {
        (r, s) \<leftarrow> paging_table_alloc c s;
        (case r of
           None \<Rightarrow> Some (None, s)
         | Some table \<Rightarrow>
             let s = clear_frame table s;
                 s = store t i (table OR JLOS_PTE_PRESENT OR JLOS_PTE_WRITABLE OR (if user then JLOS_PTE_USER else 0)) s
             in Some (Some table, set_ctx ctx (\<lambda>k. k\<lparr>num_page_tables := num_page_tables k + 1\<rparr>) s))
      })"

definition map_large_locked :: "nat \<Rightarrow> nat \<Rightarrow> u64 \<Rightarrow> u64 \<Rightarrow> u32 \<Rightarrow> vmem \<Rightarrow> (bool \<times> vmem) option" where
  "map_large_locked c ctx va pa flags s =
     (case root (ctxs s ctx) of
        None \<Rightarrow> None
      | Some pml4 \<Rightarrow> do {
          (l1, s) \<leftarrow> paging_level_ensure c ctx pml4 (jlos_paging_get_pml4_index va) False s;
          (case l1 of
             None \<Rightarrow> Some (False, s)
           | Some pdpt \<Rightarrow> do {
               (l2, s) \<leftarrow> paging_level_ensure c ctx pdpt (jlos_paging_get_pdpt_index va) False s;
               (case l2 of
                  None \<Rightarrow> Some (False, s)
                | Some pd \<Rightarrow>
                    let i = jlos_paging_get_page_dir_index va
                    in if has (pmem s pd i) JLOS_PTE_PRESENT then Some (False, s)
                       else Some (True, store pd i ((pa AND JLOS_PAGING_LARGE_ADDR_MASK) OR ucast flags OR JLOS_PDE_PS
                              OR JLOS_PTE_PRESENT OR JLOS_PTE_WRITABLE) s))
             })
        })"

text \<open>The last level of \<open>jlos_arch_map_entry\<close>: the page table below the directory entry,
  with its number of present entries kept in the frame's page record.\<close>

definition page_table_ensure :: "nat \<Rightarrow> nat \<Rightarrow> u64 \<Rightarrow> nat \<Rightarrow> u32 \<Rightarrow> vmem \<Rightarrow> (u64 option \<times> vmem) option" where
  "page_table_ensure c ctx pd i prot s =
     (if has (pmem s pd i) JLOS_PTE_PRESENT then Some (Some (pmem s pd i AND JLOS_PAGING_ADDR_MASK), s)
      else do {
        (r, s) \<leftarrow> paging_table_alloc c s;
        (case r of
           None \<Rightarrow> Some (None, s)
         | Some pt \<Rightarrow> do {
             let s = clear_frame pt s;
             let s = store pd i (pt OR JLOS_PTE_PRESENT OR JLOS_PTE_WRITABLE OR (pte_prot prot AND JLOS_PTE_USER)) s;
             let s = set_ctx ctx (\<lambda>k. k\<lparr>num_page_tables := num_page_tables k + 1\<rparr>) s;
             s \<leftarrow> with_frames (jlos_page_frame_set_owner_type (ucast pt) 0 TYPE_PAGE_TABLE) s;
             s \<leftarrow> with_frames (Some \<circ> jlos_page_frame_pt_present_count_set (ucast pt) 0) s;
             Some (Some pt, s)
           })
      })"

definition pte_install :: "u64 \<Rightarrow> u64 \<Rightarrow> u64 \<Rightarrow> u32 \<Rightarrow> vmem \<Rightarrow> (bool \<times> vmem) option" where
  "pte_install pt va pa prot s =
     (let i = jlos_paging_get_page_table_index va
      in if has (pmem s pt i) JLOS_PTE_PRESENT then Some (False, s)
         else map_option (\<lambda>s. (True, s)) (with_frames (Some \<circ> jlos_page_frame_pt_present_count_inc (ucast pt))
                (store pt i ((pa AND JLOS_PAGING_ADDR_MASK) OR pte_prot prot) s)))"

definition jlos_arch_map_entry :: "nat \<Rightarrow> nat \<Rightarrow> u64 \<Rightarrow> u64 \<Rightarrow> u32 \<Rightarrow> vmem \<Rightarrow> (bool \<times> vmem) option" where
  "jlos_arch_map_entry c ctx va pa prot s = do {
     (ok, s) \<leftarrow> root_ensure c ctx s;
     if \<not> ok then Some (False, s)
     else do {
       let user = has (pte_prot prot) JLOS_PTE_USER;
       (l1, s) \<leftarrow> paging_level_ensure c ctx (the (root (ctxs s ctx))) (jlos_paging_get_pml4_index va) user s;
       (case l1 of
          None \<Rightarrow> Some (False, s)
        | Some pdpt \<Rightarrow> do {
            (l2, s) \<leftarrow> paging_level_ensure c ctx pdpt (jlos_paging_get_pdpt_index va) user s;
            (case l2 of
               None \<Rightarrow> Some (False, s)
             | Some pd \<Rightarrow> do {
                 (l3, s) \<leftarrow> page_table_ensure c ctx pd (jlos_paging_get_page_dir_index va) prot s;
                 (case l3 of
                    None \<Rightarrow> Some (False, s)
                  | Some pt \<Rightarrow> pte_install pt va pa prot s)
               })
          })
     }
   }"

text \<open>Releasing the last level of \<open>unmap_locked\<close>.\<close>

definition pte_release :: "nat \<Rightarrow> nat \<Rightarrow> u64 \<Rightarrow> nat \<Rightarrow> u64 \<Rightarrow> vmem \<Rightarrow> vmem option" where
  "pte_release c ctx pd di va s = do {
     let pt = pmem s pd di AND JLOS_PAGING_ADDR_MASK;
     let i = jlos_paging_get_page_table_index va;
     let pte = pmem s pt i;
     s \<leftarrow> (if has pte JLOS_PTE_PRESENT then do {
             s \<leftarrow> with_frames (jlos_page_frame_refcount_dec c (ucast (pte AND JLOS_PAGING_ADDR_MASK))) s;
             with_frames (Some \<circ> jlos_page_frame_pt_present_count_dec (ucast pt)) s
           } else Some s);
     let s = store pt i 0 s;
     if jlos_page_frame_pt_present_count_get (ucast pt) (frames s) = 0 then do {
       s \<leftarrow> with_frames (jlos_page_frame_clear_owner_type (ucast pt)) s;
       s \<leftarrow> (if va < USER_SPACE_LIMIT then with_frames (jlos_page_frame_free c (ucast pt)) s else Some s);
       let s = store pd di 0 s;
       Some (set_ctx ctx (\<lambda>k. k\<lparr>num_page_tables := num_page_tables k - 1\<rparr>) s)
     } else Some s
   }"

definition unmap_locked :: "nat \<Rightarrow> nat \<Rightarrow> u64 \<Rightarrow> vmem \<Rightarrow> (bool \<times> vmem) option" where
  "unmap_locked c ctx va s =
     (case root (ctxs s ctx) of
        None \<Rightarrow> Some (False, s)
      | Some pml4 \<Rightarrow>
          let pml4e = pmem s pml4 (jlos_paging_get_pml4_index va)
          in if \<not> has pml4e JLOS_PTE_PRESENT then Some (False, s)
             else let pdpt = pml4e AND JLOS_PAGING_ADDR_MASK;
                      pdpte = pmem s pdpt (jlos_paging_get_pdpt_index va)
                  in if \<not> has pdpte JLOS_PTE_PRESENT \<or> has pdpte JLOS_PDE_PS then Some (False, s)
                     else let pd = pdpte AND JLOS_PAGING_ADDR_MASK;
                              di = jlos_paging_get_page_dir_index va;
                              pde = pmem s pd di
                          in if \<not> has pde JLOS_PTE_PRESENT then Some (False, s)
                             else if has pde JLOS_PDE_PS then do {
                               s \<leftarrow> (if va < USER_SPACE_LIMIT
                                     then with_frames (jlos_page_frame_free_n (ucast (pde AND JLOS_PAGING_LARGE_ADDR_MASK)) 512) s
                                     else Some s);
                               Some (True, store pd di 0 s)
                             }
                             else map_option (\<lambda>s. (True, s)) (pte_release c ctx pd di va s))"

definition jlos_arch_unmap_entry :: "nat \<Rightarrow> nat \<Rightarrow> u64 \<Rightarrow> vmem \<Rightarrow> (bool \<times> vmem) option" where
  "jlos_arch_unmap_entry c ctx va s = unmap_locked c ctx va s"

text \<open>
  Mapping a range: the loop hands the number of pages mapped so far to the undo loop. It
  ends on every range that does not wrap around; the general loop is a partial function.
\<close>

fun rollback :: "nat \<Rightarrow> nat \<Rightarrow> u64 \<Rightarrow> nat \<Rightarrow> vmem \<Rightarrow> vmem option" where
  "rollback c ctx va 0 s = Some s"
| "rollback c ctx va (Suc n) s = do {
     (_, s) \<leftarrow> unmap_locked c ctx (va - 4096) s;
     rollback c ctx (va - 4096) n s
   }"

partial_function (option) map_range_loop ::
    "nat \<Rightarrow> nat \<Rightarrow> u64 \<Rightarrow> u64 \<Rightarrow> u64 \<Rightarrow> u32 \<Rightarrow> nat \<Rightarrow> vmem \<Rightarrow> (bool \<times> vmem) option" where
  "map_range_loop c ctx va pa end_addr prot done s =
     (if va < end_addr then
        Option.bind (jlos_arch_map_entry c ctx va pa prot s) (\<lambda>(ok, s).
          if ok then map_range_loop c ctx (va + 4096) (pa + 4096) end_addr prot (done + 1) s
          else map_option (\<lambda>s. (False, s)) (rollback c ctx va done s))
      else Some (True, s))"

definition jlos_arch_map_range_entry :: "nat \<Rightarrow> nat \<Rightarrow> u64 \<Rightarrow> u64 \<Rightarrow> u64 \<Rightarrow> u32 \<Rightarrow> vmem \<Rightarrow> (bool \<times> vmem) option" where
  "jlos_arch_map_range_entry c ctx va_start pa_start sz prot s = do {
     (ok, s) \<leftarrow> root_ensure c ctx s;
     if \<not> ok then Some (False, s)
     else if sz \<noteq> 0 \<and> (va_start + sz < va_start \<or> pa_start + sz < pa_start) then Some (False, s)
     else map_range_loop c ctx va_start pa_start (va_start + sz) prot 0 s
   }"

definition jlos_arch_get_phys_entry :: "nat \<Rightarrow> u64 \<Rightarrow> vmem \<Rightarrow> u64" where
  "jlos_arch_get_phys_entry ctx va s =
     (case root (ctxs s ctx) of
        None \<Rightarrow> va
      | Some pml4 \<Rightarrow>
          let pml4e = pmem s pml4 (jlos_paging_get_pml4_index va)
          in if \<not> has pml4e JLOS_PTE_PRESENT then 0
             else let pdpte = pmem s (pml4e AND JLOS_PAGING_ADDR_MASK) (jlos_paging_get_pdpt_index va)
                  in if \<not> has pdpte JLOS_PTE_PRESENT then 0
                     else let pde = pmem s (pdpte AND JLOS_PAGING_ADDR_MASK) (jlos_paging_get_page_dir_index va)
                          in if \<not> has pde JLOS_PTE_PRESENT then 0
                             else if has pde JLOS_PDE_PS
                             then (pde AND JLOS_PAGING_LARGE_ADDR_MASK) OR (va AND (JLOS_PAGING_LARGE_SIZE - 1))
                             else let pte = pmem s (pde AND JLOS_PAGING_ADDR_MASK) (jlos_paging_get_page_table_index va)
                                  in if \<not> has pte JLOS_PTE_PRESENT then 0
                                     else (pte AND JLOS_PAGING_ADDR_MASK) OR jlos_paging_get_page_offset va)"

text \<open>The bits of an entry that a change of protection keeps.\<close>

abbreviation LARGE_KEEP :: u64 where
  "LARGE_KEEP \<equiv> JLOS_PDE_PS OR JLOS_PTE_GLOBAL OR 0x1000 OR JLOS_PTE_WRITE_THROUGH OR JLOS_PTE_CACHE_DISABLE
     OR JLOS_PTE_ACCESSED OR JLOS_PTE_DIRTY"

abbreviation PTE_KEEP :: u64 where
  "PTE_KEEP \<equiv> JLOS_PTE_GLOBAL OR JLOS_PTE_DIRTY OR JLOS_PTE_CACHE_DISABLE OR JLOS_PTE_WRITE_THROUGH OR JLOS_PTE_ACCESSED"

definition jlos_arch_change_flags_entry :: "nat \<Rightarrow> u64 \<Rightarrow> u32 \<Rightarrow> vmem \<Rightarrow> vmem" where
  "jlos_arch_change_flags_entry ctx va prot s =
     (case root (ctxs s ctx) of
        None \<Rightarrow> s
      | Some pml4 \<Rightarrow>
          let i4 = jlos_paging_get_pml4_index va; pml4e = pmem s pml4 i4
          in if \<not> has pml4e JLOS_PTE_PRESENT then s
             else let pdpt = pml4e AND JLOS_PAGING_ADDR_MASK; i3 = jlos_paging_get_pdpt_index va; pdpte = pmem s pdpt i3
                  in if \<not> has pdpte JLOS_PTE_PRESENT \<or> has pdpte JLOS_PDE_PS then s
                     else let pd = pdpte AND JLOS_PAGING_ADDR_MASK; i2 = jlos_paging_get_page_dir_index va
                          in if \<not> has (pmem s pd i2) JLOS_PTE_PRESENT then s
                             else let s = (if has prot JLOS_PG_USER
                                           then let s = store pml4 i4 (pmem s pml4 i4 OR JLOS_PTE_USER) s
                                                in store pdpt i3 (pmem s pdpt i3 OR JLOS_PTE_USER) s
                                           else s);
                                      pde = pmem s pd i2
                                  in if has pde JLOS_PDE_PS
                                     then store pd i2 ((pde AND JLOS_PAGING_LARGE_ADDR_MASK) OR pte_prot prot OR (pde AND LARGE_KEEP)) s
                                     else let pt = pde AND JLOS_PAGING_ADDR_MASK; i1 = jlos_paging_get_page_table_index va;
                                              pte = pmem s pt i1
                                          in if \<not> has pte JLOS_PTE_PRESENT then s
                                             else store pt i1 ((pte AND JLOS_PAGING_ADDR_MASK) OR pte_prot prot OR (pte AND PTE_KEEP)) s)"

definition jlos_arch_need_flush_tlb :: "nat \<Rightarrow> nat \<Rightarrow> u64 \<Rightarrow> vmem \<Rightarrow> bool" where
  "jlos_arch_need_flush_tlb c ctx va s =
     (case root (ctxs s ctx) of
        None \<Rightarrow> False
      | Some r \<Rightarrow>
          if active s c = Some ctx then True
          else case active s c of
                 None \<Rightarrow> False
               | Some act \<Rightarrow>
                   (case root (ctxs s act) of
                      None \<Rightarrow> False
                    | Some r' \<Rightarrow>
                        let i = jlos_paging_get_pml4_index va; self_pml4e = pmem s r i; act_pml4e = pmem s r' i
                        in if \<not> has self_pml4e JLOS_PTE_PRESENT then False
                           else if \<not> has act_pml4e JLOS_PTE_PRESENT then False
                           else self_pml4e AND JLOS_PAGING_ADDR_MASK = act_pml4e AND JLOS_PAGING_ADDR_MASK))"

section \<open>Whole contexts\<close>

definition jlos_paging_context_init :: "nat \<Rightarrow> vmem \<Rightarrow> vmem" where
  "jlos_paging_context_init ctx s = set_ctx ctx (\<lambda>_. \<lparr>root = None, num_page_tables = 0, asid = 0\<rparr>) s"

text \<open>A loop over entries whose body may halt.\<close>

fun for_entries :: "(nat \<Rightarrow> vmem \<Rightarrow> vmem option) \<Rightarrow> nat list \<Rightarrow> vmem \<Rightarrow> vmem option" where
  "for_entries f [] s = Some s"
| "for_entries f (i # is) s = Option.bind (f i s) (for_entries f is)"

definition release_table :: "nat \<Rightarrow> u64 \<Rightarrow> vmem \<Rightarrow> vmem option" where
  "release_table c t s = do {
     s \<leftarrow> with_frames (jlos_page_frame_clear_owner_type (ucast t)) s;
     with_frames (jlos_page_frame_free c (ucast t)) s
   }"

definition destroy_pte :: "nat \<Rightarrow> u64 \<Rightarrow> nat \<Rightarrow> vmem \<Rightarrow> vmem option" where
  "destroy_pte c pt m s =
     (if has (pmem s pt m) JLOS_PTE_PRESENT
      then with_frames (jlos_page_frame_refcount_dec c (ucast (pmem s pt m AND JLOS_PAGING_ADDR_MASK))) s else Some s)"

definition destroy_pde :: "nat \<Rightarrow> u64 \<Rightarrow> nat \<Rightarrow> vmem \<Rightarrow> vmem option" where
  "destroy_pde c pd k s =
     (let pde = pmem s pd k
      in if \<not> has pde JLOS_PTE_PRESENT then Some s
         else if has pde JLOS_PDE_PS
         then with_frames (jlos_page_frame_free_n (ucast (pde AND JLOS_PAGING_LARGE_ADDR_MASK)) 512) s
         else let pt = pde AND JLOS_PAGING_ADDR_MASK
              in Option.bind (for_entries (destroy_pte c pt) [0..<512] s) (release_table c pt))"

definition destroy_pdpte :: "nat \<Rightarrow> u64 \<Rightarrow> nat \<Rightarrow> vmem \<Rightarrow> vmem option" where
  "destroy_pdpte c pdpt j s =
     (let pdpte = pmem s pdpt j
      in if \<not> has pdpte JLOS_PTE_PRESENT then Some s
         else if has pdpte JLOS_PDE_PS then Some s
         else let pd = pdpte AND JLOS_PAGING_ADDR_MASK
              in Option.bind (for_entries (destroy_pde c pd) [0..<512] s) (release_table c pd))"

definition destroy_pml4e :: "nat \<Rightarrow> u64 \<Rightarrow> nat \<Rightarrow> vmem \<Rightarrow> vmem option" where
  "destroy_pml4e c pml4 i s =
     (let pml4e = pmem s pml4 i
      in if \<not> has pml4e JLOS_PTE_PRESENT then Some s
         else let pdpt = pml4e AND JLOS_PAGING_ADDR_MASK
              in Option.bind (for_entries (destroy_pdpte c pdpt) [0..<512] s) (release_table c pdpt))"

definition jlos_hal_paging_asid_free :: "u32 \<Rightarrow> vmem \<Rightarrow> vmem" where
  "jlos_hal_paging_asid_free a s = s"

definition jlos_arch_paging_context_tables_destroy :: "nat \<Rightarrow> nat \<Rightarrow> vmem \<Rightarrow> vmem option" where
  "jlos_arch_paging_context_tables_destroy c ctx s =
     (case root (ctxs s ctx) of
        None \<Rightarrow> Some s
      | Some pml4 \<Rightarrow> do {
          let user_pml4_end = unat (drop_bit 39 USER_SPACE_LIMIT);
          s \<leftarrow> for_entries (destroy_pml4e c pml4) [0..<user_pml4_end] s;
          s \<leftarrow> with_frames (jlos_page_frame_free c (ucast pml4)) s;
          let s = jlos_hal_paging_asid_free (asid (ctxs s ctx)) s;
          Some (jlos_paging_context_init ctx s)
        })"

text \<open>Cache invalidation on other CPUs; \<open>n\<close> is the number of CPUs. The sender waits for all of them.\<close>

definition jlos_hal_paging_flush_tlb :: "nat \<Rightarrow> u64 \<Rightarrow> vmem \<Rightarrow> vmem" where
  "jlos_hal_paging_flush_tlb c va s = flush c (Flush_Page va) s"

definition jlos_hal_paging_flush_all_tlb :: "nat \<Rightarrow> vmem \<Rightarrow> vmem" where
  "jlos_hal_paging_flush_all_tlb c s = flush c Flush_All s"

definition jlos_hal_paging_tlb_shootdown :: "nat \<Rightarrow> nat \<Rightarrow> u32 \<Rightarrow> u64 \<Rightarrow> vmem \<Rightarrow> vmem" where
  "jlos_hal_paging_tlb_shootdown n c cpu_mask va s =
     fold (\<lambda>d s. if d = c \<or> \<not> has cpu_mask (push_bit d 1) then s else flush d (Flush_Page va) s) [0..<n]
       (jlos_hal_paging_flush_tlb c va s)"

definition jlos_hal_paging_tlb_shootdown_all :: "nat \<Rightarrow> nat \<Rightarrow> u64 \<Rightarrow> vmem \<Rightarrow> vmem" where
  "jlos_hal_paging_tlb_shootdown_all n c va s =
     jlos_hal_paging_tlb_shootdown n c (fold (\<lambda>d m. if d \<noteq> c then m OR push_bit d 1 else m) [0..<n] 0) va s"

definition jlos_hal_paging_flush_all_tlb_shootdown :: "nat \<Rightarrow> nat \<Rightarrow> vmem \<Rightarrow> vmem" where
  "jlos_hal_paging_flush_all_tlb_shootdown n c s =
     jlos_hal_paging_tlb_shootdown_all n c (NOT 0) (jlos_hal_paging_flush_all_tlb c s)"

definition jlos_hal_paging_asid_alloc :: "nat \<Rightarrow> nat \<Rightarrow> vmem \<Rightarrow> u32 \<times> vmem" where
  "jlos_hal_paging_asid_alloc n c s =
     (if \<not> pcide_enabled s then (0, s)
      else let pcid = next_pcid s; s = s\<lparr>next_pcid := next_pcid s + 1\<rparr>
           in if 0xFFF < next_pcid s
              then (pcid, jlos_hal_paging_flush_all_tlb_shootdown n c (s\<lparr>next_pcid := 1\<rparr>))
              else (pcid, s))"

definition jlos_arch_paging_context_tables_clone :: "nat \<Rightarrow> nat \<Rightarrow> nat \<Rightarrow> nat \<Rightarrow> vmem \<Rightarrow> vmem option" where
  "jlos_arch_paging_context_tables_clone n c dst src s = do {
     let s = jlos_paging_context_init dst s;
     (r, s) \<leftarrow> frame_malloc c s;
     let s = set_ctx dst (\<lambda>k. k\<lparr>root := r\<rparr>) s;
     (case r of
        None \<Rightarrow> Some s
      | Some t \<Rightarrow>
          let s = clear_frame t s
          in case root (ctxs s src) of
               None \<Rightarrow> Some s
             | Some r' \<Rightarrow>
                 let s = set_ctx dst (\<lambda>k. k\<lparr>num_page_tables := 0\<rparr>) s;
                     s = fold (\<lambda>i s. if has (pmem s r' i) JLOS_PTE_PRESENT then store t i (pmem s r' i) s else s)
                           [jlos_paging_get_pml4_index KERNEL_DIRECT_MAP_BASE..<512] s;
                     (a, s) = jlos_hal_paging_asid_alloc n c s
                 in Some (set_ctx dst (\<lambda>k. k\<lparr>asid := a\<rparr>) s))
   }"

section \<open>Single entries\<close>

definition jlos_arch_pte_present :: "nat \<Rightarrow> u64 \<Rightarrow> vmem \<Rightarrow> bool" where
  "jlos_arch_pte_present ctx va s =
     (case pte_walk ctx va s of None \<Rightarrow> False | Some (t, i) \<Rightarrow> has (pmem s t i) JLOS_PTE_PRESENT)"

definition jlos_arch_pte_phys :: "nat \<Rightarrow> u64 \<Rightarrow> vmem \<Rightarrow> u64" where
  "jlos_arch_pte_phys ctx va s =
     (case pte_walk ctx va s of
        None \<Rightarrow> 0
      | Some (t, i) \<Rightarrow> if \<not> has (pmem s t i) JLOS_PTE_PRESENT then 0 else pmem s t i AND JLOS_PAGING_ADDR_MASK)"

definition jlos_arch_pte_set :: "nat \<Rightarrow> u64 \<Rightarrow> u64 \<Rightarrow> u32 \<Rightarrow> vmem \<Rightarrow> vmem" where
  "jlos_arch_pte_set ctx va pa prot s =
     (case pte_walk ctx va s of None \<Rightarrow> s | Some (t, i) \<Rightarrow> store t i ((pa AND JLOS_PAGING_ADDR_MASK) OR pte_prot prot) s)"

definition jlos_arch_pte_set_rw :: "nat \<Rightarrow> u64 \<Rightarrow> vmem \<Rightarrow> vmem" where
  "jlos_arch_pte_set_rw ctx va s =
     (case pte_walk ctx va s of
        None \<Rightarrow> s
      | Some (t, i) \<Rightarrow> if has (pmem s t i) JLOS_PTE_PRESENT then store t i (pmem s t i OR JLOS_PTE_WRITABLE) s else s)"

definition jlos_arch_pte_make_ro :: "nat \<Rightarrow> u64 \<Rightarrow> vmem \<Rightarrow> vmem" where
  "jlos_arch_pte_make_ro ctx va s =
     (case pte_walk ctx va s of None \<Rightarrow> s | Some (t, i) \<Rightarrow> store t i (pmem s t i AND NOT JLOS_PTE_WRITABLE) s)"

definition jlos_arch_pte_replace :: "nat \<Rightarrow> u64 \<Rightarrow> u64 \<Rightarrow> u32 \<Rightarrow> vmem \<Rightarrow> bool \<times> vmem" where
  "jlos_arch_pte_replace ctx va pa prot s =
     (case pte_walk ctx va s of
        None \<Rightarrow> (False, s)
      | Some (t, i) \<Rightarrow>
          if \<not> has (pmem s t i) JLOS_PTE_PRESENT then (False, s)
          else (True, store t i ((pa AND JLOS_PAGING_ADDR_MASK) OR pte_prot prot) s))"

text \<open>The protection that an entry grants, read back.\<close>

definition prot_of :: "u64 \<Rightarrow> u32" where
  "prot_of pte =
     (let prot = JLOS_PG_READ;
          prot = (if has pte JLOS_PTE_WRITABLE then prot OR JLOS_PG_WRITE else prot);
          prot = (if has pte JLOS_PTE_USER then prot OR JLOS_PG_USER else prot);
          prot = (if has pte JLOS_PTE_GLOBAL then prot OR JLOS_PG_GLOBAL else prot)
      in if \<not> has pte JLOS_PTE_NX then prot OR JLOS_PG_EXEC else prot)"

definition jlos_arch_pte_get_prot :: "nat \<Rightarrow> u64 \<Rightarrow> vmem \<Rightarrow> u32" where
  "jlos_arch_pte_get_prot ctx va s =
     (case pte_walk ctx va s of
        None \<Rightarrow> 0
      | Some (t, i) \<Rightarrow> if \<not> has (pmem s t i) JLOS_PTE_PRESENT then 0 else prot_of (pmem s t i))"

text \<open>The number of pages that \<open>jlos_arch_paging_print_states\<close> reports.\<close>

definition mapped_pages :: "nat \<Rightarrow> vmem \<Rightarrow> u32" where
  "mapped_pages ctx s =
     (case root (ctxs s ctx) of
        None \<Rightarrow> 0
      | Some pml4 \<Rightarrow>
          fold (\<lambda>i n. let pml4e = pmem s pml4 i
                      in if \<not> has pml4e JLOS_PTE_PRESENT then n
                         else fold (\<lambda>j n. let pdpte = pmem s (pml4e AND JLOS_PAGING_ADDR_MASK) j
                                in if \<not> has pdpte JLOS_PTE_PRESENT then n
                                   else if has pdpte JLOS_PDE_PS then n
                                   else fold (\<lambda>k n. let pde = pmem s (pdpte AND JLOS_PAGING_ADDR_MASK) k
                                          in if \<not> has pde JLOS_PTE_PRESENT then n
                                             else if has pde JLOS_PDE_PS then n + 512
                                             else n + jlos_page_frame_pt_present_count_get (ucast (pde AND JLOS_PAGING_ADDR_MASK)) (frames s))
                                     [0..<512] n)
                           [0..<512] n)
            [0..<512] 0)"

section \<open>The architecture-independent layer\<close>

definition jlos_paging_map :: "nat \<Rightarrow> nat \<Rightarrow> u64 \<Rightarrow> u64 \<Rightarrow> u32 \<Rightarrow> vmem \<Rightarrow> (bool \<times> vmem) option" where
  "jlos_paging_map c ctx va pa prot s = do {
     (ret, s) \<leftarrow> jlos_arch_map_entry c ctx va pa prot s;
     Some (ret, if ret \<and> active s c = Some ctx then jlos_hal_paging_flush_tlb c va s else s)
   }"

partial_function (option) flush_loop :: "nat \<Rightarrow> u64 \<Rightarrow> u64 \<Rightarrow> vmem \<Rightarrow> vmem option" where
  "flush_loop c va end_addr s =
     (if va < end_addr then flush_loop c (va + 4096) end_addr (jlos_hal_paging_flush_tlb c va s) else Some s)"

definition jlos_paging_map_range :: "nat \<Rightarrow> nat \<Rightarrow> u64 \<Rightarrow> u64 \<Rightarrow> u64 \<Rightarrow> u32 \<Rightarrow> vmem \<Rightarrow> (bool \<times> vmem) option" where
  "jlos_paging_map_range c ctx va pa sz prot s = do {
     (ret, s) \<leftarrow> jlos_arch_map_range_entry c ctx va pa sz prot s;
     if ret \<and> active s c = Some ctx then
       (let num_pages = (ucast (JLOS_EXCEPT_CEIL sz 4096) :: u32)
        in if num_pages < 32 then map_option (\<lambda>s. (ret, s)) (flush_loop c va (va + sz) s)
           else Some (ret, jlos_hal_paging_flush_all_tlb c s))
     else Some (ret, s)
   }"

definition jlos_paging_unmap :: "nat \<Rightarrow> nat \<Rightarrow> u64 \<Rightarrow> vmem \<Rightarrow> (bool \<times> vmem) option" where
  "jlos_paging_unmap c ctx va s =
     (if root (ctxs s ctx) = None then Some (False, s)
      else do {
        (ret, s) \<leftarrow> jlos_arch_unmap_entry c ctx va s;
        Some (ret, if ret \<and> active s c = Some ctx then jlos_hal_paging_flush_tlb c va s else s)
      })"

definition jlos_paging_get_physical_addr :: "nat \<Rightarrow> u64 \<Rightarrow> vmem \<Rightarrow> u64" where
  "jlos_paging_get_physical_addr ctx va s =
     (if root (ctxs s ctx) = None then va else jlos_arch_get_phys_entry ctx va s)"

definition jlos_paging_change_flags :: "nat \<Rightarrow> nat \<Rightarrow> u64 \<Rightarrow> u32 \<Rightarrow> vmem \<Rightarrow> vmem" where
  "jlos_paging_change_flags c ctx va prot s =
     (if root (ctxs s ctx) = None then s
      else let s = jlos_arch_change_flags_entry ctx va prot s
           in if jlos_arch_need_flush_tlb c ctx va s then jlos_hal_paging_flush_tlb c va s else s)"

partial_function (option) change_flags_loop ::
    "nat \<Rightarrow> nat \<Rightarrow> bool \<Rightarrow> u64 \<Rightarrow> u64 \<Rightarrow> u32 \<Rightarrow> bool \<Rightarrow> vmem \<Rightarrow> (bool \<times> vmem) option" where
  "change_flags_loop c ctx flush_one addr end_addr prot need_flush_all s =
     (if addr < end_addr then
        let s = jlos_arch_change_flags_entry ctx addr prot s
        in if jlos_arch_need_flush_tlb c ctx addr s then
             (if flush_one then change_flags_loop c ctx flush_one (addr + 4096) end_addr prot need_flush_all
                                  (jlos_hal_paging_flush_tlb c addr s)
              else change_flags_loop c ctx flush_one (addr + 4096) end_addr prot True s)
           else change_flags_loop c ctx flush_one (addr + 4096) end_addr prot need_flush_all s
      else Some (need_flush_all, s))"

definition jlos_paging_change_flags_range :: "nat \<Rightarrow> nat \<Rightarrow> u64 \<Rightarrow> u64 \<Rightarrow> u32 \<Rightarrow> vmem \<Rightarrow> vmem option" where
  "jlos_paging_change_flags_range c ctx va_start va_end prot s =
     (if root (ctxs s ctx) = None \<or> va_end \<le> va_start then Some s
      else do {
        let start = JLOS_PAGE_ALIGN_DOWN va_start;
        let page_num = (ucast ((va_end - start) div 4096) :: u32);
        (need_flush_all, s) \<leftarrow> change_flags_loop c ctx (page_num < 32) start va_end prot False s;
        Some (if need_flush_all then jlos_hal_paging_flush_all_tlb c s else s)
      })"

text \<open>Sharing a range copy-on-write. The outcome of the mapping in the child is not looked at.\<close>

definition cow_page :: "nat \<Rightarrow> nat \<Rightarrow> nat \<Rightarrow> u64 \<Rightarrow> vmem \<Rightarrow> vmem option" where
  "cow_page c src dst va s =
     (if \<not> jlos_arch_pte_present src va s then Some s
      else do {
        let phys = jlos_arch_pte_phys src va s;
        let src_prot = jlos_arch_pte_get_prot src va s;
        s \<leftarrow> with_frames (jlos_page_frame_refcount_inc (ucast phys)) s;
        (_, s) \<leftarrow> jlos_arch_map_entry c dst va phys (src_prot AND NOT JLOS_PG_WRITE) s;
        Some (jlos_arch_pte_make_ro src va s)
      })"

partial_function (option) cow_loop :: "nat \<Rightarrow> nat \<Rightarrow> nat \<Rightarrow> u64 \<Rightarrow> u64 \<Rightarrow> vmem \<Rightarrow> vmem option" where
  "cow_loop c src dst va end_addr s =
     (if va < end_addr then Option.bind (cow_page c src dst va s) (cow_loop c src dst (va + 4096) end_addr)
      else Some s)"

partial_function (option) cow_flush_loop :: "nat \<Rightarrow> nat \<Rightarrow> nat \<Rightarrow> u64 \<Rightarrow> u64 \<Rightarrow> vmem \<Rightarrow> vmem option" where
  "cow_flush_loop n c src va end_addr s =
     (if va < end_addr
      then cow_flush_loop n c src (va + 4096) end_addr
             (if jlos_arch_pte_present src va s then jlos_hal_paging_tlb_shootdown_all n c va s else s)
      else Some s)"

definition jlos_paging_cow_range :: "nat \<Rightarrow> nat \<Rightarrow> nat \<Rightarrow> nat \<Rightarrow> u64 \<Rightarrow> u64 \<Rightarrow> vmem \<Rightarrow> (bool \<times> vmem) option" where
  "jlos_paging_cow_range n c src dst start end_addr s =
     (if root (ctxs s src) = None \<or> end_addr \<le> start \<or> src = dst then Some (False, s)
      else do {
        let start = JLOS_PAGE_ALIGN_DOWN start;
        let end_addr = JLOS_PAGE_ALIGN_UP end_addr;
        s \<leftarrow> cow_loop c src dst start end_addr s;
        s \<leftarrow> cow_flush_loop n c src start end_addr s;
        Some (True, s)
      })"

text \<open>Turning paging on and switching the address space; both need a root table.\<close>

definition jlos_paging_enable :: "nat \<Rightarrow> nat \<Rightarrow> vmem \<Rightarrow> vmem option" where
  "jlos_paging_enable c ctx s =
     map_option (\<lambda>r. s\<lparr>active := (active s)(c := Some ctx), cr3 := (cr3 s)(c := r)\<rparr>) (root (ctxs s ctx))"

definition jlos_paging_switch :: "nat \<Rightarrow> nat \<Rightarrow> vmem \<Rightarrow> vmem option" where
  "jlos_paging_switch c ctx s =
     map_option (\<lambda>r. s\<lparr>active := (active s)(c := Some ctx),
         cr3 := (cr3 s)(c := (if pcide_enabled s then r OR (ucast (asid (ctxs s ctx)) AND 0xFFF) else r))\<rparr>)
       (root (ctxs s ctx))"

definition jlos_paging_is_user_accessible :: "nat \<Rightarrow> u64 \<Rightarrow> u32 \<Rightarrow> vmem \<Rightarrow> bool" where
  "jlos_paging_is_user_accessible ctx va len s =
     (if root (ctxs s ctx) = None then False
      else if USER_SPACE_LIMIT \<le> va \<or> USER_SPACE_LIMIT < va + ucast len then False
      else True)"

section \<open>The kernel's own tables\<close>

record kernel_image =
  physical_memory_end :: u64
  boot_end_phys :: u64
  kernel_end_phys :: u64
  text_start :: u64
  text_end :: u64
  data_start :: u64
  data_end :: u64
  bss_start :: u64
  bss_end :: u64

partial_function (option) map_large_loop :: "nat \<Rightarrow> nat \<Rightarrow> u64 \<Rightarrow> u64 \<Rightarrow> vmem \<Rightarrow> vmem option" where
  "map_large_loop c ctx pa map_size s =
     (if pa < map_size then
        Option.bind (root_ensure c ctx s) (\<lambda>(ok, s).
          if \<not> ok then Some s
          else Option.bind (map_large_locked c ctx (KERNEL_DIRECT_MAP_BASE + pa) pa 0x100 s) (\<lambda>(_, s).
            map_large_loop c ctx (pa + JLOS_PAGING_LARGE_SIZE) map_size s))
      else Some s)"

text \<open>The control registers are not part of the model; what remains of the call is the PCID switch.\<close>

definition jlos_hal_paging_enable_global_pages :: "bool \<Rightarrow> vmem \<Rightarrow> vmem" where
  "jlos_hal_paging_enable_global_pages cpu_has_pcid s = (if cpu_has_pcid then s\<lparr>pcide_enabled := True\<rparr> else s)"

definition jlos_arch_paging_initialize_kernel :: "bool \<Rightarrow> nat \<Rightarrow> nat \<Rightarrow> u32 \<Rightarrow> kernel_image \<Rightarrow> vmem \<Rightarrow> vmem option" where
  "jlos_arch_paging_initialize_kernel cpu_has_pcid c ctx heap k s = do {
     let s = s\<lparr>boot_heap := Some heap\<rparr>;
     let s = jlos_paging_context_init ctx s;
     let map_size = physical_memory_end k;
     let map_size = (if KERNEL_DIRECT_MAP_SIZE < map_size then KERNEL_DIRECT_MAP_SIZE else map_size);
     let huge_start = JLOS_ALIGN_UP (boot_end_phys k) JLOS_PAGING_LARGE_SIZE;
     let huge_start = (if map_size < huge_start then map_size else huge_start);
     (_, s) \<leftarrow> (if kernel_end_phys k \<noteq> 0
                then jlos_paging_map_range c ctx KERNEL_VIRTUAL_BASE 0 (kernel_end_phys k) (JLOS_PG_READ OR JLOS_PG_WRITE OR JLOS_PG_GLOBAL) s
                else Some (True, s));
     (_, s) \<leftarrow> (if huge_start \<noteq> 0
                then jlos_paging_map_range c ctx KERNEL_DIRECT_MAP_BASE 0 huge_start (JLOS_PG_READ OR JLOS_PG_WRITE OR JLOS_PG_GLOBAL) s
                else Some (True, s));
     s \<leftarrow> (if text_start k \<noteq> 0 then do {
             s \<leftarrow> jlos_paging_change_flags_range c ctx (text_start k) (text_end k) (JLOS_PG_READ OR JLOS_PG_EXEC) s;
             s \<leftarrow> jlos_paging_change_flags_range c ctx (data_start k) (data_end k) (JLOS_PG_READ OR JLOS_PG_WRITE) s;
             jlos_paging_change_flags_range c ctx (bss_start k) (bss_end k) (JLOS_PG_READ OR JLOS_PG_WRITE) s
           } else Some s);
     s \<leftarrow> map_large_loop c ctx huge_start map_size s;
     s \<leftarrow> jlos_paging_enable c ctx s;
     let s = jlos_hal_paging_enable_global_pages cpu_has_pcid s;
     Some (s\<lparr>boot_heap := None\<rparr>)
   }"

end
