(* ===== verification/Heap.thy ===== *)
theory Heap
  imports Paging
begin

text \<open>
  The chunk heap of \<open>kernel/memory_manager.c\<close>. A manager owns a range of addresses that its chunks
  tile in the order of the list \<open>chunk_head\<close>; each chunk starts with a header of 48 bytes that holds
  its size and whether it is allocated. Free chunks also hang on one list per size class, and a
  bitmap says which of these lists are not empty. The headers live in the managed memory: the
  model keeps them in \<open>hdr\<close>, by the address of the chunk.

  The 64-bit configuration is modelled: sizes and addresses are 64-bit words.
\<close>

section \<open>Managers and size classes\<close>

record jlos_memory_chunk =
  allocated :: bool
  csize :: u64

record jlos_memory_manager =
  mm_addr :: u64
  chunk_head :: "u64 list"
  mm_tail :: "u64 option"
  heap_start :: u64
  heap_end :: u64
  heap_current :: u64
  size_bitmap :: u32
  max_class :: nat
  class_head :: "nat \<Rightarrow> u64 list"
  hdr :: "u64 \<Rightarrow> jlos_memory_chunk"

abbreviation JLOS_MM_MIN_ALLOC :: u64 where "JLOS_MM_MIN_ALLOC \<equiv> 16"
abbreviation JLOS_MM_CLASS_COUNT :: nat where "JLOS_MM_CLASS_COUNT \<equiv> 32"
abbreviation CHUNK_HDR :: u64 where "CHUNK_HDR \<equiv> 48"
abbreviation KERNEL_HEAP_VIRT_BASE :: u64 where "KERNEL_HEAP_VIRT_BASE \<equiv> 0xFFFFFFFF00000000"
abbreviation JLOS_PG_KERNEL_RW :: u32 where "JLOS_PG_KERNEL_RW \<equiv> JLOS_PG_READ OR JLOS_PG_WRITE"

definition set_hdr :: "u64 \<Rightarrow> (jlos_memory_chunk \<Rightarrow> jlos_memory_chunk) \<Rightarrow> jlos_memory_manager \<Rightarrow> jlos_memory_manager" where
  "set_hdr c u m = m\<lparr>hdr := (hdr m)(c := u (hdr m c))\<rparr>"

text \<open>
  The class of a size. The bit count looks at the low 32 bits of the size: it is undefined
  for 0, and a size above 4 GiB can give a negative class, which no list has.
\<close>

definition mm_size_to_class :: "u64 \<Rightarrow> nat \<Rightarrow> nat option" where
  "mm_size_to_class sz maxc =
     (if sz \<le> JLOS_MM_MIN_ALLOC then Some 0
      else let x = ucast (sz - 1) :: u32;
               cls = int JLOS_MM_CLASS_COUNT - int (builtin_clz x) - 4
           in if x = 0 \<or> cls < 0 then None
              else Some (if int maxc < cls then maxc else nat cls))"

definition mm_class_add :: "nat \<Rightarrow> u64 \<Rightarrow> jlos_memory_manager \<Rightarrow> jlos_memory_manager" where
  "mm_class_add cls chunk m =
     m\<lparr>class_head := (class_head m)(cls := chunk # class_head m cls),
       size_bitmap := size_bitmap m OR push_bit cls 1\<rparr>"

definition clear_if_empty :: "nat \<Rightarrow> jlos_memory_manager \<Rightarrow> jlos_memory_manager" where
  "clear_if_empty cls m =
     (if class_head m cls = [] then m\<lparr>size_bitmap := size_bitmap m AND NOT (push_bit cls 1)\<rparr> else m)"

definition mm_class_remove_head :: "nat \<Rightarrow> jlos_memory_manager \<Rightarrow> u64 option \<times> jlos_memory_manager" where
  "mm_class_remove_head cls m =
     (case class_head m cls of
        [] \<Rightarrow> (None, m)
      | chunk # rest \<Rightarrow> (Some chunk, clear_if_empty cls (m\<lparr>class_head := (class_head m)(cls := rest)\<rparr>)))"

text \<open>The chunk leaves the list it is linked into, whichever that is; the bit of \<open>cls\<close> is looked at.\<close>

definition mm_class_remove_chunk :: "nat \<Rightarrow> u64 \<Rightarrow> jlos_memory_manager \<Rightarrow> jlos_memory_manager" where
  "mm_class_remove_chunk cls chunk m =
     clear_if_empty cls (m\<lparr>class_head := (\<lambda>k. removeAll chunk (class_head m k))\<rparr>)"

definition mm_bitmap_find :: "nat \<Rightarrow> jlos_memory_manager \<Rightarrow> nat option" where
  "mm_bitmap_find min_class m =
     (let mask = (if 32 \<le> min_class then 0xFFFFFFFF else push_bit min_class (NOT 0));
          masked = size_bitmap m AND mask
      in if masked = 0 then None else Some (builtin_ctz masked))"

section \<open>Initialisation\<close>

fun max_class_loop :: "nat \<Rightarrow> nat \<Rightarrow> u64 \<Rightarrow> u64 \<Rightarrow> nat" where
  "max_class_loop 0 max_cls s max_alloc = max_cls"
| "max_class_loop (Suc n) max_cls s max_alloc =
     (if s < max_alloc then max_class_loop n (Suc max_cls) (push_bit 1 s) max_alloc else max_cls)"

definition mm_init :: "u64 \<Rightarrow> u64 \<Rightarrow> jlos_memory_manager \<Rightarrow> jlos_memory_manager option" where
  "mm_init start sz m =
     (let m = m\<lparr>heap_start := start, heap_end := start + sz, heap_current := start + sz, size_bitmap := 0,
                mm_tail := None, chunk_head := [],
                max_class := max_class_loop (JLOS_MM_CLASS_COUNT - 1) 0 JLOS_MM_MIN_ALLOC (sz - CHUNK_HDR),
                class_head := (\<lambda>_. [])\<rparr>
      in if CHUNK_HDR \<le> sz then
           let m = set_hdr start (\<lambda>c. c\<lparr>allocated := False, csize := sz - CHUNK_HDR\<rparr>) m;
               m = m\<lparr>chunk_head := [start], mm_tail := Some start\<rparr>
           in map_option (\<lambda>cls. mm_class_add cls start m) (mm_size_to_class (sz - CHUNK_HDR) (max_class m))
         else Some m)"

section \<open>Growing the heap\<close>

text \<open>The frames of a new piece of heap get their owner and one more reference each.\<close>

fun own_frames :: "u64 \<Rightarrow> u64 \<Rightarrow> nat \<Rightarrow> vmem \<Rightarrow> vmem option" where
  "own_frames own phys 0 v = Some v"
| "own_frames own phys (Suc n) v = do {
     v \<leftarrow> with_frames (jlos_page_frame_set_owner_type (ucast phys) own TYPE_KV_HEAP) v;
     v \<leftarrow> with_frames (jlos_page_frame_refcount_inc (ucast phys)) v;
     own_frames own (phys + 4096) n v
   }"

definition heap_frames :: "nat \<Rightarrow> u64 \<Rightarrow> u64 \<Rightarrow> jlos_memory_manager \<Rightarrow> vmem \<Rightarrow> (bool \<times> vmem) option" where
  "heap_frames c own pages m v =
     (case active v c of
        None \<Rightarrow> Some (False, v)
      | Some ctx \<Rightarrow> do {
          (fr, r) \<leftarrow> jlos_page_frame_alloc_n (unat (ucast pages :: u32)) (frames v);
          let v = v\<lparr>frames := fr\<rparr>;
          (case r of
             None \<Rightarrow> Some (False, v)
           | Some phys \<Rightarrow> do {
               (ok, v) \<leftarrow> jlos_paging_map_range c ctx (heap_current m) (ucast phys) (pages * 4096) JLOS_PG_KERNEL_RW v;
               if ok then map_option (\<lambda>v. (True, v)) (own_frames own (ucast phys) (unat pages) v)
               else map_option (\<lambda>v. (False, v)) (with_frames (jlos_page_frame_free_n phys (unat (ucast pages :: u32))) v)
             })
        })"

text \<open>The new piece joins a free last chunk or becomes the last chunk.\<close>

definition heap_append :: "u64 \<Rightarrow> jlos_memory_manager \<Rightarrow> (u64 \<times> jlos_memory_manager) option" where
  "heap_append new_chunk_size m = do {
     let new_chunk = heap_current m;
     let m = set_hdr new_chunk (\<lambda>_. \<lparr>allocated = False, csize = new_chunk_size - CHUNK_HDR\<rparr>) m;
     (chunk, m) \<leftarrow> (case mm_tail m of
        Some t \<Rightarrow>
          if \<not> allocated (hdr m t) then do {
            tcls \<leftarrow> mm_size_to_class (csize (hdr m t)) (max_class m);
            let m = mm_class_remove_chunk tcls t m;
            Some (t, set_hdr t (\<lambda>c. c\<lparr>csize := csize c + (csize (hdr m new_chunk) + CHUNK_HDR)\<rparr>) m)
          } else Some (new_chunk, m\<lparr>chunk_head := chunk_head m @ [new_chunk], mm_tail := Some new_chunk\<rparr>)
      | None \<Rightarrow> Some (new_chunk, m\<lparr>chunk_head := chunk_head m @ [new_chunk], mm_tail := Some new_chunk\<rparr>));
     cls \<leftarrow> mm_size_to_class (csize (hdr m chunk)) (max_class m);
     let m = mm_class_add cls chunk m;
     Some (chunk, m\<lparr>heap_current := heap_current m + new_chunk_size\<rparr>)
   }"

definition jlos_memory_manager_expand_heap ::
    "nat \<Rightarrow> u64 \<Rightarrow> u64 \<Rightarrow> jlos_memory_manager \<Rightarrow> vmem \<Rightarrow> (u64 option \<times> jlos_memory_manager \<times> vmem) option" where
  "jlos_memory_manager_expand_heap c own sz m v = do {
     let pages = (sz + 4096 - 1) div 4096;
     (ok, v) \<leftarrow> heap_frames c own pages m v;
     if ok then map_option (\<lambda>(chunk, m). (Some chunk, m, v)) (heap_append (pages * 4096) m)
     else Some (None, m, v)
   }"

section \<open>Allocation\<close>

fun insert_after :: "u64 \<Rightarrow> u64 \<Rightarrow> u64 list \<Rightarrow> u64 list" where
  "insert_after c new [] = []"
| "insert_after c new (x # xs) = (if x = c then x # new # xs else x # insert_after c new xs)"

text \<open>The first critical section of \<open>jlos_memory_manager_malloc\<close>: a chunk of a large enough class.\<close>

definition malloc_take :: "u64 \<Rightarrow> jlos_memory_manager \<Rightarrow> (u64 option \<times> jlos_memory_manager) option" where
  "malloc_take sz m =
     map_option (\<lambda>target. case mm_bitmap_find target m of None \<Rightarrow> (None, m) | Some cls \<Rightarrow> mm_class_remove_head cls m)
       (mm_size_to_class sz (max_class m))"

text \<open>After the heap has grown: the new chunk leaves its class list.\<close>

definition malloc_claim :: "u64 \<Rightarrow> jlos_memory_manager \<Rightarrow> jlos_memory_manager option" where
  "malloc_claim chunk m =
     map_option (\<lambda>cls. mm_class_remove_chunk cls chunk m) (mm_size_to_class (csize (hdr m chunk)) (max_class m))"

text \<open>The rest of a chunk that is larger than needed becomes a chunk of its own.\<close>

definition malloc_split :: "u64 \<Rightarrow> u64 \<Rightarrow> jlos_memory_manager \<Rightarrow> jlos_memory_manager option" where
  "malloc_split result sz m = do {
     m \<leftarrow> (if sz + CHUNK_HDR + JLOS_MM_MIN_ALLOC \<le> csize (hdr m result) then do {
             let temp = result + CHUNK_HDR + sz;
             let m = set_hdr temp (\<lambda>_. \<lparr>allocated = False, csize = csize (hdr m result) - sz - CHUNK_HDR\<rparr>) m;
             let m = m\<lparr>chunk_head := insert_after result temp (chunk_head m)\<rparr>;
             let m = set_hdr result (\<lambda>c. c\<lparr>csize := sz\<rparr>) m;
             let m = (if mm_tail m = Some result then m\<lparr>mm_tail := Some temp\<rparr> else m);
             tcls \<leftarrow> mm_size_to_class (csize (hdr m temp)) (max_class m);
             Some (mm_class_add tcls temp m)
           } else Some m);
     Some (set_hdr result (\<lambda>c. c\<lparr>allocated := True\<rparr>) m)
   }"

definition jlos_memory_manager_malloc ::
    "nat \<Rightarrow> u64 \<Rightarrow> u64 \<Rightarrow> jlos_memory_manager \<Rightarrow> vmem \<Rightarrow> (u64 option \<times> jlos_memory_manager \<times> vmem) option" where
  "jlos_memory_manager_malloc c own sz m v = do {
     let sz = (if sz < JLOS_MM_MIN_ALLOC then JLOS_MM_MIN_ALLOC else sz);
     (r, m) \<leftarrow> malloc_take sz m;
     (case r of
        Some result \<Rightarrow> map_option (\<lambda>m. (Some (result + CHUNK_HDR), m, v)) (malloc_split result sz m)
      | None \<Rightarrow> do {
          (r, m, v) \<leftarrow> jlos_memory_manager_expand_heap c own sz m v;
          (case r of
             None \<Rightarrow> Some (None, m, v)
           | Some result \<Rightarrow> do {
               m \<leftarrow> malloc_claim result m;
               map_option (\<lambda>m. (Some (result + CHUNK_HDR), m, v)) (malloc_split result sz m)
             })
        })
   }"

section \<open>Release\<close>

text \<open>The neighbours of a chunk on the list.\<close>

fun chunk_before :: "u64 \<Rightarrow> u64 list \<Rightarrow> u64 option" where
  "chunk_before c (x # y # zs) = (if y = c then Some x else chunk_before c (y # zs))"
| "chunk_before c _ = None"

fun chunk_after :: "u64 \<Rightarrow> u64 list \<Rightarrow> u64 option" where
  "chunk_after c (x # y # zs) = (if x = c then Some y else chunk_after c (y # zs))"
| "chunk_after c _ = None"

text \<open>\<open>next\<close> follows \<open>chunk\<close> and is swallowed by it; \<open>free\<close> is the one of the two that was free already.\<close>

definition merge_chunks :: "u64 \<Rightarrow> u64 \<Rightarrow> u64 \<Rightarrow> jlos_memory_manager \<Rightarrow> jlos_memory_manager option" where
  "merge_chunks free chunk next m = do {
     cls \<leftarrow> mm_size_to_class (csize (hdr m free)) (max_class m);
     let m = mm_class_remove_chunk cls free m;
     let m = set_hdr chunk (\<lambda>c. c\<lparr>csize := csize c + (csize (hdr m next) + CHUNK_HDR)\<rparr>) m;
     let m = m\<lparr>chunk_head := removeAll next (chunk_head m)\<rparr>;
     Some (if mm_tail m = Some next then m\<lparr>mm_tail := Some chunk\<rparr> else m)
   }"

definition merge_before :: "u64 \<Rightarrow> jlos_memory_manager \<Rightarrow> (u64 \<times> jlos_memory_manager) option" where
  "merge_before chunk m =
     (case chunk_before chunk (chunk_head m) of
        Some prev \<Rightarrow> if allocated (hdr m prev) then Some (chunk, m)
                     else map_option (\<lambda>m. (prev, m)) (merge_chunks prev prev chunk m)
      | None \<Rightarrow> Some (chunk, m))"

definition merge_after :: "u64 \<Rightarrow> jlos_memory_manager \<Rightarrow> jlos_memory_manager option" where
  "merge_after chunk m =
     (case chunk_after chunk (chunk_head m) of
        Some next \<Rightarrow> if allocated (hdr m next) then Some m else merge_chunks next chunk next m
      | None \<Rightarrow> Some m)"

text \<open>A pointer into the heap that is no chunk makes the code read a header that is not there.\<close>

definition jlos_memory_manager_free :: "u64 \<Rightarrow> jlos_memory_manager \<Rightarrow> jlos_memory_manager option" where
  "jlos_memory_manager_free ptr m =
     (if ptr = 0 then Some m
      else if ptr < heap_start m \<or> heap_current m \<le> ptr then Some m
      else let chunk = ptr - CHUNK_HDR
           in if chunk \<notin> set (chunk_head m) then None
              else do {
                let m = set_hdr chunk (\<lambda>c. c\<lparr>allocated := False\<rparr>) m;
                (chunk, m) \<leftarrow> merge_before chunk m;
                m \<leftarrow> merge_after chunk m;
                cls \<leftarrow> mm_size_to_class (csize (hdr m chunk)) (max_class m);
                Some (mm_class_add cls chunk m)
              })"

end
