(* ===== verification/Paging_Inv.thy ===== *)
theory Paging_Inv
  imports Paging
begin

text \<open>
  The tree of page tables of a context. \<open>node\<close> finds the table that a path of indices leads
  to; a context is well formed when no table is reached twice, every table is a frame in
  use, and no mapped page is a table. Every change of an entry is described by what it does
  to \<open>node\<close>, from which the view that the read operations give follows.
\<close>

section \<open>Bits of an entry\<close>

lemma has_bits [simp]:
  fixes e :: "'a::len word"
  shows "has e 1 \<longleftrightarrow> bit e 0" "has e 2 \<longleftrightarrow> bit e 1" "has e 4 \<longleftrightarrow> bit e 2" "has e 8 \<longleftrightarrow> bit e 3"
    "has e 0x10 \<longleftrightarrow> bit e 4" "has e 0x20 \<longleftrightarrow> bit e 5" "has e 0x40 \<longleftrightarrow> bit e 6" "has e 0x80 \<longleftrightarrow> bit e 7" "has e 0x100 \<longleftrightarrow> bit e 8"
    "has e 0x8000000000000000 \<longleftrightarrow> bit e 63"
  using and_exp_eq_0_iff_not_bit [of e 0] and_exp_eq_0_iff_not_bit [of e 1] and_exp_eq_0_iff_not_bit [of e 2]
    and_exp_eq_0_iff_not_bit [of e 3] and_exp_eq_0_iff_not_bit [of e 4] and_exp_eq_0_iff_not_bit [of e 5]
    and_exp_eq_0_iff_not_bit [of e 6] and_exp_eq_0_iff_not_bit [of e 7] and_exp_eq_0_iff_not_bit [of e 8]
    and_exp_eq_0_iff_not_bit [of e 63]
  by (simp_all add: has_def)

declare bit_numeral_word_iff [simp del]

lemma exp_bit: "x = 2 ^ k \<Longrightarrow> k < LENGTH('a) \<Longrightarrow> bit (x :: 'a::len word) n \<longleftrightarrow> n = k"
  by (auto simp: bit_exp_iff)

lemma one_bit [simp]: "bit (1 :: 'a::len word) n \<longleftrightarrow> n = 0"
  by (simp add: bit_1_iff)

lemma exp_bits [simp]:
  fixes n :: nat
  shows "bit (2 :: u64) n \<longleftrightarrow> n = 1"
    "bit (4 :: u64) n \<longleftrightarrow> n = 2"
    "bit (8 :: u64) n \<longleftrightarrow> n = 3"
    "bit (0x10 :: u64) n \<longleftrightarrow> n = 4"
    "bit (0x20 :: u64) n \<longleftrightarrow> n = 5"
    "bit (0x40 :: u64) n \<longleftrightarrow> n = 6"
    "bit (0x80 :: u64) n \<longleftrightarrow> n = 7"
    "bit (0x100 :: u64) n \<longleftrightarrow> n = 8"
    "bit (0x1000 :: u64) n \<longleftrightarrow> n = 12"
    "bit (0x8000000000000000 :: u64) n \<longleftrightarrow> n = 63"
    "bit (2 :: u32) n \<longleftrightarrow> n = 1"
    "bit (4 :: u32) n \<longleftrightarrow> n = 2"
    "bit (8 :: u32) n \<longleftrightarrow> n = 3"
    "bit (0x10 :: u32) n \<longleftrightarrow> n = 4"
    "bit (0x20 :: u32) n \<longleftrightarrow> n = 5"
      apply (rule exp_bit [of _ 1]; simp)
      apply (rule exp_bit [of _ 2]; simp)
      apply (rule exp_bit [of _ 3]; simp)
      apply (rule exp_bit [of _ 4]; simp)
      apply (rule exp_bit [of _ 5]; simp)
      apply (rule exp_bit [of _ 6]; simp)
      apply (rule exp_bit [of _ 7]; simp)
      apply (rule exp_bit [of _ 8]; simp)
      apply (rule exp_bit [of _ 12]; simp)
      apply (rule exp_bit [of _ 63]; simp)
      apply (rule exp_bit [of _ 1]; simp)
      apply (rule exp_bit [of _ 2]; simp)
      apply (rule exp_bit [of _ 3]; simp)
      apply (rule exp_bit [of _ 4]; simp)
      apply (rule exp_bit [of _ 5]; simp)
  done

lemma addr_mask_bits: "bit JLOS_PAGING_ADDR_MASK n \<longleftrightarrow> 12 \<le> n \<and> n < 52"
proof -
  have "JLOS_PAGING_ADDR_MASK = push_bit 12 (mask 40)" by (simp add: push_bit_eq_mult mask_eq_exp_minus_1)
  then show ?thesis by (auto simp only: bit_push_bit_iff bit_mask_iff possible_bit_word) auto
qed

lemma pte_prot_bits:
  "bit (pte_prot prot) n \<longleftrightarrow> n = 0 \<or> n = 1 \<and> bit prot 1 \<or> n = 2 \<and> bit prot 3 \<or> n = 8 \<and> bit prot 4 \<or> n = 4 \<and> bit prot 5
     \<or> n = 63 \<and> \<not> bit prot 2"
  unfolding pte_prot_def Let_def
  by (simp only: bit_or_iff if_distrib [of "\<lambda>w. bit w n"] exp_bits has_bits) auto

lemma entry_bits [simp]:
  "bit ((a AND JLOS_PAGING_ADDR_MASK) OR pte_prot prot) 0"
  "((a AND JLOS_PAGING_ADDR_MASK) OR pte_prot prot) AND JLOS_PAGING_ADDR_MASK = a AND JLOS_PAGING_ADDR_MASK"
  by (auto simp: bit_or_iff bit_and_iff addr_mask_bits pte_prot_bits intro!: bit_word_eqI)

lemma link_bits:
  assumes "t AND JLOS_PAGING_ADDR_MASK = t" and "u = 0 \<or> u = JLOS_PTE_USER"
  shows "bit (t OR JLOS_PTE_PRESENT OR JLOS_PTE_WRITABLE OR u) 0" and "\<not> bit (t OR JLOS_PTE_PRESENT OR JLOS_PTE_WRITABLE OR u) 7"
    and "(t OR JLOS_PTE_PRESENT OR JLOS_PTE_WRITABLE OR u) AND JLOS_PAGING_ADDR_MASK = t"
proof -
  have t: "bit t n \<Longrightarrow> 12 \<le> n \<and> n < 52" for n
    using assms(1) addr_mask_bits [of n] by (metis bit_and_iff)
  have u: "bit u n \<Longrightarrow> n = 2" for n using assms(2) by (auto simp: exp_bits)
  show "bit (t OR JLOS_PTE_PRESENT OR JLOS_PTE_WRITABLE OR u) 0" by (simp add: bit_or_iff exp_bits)
  show "\<not> bit (t OR JLOS_PTE_PRESENT OR JLOS_PTE_WRITABLE OR u) 7"
    using t [of 7] u [of 7] by (auto simp: bit_or_iff exp_bits)
  show "(t OR JLOS_PTE_PRESENT OR JLOS_PTE_WRITABLE OR u) AND JLOS_PAGING_ADDR_MASK = t"
    using t u by (intro bit_word_eqI) (fastforce simp: bit_or_iff bit_and_iff addr_mask_bits)
qed

lemma prot_user_bits: "pte_prot prot AND JLOS_PTE_USER = 0 \<or> pte_prot prot AND JLOS_PTE_USER = JLOS_PTE_USER"
  by (cases "bit prot 3") (auto simp: bit_and_iff pte_prot_bits exp_bits intro!: bit_word_eqI)

section \<open>The tree of tables\<close>

text \<open>A path lists the indices from the deepest table to the root.\<close>

fun node :: "(u64 \<Rightarrow> nat \<Rightarrow> u64) \<Rightarrow> u64 \<Rightarrow> nat list \<Rightarrow> u64 option" where
  "node m r [] = Some r"
| "node m r (i # p) = Option.bind (node m r p) (\<lambda>t.
     if bit (m t i) 0 \<and> \<not> bit (m t i) 7 then Some (m t i AND JLOS_PAGING_ADDR_MASK) else None)"

definition paths :: "nat list set" where
  "paths = {p. length p \<le> 3 \<and> set p \<subseteq> {..<512}}"

definition tables :: "(u64 \<Rightarrow> nat \<Rightarrow> u64) \<Rightarrow> u64 \<Rightarrow> u64 set" where
  "tables m r = {t. \<exists>p\<in>paths. node m r p = Some t}"

definition once :: "(u64 \<Rightarrow> nat \<Rightarrow> u64) \<Rightarrow> u64 \<Rightarrow> bool" where
  "once m r \<longleftrightarrow> (\<forall>p\<in>paths. \<forall>q\<in>paths. \<forall>t. node m r p = Some t \<longrightarrow> node m r q = Some t \<longrightarrow> p = q)"

text \<open>The two upper levels hold no large pages.\<close>

definition upper_ok :: "(u64 \<Rightarrow> nat \<Rightarrow> u64) \<Rightarrow> u64 \<Rightarrow> bool" where
  "upper_ok m r \<longleftrightarrow> (\<forall>p\<in>paths. \<forall>t. \<forall>i<512. length p \<le> 1 \<longrightarrow> node m r p = Some t \<longrightarrow> bit (m t i) 0 \<longrightarrow> \<not> bit (m t i) 7)"

definition upd :: "(u64 \<Rightarrow> nat \<Rightarrow> u64) \<Rightarrow> u64 \<Rightarrow> nat \<Rightarrow> u64 \<Rightarrow> u64 \<Rightarrow> nat \<Rightarrow> u64" where
  "upd m t i v = m(t := (m t)(i := v))"

lemma upd_apply: "upd m t i v u j = (if u = t \<and> j = i then v else m u j)"
  by (simp add: upd_def)

lemma pathsI [simp, intro]: "[] \<in> paths" by (simp add: paths_def)

lemma paths_Cons [simp]: "i # p \<in> paths \<longleftrightarrow> i < 512 \<and> p \<in> paths \<and> length p \<le> 2"
  by (auto simp: paths_def)

lemma tablesI: "p \<in> paths \<Longrightarrow> node m r p = Some t \<Longrightarrow> t \<in> tables m r"
  by (auto simp: tables_def)

lemma onceD: "once m r \<Longrightarrow> p \<in> paths \<Longrightarrow> q \<in> paths \<Longrightarrow> node m r p = Some t \<Longrightarrow> node m r q = Some t \<Longrightarrow> p = q"
  unfolding once_def by blast

lemma node_cong:
  assumes "p \<in> paths" and "\<And>q t i. q \<in> paths \<Longrightarrow> length q \<le> 2 \<Longrightarrow> node m r q = Some t \<Longrightarrow> i < 512 \<Longrightarrow> m' t i = m t i"
  shows "node m' r p = node m r p"
  using assms(1)
proof (induction p)
  case (Cons i p)
  then show ?case using assms(2) [of p _ i] by (cases "node m r p") simp_all
qed simp

lemma node_elsewhere: "p \<in> paths \<Longrightarrow> t \<notin> tables m r \<Longrightarrow> node (m(t := f)) r p = node m r p"
  by (rule node_cong) (auto dest: tablesI)

text \<open>Entries of the lowest tables do not lead to tables.\<close>

lemma node_leaf:
  assumes "once m r" "p0 \<in> paths" "node m r p0 = Some t" "length p0 = 3" "p \<in> paths"
  shows "node (upd m t i v) r p = node m r p"
  using assms(5)
proof (rule node_cong)
  fix q u j assume q: "q \<in> paths" "length q \<le> 2" "node m r q = Some u"
  have "u \<noteq> t"
  proof
    assume "u = t"
    then have "q = p0" using onceD [OF assms(1) q(1) assms(2) q(3)] assms(3) by simp
    then show False using q(2) assms(4) by simp
  qed
  then show "upd m t i v u j = m u j" by (simp add: upd_apply)
qed

text \<open>A new, empty table is hung into an entry that was not present.\<close>

lemma node_link:
  assumes o: "once m r" and p0: "p0 \<in> paths" "node m r p0 = Some t" "length p0 \<le> 2" and i: "\<not> bit (m t i) 0"
    and new: "new \<notin> tables m r" and v: "bit v 0" "\<not> bit v 7" "v AND JLOS_PAGING_ADDR_MASK = new" and p: "p \<in> paths"
    and m': "m' = upd (m(new := (\<lambda>_. 0))) t i v"
  shows "node m' r p = (if p = i # p0 then Some new else node m r p)"
  using p
proof (induction p)
  case (Cons j q)
  have tn: "t \<noteq> new" using tablesI [OF p0(1,2)] new by auto
  have e: "m' u k = (if u = t \<and> k = i then v else if u = new then 0 else m u k)" for u k by (simp add: m' upd_apply)
  have IH: "node m' r q = (if q = i # p0 then Some new else node m r q)" using Cons.prems by (intro Cons.IH) simp
  show ?case
  proof (cases "q = i # p0")
    case True
    then have "node m r (j # q) = None" "node m' r (j # q) = None" using p0(2) i IH tn by (simp_all add: e [of new j])
    then show ?thesis using True by simp
  next
    case False
    show ?thesis
    proof (cases "node m r q")
      case None
      then have "j # q \<noteq> i # p0" using p0(2) by auto
      then show ?thesis using IH None False by simp
    next
      case (Some u)
      then have un: "u \<noteq> new" using tablesI [of q m r u] new Cons.prems by auto
      have "u = t \<Longrightarrow> q = p0" using onceD [OF o _ p0(1) _ p0(2)] Some Cons.prems by simp
      moreover have "q = p0 \<Longrightarrow> u = t" using Some p0(2) by simp
      ultimately have iff: "u = t \<longleftrightarrow> q = p0" by blast
      show ?thesis
      proof (cases "u = t \<and> j = i")
        case True
        then have "m' u j = v" "j # q = i # p0" using e [of u j] iff by simp_all
        then show ?thesis using IH Some False v by simp
      next
        case False
        then have "m' u j = m u j" "j # q \<noteq> i # p0" using e [of u j] un iff by auto
        then have "node m' r (j # q) = node m r (j # q)" using IH Some \<open>q \<noteq> i # p0\<close> by simp
        then show ?thesis using \<open>j # q \<noteq> i # p0\<close> by (simp only: if_False)
      qed
    qed
  qed
qed simp

text \<open>Taking the lowest table out of its parent.\<close>

lemma node_unlink:
  assumes o: "once m r" and p0: "p0 \<in> paths" "node m r p0 = Some t" "length p0 = 2" and p: "p \<in> paths" and m': "m' = upd m t i 0"
  shows "node m' r p = (if p = i # p0 then None else node m r p)"
proof -
  have e: "m' u k = (if u = t \<and> k = i then 0 else m u k)" for u k by (simp add: m' upd_apply)
  have short: "node m' r q = node m r q" if "q \<in> paths" "length q \<le> 2" for q
    using that
  proof (induction q)
    case (Cons k q)
    have q: "q \<in> paths" "length q \<le> 1" using Cons.prems by simp_all
    have "u \<noteq> t" if "node m r q = Some u" for u
      using onceD [OF o q(1) p0(1) that] p0(2,3) q(2) by auto
    then have "m' u k = m u k" if "node m r q = Some u" for u using that e [of u k] by simp
    then show ?case using Cons.IH q by (cases "node m r q") simp_all
  qed simp
  show ?thesis
  proof (cases p)
    case (Cons k q)
    then have q: "q \<in> paths" "length q \<le> 2" using p by simp_all
    have "node m r q = Some t \<longleftrightarrow> q = p0" using onceD [OF o q(1) p0(1) _ p0(2)] p0(2) by auto
    then show ?thesis using short [OF q] Cons p0(2) e [of "the (node m r q)" k] by (cases "node m r q") auto
  qed simp
qed

section \<open>Well-formed contexts\<close>

definition leaf :: "(u64 \<Rightarrow> nat \<Rightarrow> u64) \<Rightarrow> u64 \<Rightarrow> nat \<Rightarrow> nat list \<Rightarrow> u64 option" where
  "leaf m r i p = (case node m r p of Some t \<Rightarrow> if bit (m t i) 0 then Some (m t i) else None | None \<Rightarrow> None)"

text \<open>A large page at the level above.\<close>

definition big :: "(u64 \<Rightarrow> nat \<Rightarrow> u64) \<Rightarrow> u64 \<Rightarrow> nat \<Rightarrow> nat list \<Rightarrow> u64 option" where
  "big m r i p = (case node m r p of Some t \<Rightarrow> if bit (m t i) 0 \<and> bit (m t i) 7 then Some (m t i) else None | None \<Rightarrow> None)"

subsection \<open>What a change of an entry does to the tree\<close>

lemma leaf_update:
  assumes o: "once m r" and p0: "p0 \<in> paths" "node m r p0 = Some t" "length p0 = 3" and m': "m' = upd m t i v"
  shows "p \<in> paths \<Longrightarrow> node m' r p = node m r p" and "tables m' r = tables m r" and "once m' r"
    and "q \<in> paths \<Longrightarrow> leaf m' r j q = (if j = i \<and> q = p0 then if bit v 0 then Some v else None else leaf m r j q)"
    and "q \<in> paths \<Longrightarrow> length q = 2 \<Longrightarrow> big m' r j q = big m r j q"
    and "upper_ok m r \<Longrightarrow> upper_ok m' r"
proof -
  have e: "m' u k = (if u = t \<and> k = i then v else m u k)" for u k by (simp add: m' upd_apply)
  show n: "p \<in> paths \<Longrightarrow> node m' r p = node m r p" for p unfolding m' by (rule node_leaf [OF o p0])
  then show "tables m' r = tables m r" "once m' r" using o by (auto simp: tables_def once_def)
  have u: "q = p0" if "q \<in> paths" "node m r q = Some t" for q using onceD [OF o that(1) p0(1) that(2) p0(2)] .
  show "leaf m' r j q = (if j = i \<and> q = p0 then if bit v 0 then Some v else None else leaf m r j q)" if q: "q \<in> paths"
  proof (cases "node m r q")
    case None
    then have "q \<noteq> p0" using p0(2) by auto
    then show ?thesis using n [OF q] None by (simp add: leaf_def)
  next
    case (Some x)
    then have "x = t \<longleftrightarrow> q = p0" using u [OF q] p0(2) by auto
    then show ?thesis using n [OF q] Some e [of x j] by (auto simp: leaf_def)
  qed
  have same: "m' x j = m x j" if "q \<in> paths" "length q \<noteq> 3" "node m r q = Some x" for q x j
    using that u [of q] p0(3) e [of x j] by auto
  show "big m' r j q = big m r j q" if "q \<in> paths" "length q = 2"
    using n [OF that(1)] same [OF that(1), of _ j] that(2) by (simp add: big_def split: option.split)
  show "upper_ok m' r" if up: "upper_ok m r"
    unfolding upper_ok_def
  proof (intro ballI allI impI)
    fix p x k assume a: "p \<in> paths" "k < 512" "length p \<le> 1" "node m' r p = Some x" "bit (m' x k) 0"
    then have "node m r p = Some x" "m' x k = m x k" using n [OF a(1)] same [OF a(1), of x k] by auto
    then show "\<not> bit (m' x k) 7" using up a unfolding upper_ok_def by simp
  qed
qed

lemma link_update:
  assumes o: "once m r" and p0: "p0 \<in> paths" "node m r p0 = Some t" "length p0 \<le> 2" and i: "i < 512" "\<not> bit (m t i) 0"
    and new: "new \<notin> tables m r" and v: "bit v 0" "\<not> bit v 7" "v AND JLOS_PAGING_ADDR_MASK = new"
    and m': "m' = upd (m(new := (\<lambda>_. 0))) t i v"
  shows "p \<in> paths \<Longrightarrow> node m' r p = (if p = i # p0 then Some new else node m r p)" and "tables m' r = insert new (tables m r)"
    and "once m' r" and "q \<in> paths \<Longrightarrow> leaf m' r j q = leaf m r j q \<or> length q \<noteq> 3"
    and "q \<in> paths \<Longrightarrow> length q = 2 \<Longrightarrow> big m' r j q = big m r j q" and "upper_ok m r \<Longrightarrow> upper_ok m' r"
    and "\<And>j. m' new j = 0"
proof -
  have e: "m' u k = (if u = t \<and> k = i then v else if u = new then 0 else m u k)" for u k by (simp add: m' upd_apply)
  have tn: "t \<noteq> new" using tablesI [OF p0(1,2)] new by auto
  show z: "m' new j = 0" for j using tn e [of new j] by simp
  show n: "p \<in> paths \<Longrightarrow> node m' r p = (if p = i # p0 then Some new else node m r p)" for p
    by (rule node_link [OF o p0 i(2) new v _ m'])
  have ip: "i # p0 \<in> paths" "node m r (i # p0) = None" using p0 i by simp_all
  show "tables m' r = insert new (tables m r)"
  proof (intro set_eqI iffI)
    fix x assume "x \<in> tables m' r"
    then obtain p where p: "p \<in> paths" "node m' r p = Some x" unfolding tables_def by blast
    then show "x \<in> insert new (tables m r)" using n [OF p(1)] tablesI [OF p(1), of m r x] by (auto split: if_splits)
  next
    fix x assume "x \<in> insert new (tables m r)"
    then consider "x = new" | p where "p \<in> paths" "node m r p = Some x" unfolding tables_def by blast
    then show "x \<in> tables m' r"
    proof cases
      case 1
      then show ?thesis using n [OF ip(1)] tablesI [OF ip(1)] by simp
    next
      case (2 p)
      then have "p \<noteq> i # p0" using ip(2) by auto
      then show ?thesis using n [OF 2(1)] 2 tablesI [OF 2(1)] by simp
    qed
  qed
  show "once m' r"
    unfolding once_def
  proof (intro ballI allI impI)
    fix p q x assume a: "p \<in> paths" "q \<in> paths" "node m' r p = Some x" "node m' r q = Some x"
    have nn: "node m r y \<noteq> Some new" if "y \<in> paths" for y using tablesI [OF that] new by blast
    show "p = q" using a nn n [OF a(1)] n [OF a(2)] onceD [OF o a(1,2)] by (auto split: if_splits)
  qed
  have u: "q = p0" if "q \<in> paths" "node m r q = Some t" for q using onceD [OF o that(1) p0(1) that(2) p0(2)] .
  have other: "m' x j = m x j \<or> x = t \<and> j = i" if "q \<in> paths" "node m r q = Some x" for q x j
    using tablesI [OF that] new e [of x j] by auto
  show "leaf m' r j q = leaf m r j q \<or> length q \<noteq> 3" if q: "q \<in> paths"
  proof (cases "q = i # p0")
    case True
    then show ?thesis using n [OF q] ip z by (simp add: leaf_def)
  next
    case False
    show ?thesis
    proof (cases "node m r q")
      case (Some x)
      then have "length q \<noteq> 3 \<or> m' x j = m x j" using other [OF q Some, of j] u [OF q] p0(3) by auto
      then show ?thesis using n [OF q] False Some by (auto simp: leaf_def)
    qed (use n [OF q] False in \<open>simp add: leaf_def\<close>)
  qed
  show "big m' r j q = big m r j q" if q: "q \<in> paths" "length q = 2"
  proof (cases "q = i # p0")
    case True
    then show ?thesis using n [OF q(1)] ip z by (simp add: big_def)
  next
    case False
    show ?thesis
    proof (cases "node m r q")
      case (Some x)
      show ?thesis
      proof (cases "x = t \<and> j = i")
        case True
        then show ?thesis using n [OF q(1)] False Some e [of x j] v i(2) by (simp add: big_def)
      next
        case False
        then have "m' x j = m x j" using other [OF q(1) Some, of j] by auto
        then show ?thesis using n [OF q(1)] \<open>q \<noteq> i # p0\<close> Some by (simp add: big_def)
      qed
    qed (use n [OF q(1)] False in \<open>simp add: big_def\<close>)
  qed
  show "upper_ok m' r" if up: "upper_ok m r"
    unfolding upper_ok_def
  proof (intro ballI allI impI)
    fix p x k assume a: "p \<in> paths" "k < 512" "length p \<le> 1" "node m' r p = Some x" "bit (m' x k) 0"
    show "\<not> bit (m' x k) 7"
    proof (cases "p = i # p0")
      case True
      then show ?thesis using n [OF a(1)] a(4,5) z by simp
    next
      case False
      then have nx: "node m r p = Some x" using n [OF a(1)] a(4) by simp
      show ?thesis
      proof (cases "x = t \<and> k = i")
        case True
        then show ?thesis using e [of x k] v by simp
      next
        case False
        then have "m' x k = m x k" using other [OF a(1) nx, of k] by auto
        then show ?thesis using up a(1,2,3,5) nx unfolding upper_ok_def by simp
      qed
    qed
  qed
qed

lemma unlink_update:
  assumes o: "once m r" and p0: "p0 \<in> paths" "node m r p0 = Some t" "length p0 = 2" and i: "i < 512" "node m r (i # p0) = Some pt"
    and m': "m' = upd m t i 0"
  shows "p \<in> paths \<Longrightarrow> node m' r p = (if p = i # p0 then None else node m r p)" and "tables m' r = tables m r - {pt}"
    and "once m' r" and "q \<in> paths \<Longrightarrow> length q = 3 \<Longrightarrow> leaf m' r j q = (if q = i # p0 then None else leaf m r j q)"
    and "q \<in> paths \<Longrightarrow> length q = 2 \<Longrightarrow> big m' r j q = big m r j q" and "upper_ok m r \<Longrightarrow> upper_ok m' r"
proof -
  have e: "m' u k = (if u = t \<and> k = i then 0 else m u k)" for u k by (simp add: m' upd_apply)
  show n: "p \<in> paths \<Longrightarrow> node m' r p = (if p = i # p0 then None else node m r p)" for p
    by (rule node_unlink [OF o p0 _ m'])
  have ip: "i # p0 \<in> paths" using p0 i by simp
  have only: "p = i # p0" if "p \<in> paths" "node m r p = Some pt" for p using onceD [OF o that(1) ip that(2) i(2)] .
  show "tables m' r = tables m r - {pt}"
  proof (intro set_eqI iffI)
    fix x assume "x \<in> tables m' r"
    then obtain p where p: "p \<in> paths" "node m' r p = Some x" unfolding tables_def by blast
    then have "p \<noteq> i # p0" "node m r p = Some x" using n [OF p(1)] by (auto split: if_splits)
    then show "x \<in> tables m r - {pt}" using only [OF p(1)] tablesI [OF p(1)] by auto
  next
    fix x assume "x \<in> tables m r - {pt}"
    then obtain p where p: "p \<in> paths" "node m r p = Some x" "x \<noteq> pt" unfolding tables_def by blast
    then have "p \<noteq> i # p0" using i(2) by auto
    then show "x \<in> tables m' r" using n [OF p(1)] p tablesI [OF p(1)] by simp
  qed
  show "once m' r" using o n unfolding once_def by (metis option.distinct(1))
  have u: "q = p0" if "q \<in> paths" "node m r q = Some t" for q using onceD [OF o that(1) p0(1) that(2) p0(2)] .
  show "leaf m' r j q = (if q = i # p0 then None else leaf m r j q)" if q: "q \<in> paths" "length q = 3"
  proof (cases "node m r q")
    case (Some x)
    then have "x \<noteq> t" using u [OF q(1)] q(2) p0(3) by auto
    then show ?thesis using n [OF q(1)] Some e [of x j] by (simp add: leaf_def)
  qed (use n [OF q(1)] in \<open>simp add: leaf_def\<close>)
  have pres: "bit (m t i) 0" "\<not> bit (m t i) 7" using i(2) p0(2) by (auto split: if_splits)
  show "big m' r j q = big m r j q" if q: "q \<in> paths" "length q = 2"
  proof (cases "node m r q")
    case (Some x)
    have "q \<noteq> i # p0" using q(2) p0(3) by auto
    then show ?thesis using n [OF q(1)] Some e [of x j] pres by (auto simp: big_def)
  next
    case None
    then show ?thesis using n [OF q(1)] by (simp add: big_def)
  qed
  show "upper_ok m' r" if up: "upper_ok m r"
    unfolding upper_ok_def
  proof (intro ballI allI impI)
    fix p x k assume a: "p \<in> paths" "k < 512" "length p \<le> 1" "node m' r p = Some x" "bit (m' x k) 0"
    then have "node m r p = Some x" "m' x k = m x k" using n [OF a(1)] e [of x k] by (auto split: if_splits)
    then show "\<not> bit (m' x k) 7" using up a unfolding upper_ok_def by simp
  qed
qed

section \<open>The frame allocator as a provider\<close>

text \<open>
  What the page tables rely on: an allocation hands out a page-aligned frame that was free,
  releasing a frame drops one reference and frees it with the last one, and the page
  records of all other frames in use stay as they are.
\<close>

locale frame_source =
  fixes ok :: "'a \<Rightarrow> bool" and free :: "'a \<Rightarrow> u64 set" and managed :: "'a \<Rightarrow> u64 set" and page :: "'a \<Rightarrow> u64 \<Rightarrow> jlos_page"
    and alloc :: "'a \<Rightarrow> (u64 option \<times> 'a) option" and release :: "u64 \<Rightarrow> 'a \<Rightarrow> 'a option"
  assumes free_managed: "ok a \<Longrightarrow> free a \<subseteq> managed a"
    and aligned: "ok a \<Longrightarrow> t \<in> managed a \<Longrightarrow> t AND JLOS_PAGING_ADDR_MASK = t"
    and free_count: "ok a \<Longrightarrow> t \<in> managed a \<Longrightarrow> t \<in> free a \<longleftrightarrow> refcount (page a t) = 0"
    and alloc_law: "ok a \<Longrightarrow> \<exists>x a'. alloc a = Some (x, a') \<and> ok a' \<and> managed a' = managed a
       \<and> (\<forall>t. t \<in> managed a \<longrightarrow> t \<notin> free a \<longrightarrow> page a' t = page a t)
       \<and> (case x of None \<Rightarrow> free a' = free a | Some t \<Rightarrow> t \<in> free a \<and> free a' = free a - {t} \<and> refcount (page a' t) = 1)"
    and release_law: "ok a \<Longrightarrow> t \<in> managed a \<Longrightarrow> t \<notin> free a \<Longrightarrow> \<exists>a'. release t a = Some a' \<and> ok a' \<and> managed a' = managed a
       \<and> free a' = free a \<union> (if refcount (page a t) = 1 then {t} else {}) \<and> refcount (page a' t) = refcount (page a t) - 1
       \<and> (\<forall>u. u \<in> managed a \<longrightarrow> u \<notin> free a \<longrightarrow> u \<noteq> t \<longrightarrow> page a' u = page a u)"
begin

text \<open>A table taken from the provider is new to every tree without free frames.\<close>

lemma alloc_fresh:
  assumes "ok a" "alloc a = Some (Some t, a')" "tables m r \<inter> free a = {}"
  shows "t \<notin> tables m r" "insert t (tables m r) \<inter> free a' = {}" "ok a'" "t AND JLOS_PAGING_ADDR_MASK = t"
proof -
  have t: "t \<in> free a" "free a' = free a - {t}" "ok a'" using alloc_law [OF assms(1)] assms(2) by auto
  then show "t \<notin> tables m r" "insert t (tables m r) \<inter> free a' = {}" "ok a'" using assms(3) by auto
  show "t AND JLOS_PAGING_ADDR_MASK = t" using aligned [OF assms(1)] free_managed [OF assms(1)] t(1) by blast
qed

text \<open>Releasing the page below a table keeps every other tree free of free frames.\<close>

lemma release_keeps:
  assumes "ok a" "t \<in> managed a" "t \<notin> free a" "release t a = Some a'" "tables m r \<inter> free a = {}" "t \<notin> tables m r"
  shows "tables m r \<inter> free a' = {}"
  using release_law [OF assms(1-3)] assms(4-6) by auto

end

text \<open>The allocator's frames lie in the first four gigabytes, at page boundaries.\<close>

definition alloc_ok :: "pfa \<Rightarrow> bool" where
  "alloc_ok a \<longleftrightarrow> buddy_inv a {} \<and> unat (s_start_addr a) + s_total_frames a * 4096 \<le> 2 ^ 32 \<and> 4096 dvd unat (s_start_addr a)"

definition frame_addr :: "pfa \<Rightarrow> nat \<Rightarrow> u64" where
  "frame_addr a f = ucast (frame_to_phys a f)"

definition managed_addrs :: "pfa \<Rightarrow> u64 set" where
  "managed_addrs a = frame_addr a ` {..<s_total_frames a}"

definition free_addrs :: "pfa \<Rightarrow> u64 set" where
  "free_addrs a = frame_addr a ` free_set a"

definition page_of :: "pfa \<Rightarrow> u64 \<Rightarrow> jlos_page" where
  "page_of a t = s_pages a (pfa_phys_to_frame a (ucast t))"

lemma frame_unat:
  assumes "alloc_ok a" "f < s_total_frames a"
  shows "unat (frame_to_phys a f) = unat (s_start_addr a) + f * 4096"
proof -
  have "f * 4096 + 4096 \<le> s_total_frames a * 4096" using assms(2) by simp
  then have "unat (s_start_addr a) + f * 4096 < 2 ^ 32" using assms(1) by (simp add: alloc_ok_def)
  then show ?thesis using unat_of_nat_u32 [of "f * 4096"] unat_plus_noov [of "s_start_addr a" "of_nat (f * 4096)"]
    by (simp add: frame_to_phys_def)
qed

lemma frame_addr_inj:
  "alloc_ok a \<Longrightarrow> f < s_total_frames a \<Longrightarrow> g < s_total_frames a \<Longrightarrow> frame_addr a f = frame_addr a g \<longleftrightarrow> f = g"
  using frame_unat [of a f] frame_unat [of a g] unfolding frame_addr_def
  by (metis add_left_cancel mult_right_cancel unat_ucast64 zero_neq_numeral)

lemma frame_no:
  assumes "alloc_ok a" "f < s_total_frames a"
  shows "ucast (frame_addr a f) = frame_to_phys a f" and "pfa_phys_to_frame a (ucast (frame_addr a f)) = f"
    and "page_of a (frame_addr a f) = s_pages a f"
proof -
  show u: "ucast (frame_addr a f) = frame_to_phys a f"
    by (rule word_unat_eq_iff [THEN iffD2]) (simp add: frame_addr_def unat_ucast32 unat_ucast64)
  have "s_total_frames a * 4096 \<le> 2 ^ 32" using assms(1) by (simp add: alloc_ok_def)
  then show n: "pfa_phys_to_frame a (ucast (frame_addr a f)) = f" using phys_frame [of f 0 a] assms(2) u by simp
  then show "page_of a (frame_addr a f) = s_pages a f" by (simp add: page_of_def)
qed

lemma frame_mask:
  assumes "alloc_ok a" "f < s_total_frames a"
  shows "frame_addr a f AND JLOS_PAGING_ADDR_MASK = frame_addr a f"
proof -
  have u: "unat (frame_addr a f) = unat (s_start_addr a) + f * 4096" by (simp add: frame_addr_def unat_ucast64 frame_unat [OF assms])
  then have "4096 dvd unat (frame_addr a f)" using assms(1) by (simp add: alloc_ok_def)
  then obtain k where k: "unat (frame_addr a f) = push_bit 12 k" by (auto simp: push_bit_eq_mult)
  have lt: "unat (frame_addr a f) < 2 ^ 32" using unat_u32_lt [of "frame_to_phys a f"] by (simp add: frame_addr_def unat_ucast64)
  have "12 \<le> n \<and> n < 52" if "bit (frame_addr a f) n" for n
  proof -
    have b: "bit (unat (frame_addr a f)) n" using that by (simp add: bit_unsigned_iff)
    then have "12 \<le> n" unfolding k by (simp add: bit_push_bit_iff)
    moreover have "take_bit 32 (unat (frame_addr a f)) = unat (frame_addr a f)" using lt by (simp add: take_bit_nat_eq_self)
    then have "n < 32" using b by (metis bit_take_bit_iff)
    ultimately show ?thesis by simp
  qed
  then show ?thesis by (intro bit_word_eqI) (auto simp: bit_and_iff addr_mask_bits)
qed

lemma managed_frame: "t \<in> managed_addrs a \<Longrightarrow> \<exists>f < s_total_frames a. t = frame_addr a f"
  by (auto simp: managed_addrs_def)

lemma free_addr_iff: "alloc_ok a \<Longrightarrow> f < s_total_frames a \<Longrightarrow> frame_addr a f \<in> free_addrs a \<longleftrightarrow> f \<in> free_set a"
  using free_set_less [of a "{}"] frame_addr_inj [of a f] by (auto simp: free_addrs_def alloc_ok_def)

lemma same_layout:
  assumes "s_total_frames b = s_total_frames a" "s_start_addr b = s_start_addr a"
  shows "frame_addr b = frame_addr a" "managed_addrs b = managed_addrs a" "buddy_inv b {} \<Longrightarrow> alloc_ok a \<Longrightarrow> alloc_ok b"
    "page_of b t = s_pages b (pfa_phys_to_frame a (ucast t))"
proof -
  show fa: "frame_addr b = frame_addr a" using assms by (auto simp: frame_addr_def frame_to_phys_def)
  show "managed_addrs b = managed_addrs a" using assms by (simp add: managed_addrs_def fa)
  show "buddy_inv b {} \<Longrightarrow> alloc_ok a \<Longrightarrow> alloc_ok b" using assms by (simp add: alloc_ok_def)
  show "page_of b t = s_pages b (pfa_phys_to_frame a (ucast t))" using assms by (simp add: page_of_def pfa_phys_to_frame_def)
qed

definition frame_alloc :: "nat \<Rightarrow> pfa \<Rightarrow> (u64 option \<times> pfa) option" where
  "frame_alloc c a = map_option (\<lambda>(p, r). (map_option ucast r, p)) (jlos_page_frame_malloc c a)"

lemma frame_alloc_law:
  assumes ok: "alloc_ok a"
  shows "\<exists>x a'. frame_alloc c a = Some (x, a') \<and> alloc_ok a' \<and> managed_addrs a' = managed_addrs a
     \<and> (\<forall>t. t \<in> managed_addrs a \<longrightarrow> t \<notin> free_addrs a \<longrightarrow> page_of a' t = page_of a t)
     \<and> (case x of None \<Rightarrow> free_addrs a' = free_addrs a
        | Some t \<Rightarrow> t \<in> free_addrs a \<and> free_addrs a' = free_addrs a - {t} \<and> refcount (page_of a' t) = 1)"
proof -
  have inv: "buddy_inv a {}" using ok by (simp add: alloc_ok_def)
  have pg: "page_of b t = page_of a t" if b: "s_total_frames b = s_total_frames a" "s_start_addr b = s_start_addr a"
    and keep: "\<forall>f. f \<notin> free_set a \<longrightarrow> s_pages b f = s_pages a f" and t: "t \<in> managed_addrs a" "t \<notin> free_addrs a" for b t
  proof -
    obtain f where f: "f < s_total_frames a" "t = frame_addr a f" using managed_frame [OF t(1)] by blast
    then have "f \<notin> free_set a" using t(2) free_addr_iff [OF ok f(1)] by simp
    then show ?thesis using keep frame_no(2) [OF ok f(1)] unfolding same_layout(4) [OF b] f(2) by (simp add: page_of_def)
  qed
  show ?thesis
  proof (cases rule: malloc_cases [OF inv, of c, case_names empty frame])
    case (empty b)
    have b: "s_total_frames b = s_total_frames a" "s_start_addr b = s_start_addr a" "free_set b = free_set a"
      "\<forall>f. f \<notin> free_set a \<longrightarrow> s_pages b f = s_pages a f" using empty(3) by (auto simp: shuffle_def)
    have "free_addrs b = free_addrs a" using b(3) same_layout(1) [OF b(1,2)] by (simp add: free_addrs_def)
    then show ?thesis using empty(1) same_layout(2) [OF b(1,2)] same_layout(3) [OF b(1,2) empty(2) ok] pg [OF b(1,2,4)]
      by (simp add: frame_alloc_def)
  next
    case (frame b f)
    have b: "s_total_frames b = s_total_frames a" "s_start_addr b = s_start_addr a" "f \<in> free_set a" "free_set b = free_set a - {f}"
      "\<forall>f. f \<notin> free_set a \<longrightarrow> s_pages b f = s_pages a f" "refcount (s_pages b f) = 1" using frame(3) by (auto simp: takes_def)
    have f: "f < s_total_frames a" using free_set_less [OF inv b(3)] .
    have g: "g = f \<longleftrightarrow> frame_addr a g = frame_addr a f" if "g \<in> free_set a" for g
      using frame_addr_inj [OF ok _ f] free_set_less [OF inv that] by simp
    have "free_addrs b = free_addrs a - {frame_addr a f}"
      using g unfolding free_addrs_def b(4) same_layout(1) [OF b(1,2)] by auto
    moreover have "page_of b (frame_addr a f) = s_pages b f"
      using frame_no(2) [OF ok f] unfolding same_layout(4) [OF b(1,2)] by simp
    moreover have "frame_addr a f \<in> free_addrs a" using b(3) by (simp add: free_addrs_def)
    ultimately show ?thesis
      using frame(1) same_layout(2) [OF b(1,2)] same_layout(3) [OF b(1,2) frame(2) ok] pg [OF b(1,2,5)] b(6)
      by (simp add: frame_alloc_def frame_addr_def)
  qed
qed

lemma frame_release_law:
  assumes ok: "alloc_ok a" and t: "t \<in> managed_addrs a" "t \<notin> free_addrs a"
  shows "\<exists>a'. jlos_page_frame_refcount_dec c (ucast t) a = Some a' \<and> alloc_ok a' \<and> managed_addrs a' = managed_addrs a
     \<and> free_addrs a' = free_addrs a \<union> (if refcount (page_of a t) = 1 then {t} else {})
     \<and> refcount (page_of a' t) = refcount (page_of a t) - 1
     \<and> (\<forall>u. u \<in> managed_addrs a \<longrightarrow> u \<notin> free_addrs a \<longrightarrow> u \<noteq> t \<longrightarrow> page_of a' u = page_of a u)"
proof -
  have inv: "buddy_inv a {}" and tot: "s_total_frames a * 4096 \<le> 2 ^ 32" using ok by (auto simp: alloc_ok_def)
  obtain f where f: "f < s_total_frames a" "t = frame_addr a f" using managed_frame [OF t(1)] by blast
  have nf: "f \<notin> free_set a" using t(2) free_addr_iff [OF ok f(1)] f(2) by simp
  have u: "ucast t = frame_to_phys a f" and pt: "page_of a t = s_pages a f" using frame_no [OF ok f(1)] f(2) by simp_all
  obtain b where b: "jlos_page_frame_refcount_dec c (ucast t) a = Some b"
    using page_free_cases [OF inv f(1) tot, of c] nf u by (auto simp: jlos_page_frame_free_def split: option.splits)
  have r: "buddy_inv b {}" "free_set b = free_set a \<union> (if refcount (s_pages a f) = 1 then {f} else {})"
    "refcount (s_pages b f) = refcount (s_pages a f) - 1" "\<forall>g. g \<notin> free_set a \<union> {f} \<longrightarrow> s_pages b g = s_pages a g"
    using page_free_cases [OF inv f(1) tot, of c] b u by (simp_all add: jlos_page_frame_free_def)
  have lay: "s_total_frames b = s_total_frames a" "s_start_addr b = s_start_addr a"
  proof -
    have "pfa_phys_to_frame a (ucast t) = f" using frame_no(2) [OF ok f(1)] f(2) by simp
    then have "s_total_frames b = s_total_frames a \<and> s_start_addr b = s_start_addr a"
    proof (cases "refcount (s_pages a f) = 1")
      case True
      show ?thesis using refcount_dec_last [OF inv \<open>pfa_phys_to_frame a (ucast t) = f\<close> f(1) True, of c] b by (auto simp: drops_def)
    next
      case False
      then show ?thesis using b \<open>pfa_phys_to_frame a (ucast t) = f\<close> by (auto simp: jlos_page_frame_refcount_dec_def Let_def split: if_splits)
    qed
    then show "s_total_frames b = s_total_frames a" "s_start_addr b = s_start_addr a" by auto
  qed
  have "page_of b t = s_pages b f" using frame_no(2) [OF ok f(1)] f(2) unfolding same_layout(4) [OF lay] by simp
  moreover have "page_of b u = page_of a u" if w: "u \<in> managed_addrs a" "u \<notin> free_addrs a" "u \<noteq> t" for u
  proof -
    obtain g where g: "g < s_total_frames a" "u = frame_addr a g" using managed_frame [OF w(1)] by blast
    then have "g \<notin> free_set a \<union> {f}" using w free_addr_iff [OF ok g(1)] f(2) by auto
    then show ?thesis using r(4) frame_no(2) [OF ok g(1)] unfolding same_layout(4) [OF lay] g(2) by (simp add: page_of_def)
  qed
  moreover have "free_addrs b = free_addrs a \<union> (if refcount (page_of a t) = 1 then {t} else {})"
    using pt unfolding free_addrs_def r(2) same_layout(1) [OF lay] f(2) by auto
  ultimately show ?thesis using b same_layout(2) [OF lay] same_layout(3) [OF lay r(1) ok] r(3) pt by simp
qed

interpretation pages: frame_source alloc_ok free_addrs managed_addrs page_of "frame_alloc c" "\<lambda>t. jlos_page_frame_refcount_dec c (ucast t)" for c
proof
  fix a :: pfa assume ok: "alloc_ok a"
  then have inv: "buddy_inv a {}" by (simp add: alloc_ok_def)
  show "free_addrs a \<subseteq> managed_addrs a" using free_set_less [OF inv] by (auto simp: free_addrs_def managed_addrs_def)
next
  fix a t assume a: "alloc_ok a" "t \<in> managed_addrs a"
  then obtain f where f: "f < s_total_frames a" "t = frame_addr a f" using managed_frame by blast
  then show "t AND JLOS_PAGING_ADDR_MASK = t" using frame_mask [OF a(1)] by simp
  have "f \<in> free_set a \<longleftrightarrow> refcount (s_pages a f) = 0"
    using free_refcount [of a f] in_use_iff [of a f] a(1) f(1) by (auto simp: alloc_ok_def in_use_def)
  then show "t \<in> free_addrs a \<longleftrightarrow> refcount (page_of a t) = 0" using free_addr_iff [OF a(1) f(1)] frame_no(3) [OF a(1) f(1)] f(2) by simp
qed (rule frame_alloc_law frame_release_law; assumption)+

end
