(* ===== verification/Paging_Maps.thy ===== *)
theory Paging_Maps
  imports Paging_Inv
begin

text \<open>
  The invariant of all address spaces together: the trees of the contexts share no user
  table, no table and no mapped user page is a free frame, every lowest user table knows
  how many of its entries are present, and no frame is mapped more often than it has
  references. Each elementary change of a tree keeps it.
\<close>

section \<open>The invariant\<close>

definition upaths :: "nat list set" where
  "upaths = {p \<in> paths. length p = 3 \<and> last p < 256}"

definition user_tables :: "(u64 \<Rightarrow> nat \<Rightarrow> u64) \<Rightarrow> u64 \<Rightarrow> u64 set" where
  "user_tables m r = {t. \<exists>p\<in>paths. node m r p = Some t \<and> (p = [] \<or> last p < 256)}"

definition present :: "(nat \<Rightarrow> u64) \<Rightarrow> nat set" where
  "present tab = {i. i < 512 \<and> bit (tab i) 0}"

definition counts_ok :: "pfa \<Rightarrow> (u64 \<Rightarrow> nat \<Rightarrow> u64) \<Rightarrow> u64 \<Rightarrow> bool" where
  "counts_ok a m r \<longleftrightarrow> (\<forall>p\<in>upaths. \<forall>t. node m r p = Some t \<longrightarrow> pt_present_count (page_of a t) = of_nat (card (present (m t))))"

definition no_big :: "(u64 \<Rightarrow> nat \<Rightarrow> u64) \<Rightarrow> u64 \<Rightarrow> bool" where
  "no_big m r \<longleftrightarrow> (\<forall>p\<in>paths. \<forall>i<512. length p = 2 \<longrightarrow> last p < 256 \<longrightarrow> big m r i p = None)"

definition ctx_ok :: "pfa \<Rightarrow> (u64 \<Rightarrow> nat \<Rightarrow> u64) \<Rightarrow> u64 \<Rightarrow> bool" where
  "ctx_ok a m r \<longleftrightarrow> once m r \<and> upper_ok m r \<and> tables m r \<inter> free_addrs a = {} \<and> user_tables m r \<subseteq> managed_addrs a
     \<and> counts_ok a m r \<and> no_big m r"

text \<open>The user mappings of the page at \<open>t\<close> in all contexts \<open>C\<close>; \<open>R\<close> gives the root of a context.\<close>

definition mapped :: "(u64 \<Rightarrow> nat \<Rightarrow> u64) \<Rightarrow> (nat \<Rightarrow> u64) \<Rightarrow> nat set \<Rightarrow> u64 \<Rightarrow> (nat \<times> nat \<times> nat list) set" where
  "mapped m R C t = {(x, i, p). x \<in> C \<and> i < 512 \<and> p \<in> upaths \<and> (\<exists>e. leaf m (R x) i p = Some e \<and> e AND JLOS_PAGING_ADDR_MASK = t)}"

definition disjoint_ctx :: "(u64 \<Rightarrow> nat \<Rightarrow> u64) \<Rightarrow> (nat \<Rightarrow> u64) \<Rightarrow> nat set \<Rightarrow> bool" where
  "disjoint_ctx m R C \<longleftrightarrow> (\<forall>x\<in>C. \<forall>y\<in>C. x \<noteq> y \<longrightarrow> user_tables m (R x) \<inter> tables m (R y) = {})"

definition targets_ok :: "(u64 \<Rightarrow> nat \<Rightarrow> u64) \<Rightarrow> (nat \<Rightarrow> u64) \<Rightarrow> nat set \<Rightarrow> bool" where
  "targets_ok m R C \<longleftrightarrow> (\<forall>y\<in>C. \<forall>t\<in>tables m (R y). mapped m R C t = {})"

definition refs_ok :: "pfa \<Rightarrow> (u64 \<Rightarrow> nat \<Rightarrow> u64) \<Rightarrow> (nat \<Rightarrow> u64) \<Rightarrow> nat set \<Rightarrow> bool" where
  "refs_ok a m R C \<longleftrightarrow> (\<forall>t\<in>managed_addrs a. int (card (mapped m R C t)) \<le> refcount (page_of a t))"

definition vinv :: "pfa \<Rightarrow> (u64 \<Rightarrow> nat \<Rightarrow> u64) \<Rightarrow> (nat \<Rightarrow> u64) \<Rightarrow> nat set \<Rightarrow> bool" where
  "vinv a m R C \<longleftrightarrow> finite C \<and> alloc_ok a \<and> (\<forall>x\<in>C. ctx_ok a m (R x)) \<and> disjoint_ctx m R C \<and> targets_ok m R C \<and> refs_ok a m R C"

lemma upathsD: "p \<in> upaths \<Longrightarrow> p \<in> paths \<and> length p = 3 \<and> last p < 256"
  by (simp add: upaths_def)

lemma user_sub: "user_tables m r \<subseteq> tables m r"
  by (auto simp: user_tables_def tables_def)

lemma user_tablesI: "p \<in> paths \<Longrightarrow> node m r p = Some t \<Longrightarrow> p = [] \<or> last p < 256 \<Longrightarrow> t \<in> user_tables m r"
  by (auto simp: user_tables_def)

lemma finite_paths: "finite paths"
  using finite_lists_length_le [of "{..<512::nat}" 3] by (simp add: paths_def conj_commute)

lemma finite_mapped: "finite C \<Longrightarrow> finite (mapped m R C t)"
  by (rule finite_subset [of _ "C \<times> {..<512} \<times> paths"]) (auto simp: mapped_def upaths_def finite_paths)

lemma vinvD:
  assumes "vinv a m R C"
  shows "finite C" "alloc_ok a" "disjoint_ctx m R C" "targets_ok m R C" "refs_ok a m R C"
    and "x \<in> C \<Longrightarrow> ctx_ok a m (R x)" and "x \<in> C \<Longrightarrow> once m (R x)" and "x \<in> C \<Longrightarrow> tables m (R x) \<inter> free_addrs a = {}"
    and "x \<in> C \<Longrightarrow> upper_ok m (R x)" and "x \<in> C \<Longrightarrow> user_tables m (R x) \<subseteq> managed_addrs a" and "x \<in> C \<Longrightarrow> counts_ok a m (R x)"
    and "x \<in> C \<Longrightarrow> no_big m (R x)"
  using assms by (auto simp: vinv_def ctx_ok_def)

lemma refcount_nonneg: "alloc_ok a \<Longrightarrow> t \<in> managed_addrs a \<Longrightarrow> 0 \<le> refcount (page_of a t)"
  using frame_no(3) [of a] free_refcount [of a] in_use_iff [of a] managed_frame [of t a]
  by (fastforce simp: alloc_ok_def in_use_def)

text \<open>Free frames are mapped nowhere.\<close>

lemma free_unmapped:
  assumes "vinv a m R C" "t \<in> free_addrs a"
  shows "mapped m R C t = {}"
proof -
  have ok: "alloc_ok a" and t: "t \<in> managed_addrs a" using vinvD(2) [OF assms(1)] pages.free_managed assms(2) by auto
  have "refcount (page_of a t) = 0" using pages.free_count [OF ok t] assms(2) by simp
  then have "card (mapped m R C t) = 0" using vinvD(5) [OF assms(1)] t by (auto simp: refs_ok_def)
  then show ?thesis using finite_mapped [OF vinvD(1) [OF assms(1)]] by simp
qed

text \<open>A change of the frames alone.\<close>

lemma vinv_frames:
  assumes "vinv a m R C" "alloc_ok a'" "managed_addrs a' = managed_addrs a" "\<And>x. x \<in> C \<Longrightarrow> tables m (R x) \<inter> free_addrs a' = {}"
    "refs_ok a' m R C" "\<And>x. x \<in> C \<Longrightarrow> counts_ok a' m (R x)"
  shows "vinv a' m R C"
  using assms by (simp add: vinv_def ctx_ok_def)

lemma user_leaf_table:
  assumes "vinv a m R C" "x \<in> C" "p \<in> upaths" "node m (R x) p = Some t"
  shows "t \<in> user_tables m (R x)" "t \<in> tables m (R x)" "t \<in> managed_addrs a" "t \<notin> free_addrs a"
proof -
  show u: "t \<in> user_tables m (R x)" using upathsD [OF assms(3)] assms(4) by (auto intro: user_tablesI)
  then show "t \<in> tables m (R x)" "t \<in> managed_addrs a" using user_sub vinvD(10) [OF assms(1,2)] by auto
  then show "t \<notin> free_addrs a" using vinvD(8) [OF assms(1,2)] by auto
qed

lemma vinv_take:
  assumes inv: "vinv a m R C" and ok: "alloc_ok a'" "managed_addrs a' = managed_addrs a" "free_addrs a' \<subseteq> free_addrs a"
    and pg: "\<And>t. t \<in> managed_addrs a \<Longrightarrow> t \<notin> free_addrs a \<Longrightarrow> refcount (page_of a' t) = refcount (page_of a t)
       \<and> pt_present_count (page_of a' t) = pt_present_count (page_of a t)"
  shows "vinv a' m R C"
proof (rule vinv_frames [OF inv ok(1,2)])
  show "tables m (R x) \<inter> free_addrs a' = {}" if "x \<in> C" for x using vinvD(8) [OF inv that] ok(3) by blast
  show "refs_ok a' m R C" unfolding refs_ok_def
  proof
    fix t assume t: "t \<in> managed_addrs a'"
    show "int (card (mapped m R C t)) \<le> refcount (page_of a' t)"
    proof (cases "t \<in> free_addrs a")
      case True
      then show ?thesis using free_unmapped [OF inv] refcount_nonneg [OF ok(1) t] by simp
    next
      case False
      then show ?thesis using pg [of t] vinvD(5) [OF inv] t ok(2) by (auto simp: refs_ok_def)
    qed
  qed
  show "counts_ok a' m (R x)" if x: "x \<in> C" for x
    unfolding counts_ok_def
  proof (intro ballI allI impI)
    fix p t assume p: "p \<in> upaths" "node m (R x) p = Some t"
    have "t \<in> managed_addrs a" "t \<notin> free_addrs a" using user_leaf_table [OF inv x p] by auto
    then show "pt_present_count (page_of a' t) = of_nat (card (present (m t)))"
      using pg [of t] vinvD(11) [OF inv x] p by (auto simp: counts_ok_def)
  qed
qed

text \<open>A context does not see changes outside its own tables.\<close>

lemma other_same:
  assumes "\<And>u i. u \<in> tables m r \<Longrightarrow> m' u i = m u i"
  shows "p \<in> paths \<Longrightarrow> node m' r p = node m r p" and "tables m' r = tables m r" and "user_tables m' r = user_tables m r"
    and "once m' r = once m r" and "p \<in> paths \<Longrightarrow> leaf m' r i p = leaf m r i p" and "p \<in> paths \<Longrightarrow> big m' r i p = big m r i p"
    and "upper_ok m' r = upper_ok m r"
proof -
  have n: "node m' r p = node m r p" if "p \<in> paths" for p
    using that by (rule node_cong) (auto intro!: assms dest: tablesI)
  then show "p \<in> paths \<Longrightarrow> node m' r p = node m r p" by simp
  show "tables m' r = tables m r" "user_tables m' r = user_tables m r" "once m' r = once m r"
    using n by (auto simp: tables_def user_tables_def once_def)
  have e: "m' u i = m u i" if "p \<in> paths" "node m r p = Some u" for p u i using assms tablesI [OF that] by simp
  show "p \<in> paths \<Longrightarrow> leaf m' r i p = leaf m r i p" "p \<in> paths \<Longrightarrow> big m' r i p = big m r i p"
    using n e by (auto simp: leaf_def big_def split: option.splits)
  show "upper_ok m' r = upper_ok m r" using n e unfolding upper_ok_def by metis
qed

lemma other_counts:
  assumes "\<And>u i. u \<in> tables m r \<Longrightarrow> m' u i = m u i"
  shows "counts_ok a m' r = counts_ok a m r" and "no_big m' r = no_big m r"
proof -
  have n: "node m' r p = node m r p" if "p \<in> paths" for p by (rule other_same(1) [OF assms that])
  have "m' t = m t" if "p \<in> upaths" "node m r p = Some t" for p t using assms [of t] tablesI [of p] that upathsD [of p] by (auto simp: fun_eq_iff)
  then show "counts_ok a m' r = counts_ok a m r" using n upathsD unfolding counts_ok_def by metis
  have "big m' r i p = big m r i p" if "p \<in> paths" for i p by (rule other_same(6) [OF assms that])
  then show "no_big m' r = no_big m r" by (simp add: no_big_def)
qed

lemma mapped_cong:
  "(\<And>x i p. x \<in> C \<Longrightarrow> p \<in> upaths \<Longrightarrow> leaf m' (R x) i p = leaf m (R x) i p) \<Longrightarrow> mapped m' R C t = mapped m R C t"
  by (auto simp: mapped_def)

lemma disjointD: "disjoint_ctx m R C \<Longrightarrow> x \<in> C \<Longrightarrow> y \<in> C \<Longrightarrow> x \<noteq> y \<Longrightarrow> user_tables m (R x) \<inter> tables m (R y) = {}"
  by (simp add: disjoint_ctx_def)

section \<open>Elementary changes\<close>

text \<open>A new table is hung into a user tree.\<close>

lemma mem_link:
  assumes inv: "vinv a m R C" and x: "x \<in> C" and p0: "p0 \<in> paths" "node m (R x) p0 = Some t" "length p0 \<le> 2"
    and i: "i < 512" "last (i # p0) < 256" "\<not> bit (m t i) 0"
    and new0: "new \<in> managed_addrs a" "new \<notin> free_addrs a" "\<forall>y\<in>C. new \<notin> tables m (R y)" "mapped m R C new = {}"
    and v: "bit v 0" "\<not> bit v 7" "v AND JLOS_PAGING_ADDR_MASK = new"
    and cnt: "length p0 = 2 \<longrightarrow> pt_present_count (page_of a new) = 0" and m': "m' = upd (m(new := (\<lambda>_. 0))) t i v"
  shows "vinv a m' R C" and "\<And>p. p \<in> paths \<Longrightarrow> node m' (R x) p = (if p = i # p0 then Some new else node m (R x) p)"
    and "\<And>y j q. y \<in> C \<Longrightarrow> q \<in> paths \<Longrightarrow> length q = 3 \<Longrightarrow> leaf m' (R y) j q = leaf m (R y) j q"
    and "\<And>y j q. y \<in> C \<Longrightarrow> q \<in> paths \<Longrightarrow> length q = 2 \<Longrightarrow> big m' (R y) j q = big m (R y) j q"
    and "\<And>u. u \<noteq> t \<Longrightarrow> u \<noteq> new \<Longrightarrow> m' u = m u"
proof -
  have new: "new \<in> managed_addrs a" "new \<notin> free_addrs a" "\<And>y. y \<in> C \<Longrightarrow> new \<notin> tables m (R y)" "mapped m R C new = {}"
    using new0 by auto
  note o = vinvD(7) [OF inv x]
  note L = link_update [OF o p0 i(1,3) new(3) [OF x] v m']
  show m'u: "m' u = m u" if "u \<noteq> t" "u \<noteq> new" for u using that by (simp add: m' upd_apply fun_eq_iff)
  have ut: "t \<in> user_tables m (R x)" using p0 i(2) by (intro user_tablesI) (auto split: if_splits)
  have other: "m' u j = m u j" if "y \<in> C" "y \<noteq> x" "u \<in> tables m (R y)" for y u j
  proof -
    have "u \<noteq> t" "u \<noteq> new" using that ut new(3) disjointD [OF vinvD(3) [OF inv] x that(1)] by auto
    then show ?thesis using m'u by simp
  qed
  show n: "node m' (R x) p = (if p = i # p0 then Some new else node m (R x) p)" if "p \<in> paths" for p by (rule L(1) [OF that])
  show lf: "leaf m' (R y) j q = leaf m (R y) j q" if "y \<in> C" "q \<in> paths" "length q = 3" for y j q
    using L(4) [OF that(2), of j] other_same(5) [of m "R y" m' q j, OF other that(2)] that by (cases "y = x") auto
  show bg: "big m' (R y) j q = big m (R y) j q" if "y \<in> C" "q \<in> paths" "length q = 2" for y j q
    using L(5) [OF that(2,3), of j] other_same(6) [of m "R y" m' q j, OF other that(2)] that by (cases "y = x") auto
  have mp: "mapped m' R C u = mapped m R C u" for u using lf upathsD by (intro mapped_cong) blast
  have tab: "tables m' (R y) = (if y = x then insert new (tables m (R x)) else tables m (R y))" if "y \<in> C" for y
    using L(2) other_same(2) [of m "R y" m', OF other] that by auto
  have utab: "user_tables m' (R y) = (if y = x then insert new (user_tables m (R x)) else user_tables m (R y))" if y: "y \<in> C" for y
  proof (cases "y = x")
    case True
    have ip: "i # p0 \<in> paths" "node m (R x) (i # p0) = None" using p0 i by simp_all
    have "u \<in> user_tables m' (R x) \<longleftrightarrow> u = new \<or> u \<in> user_tables m (R x)" for u
    proof
      assume "u \<in> user_tables m' (R x)"
      then obtain p where "p \<in> paths" "node m' (R x) p = Some u" "p = [] \<or> last p < 256" by (auto simp: user_tables_def)
      then show "u = new \<or> u \<in> user_tables m (R x)" using n by (auto simp: user_tables_def split: if_splits)
    next
      assume "u = new \<or> u \<in> user_tables m (R x)"
      then show "u \<in> user_tables m' (R x)"
      proof
        assume "u = new"
        then show ?thesis using n [OF ip(1)] i(2) by (intro user_tablesI [OF ip(1)]) auto
      next
        assume "u \<in> user_tables m (R x)"
        then obtain p where p: "p \<in> paths" "node m (R x) p = Some u" "p = [] \<or> last p < 256" by (auto simp: user_tables_def)
        then have "p \<noteq> i # p0" using ip(2) by auto
        then show ?thesis using n [OF p(1)] p by (intro user_tablesI [OF p(1)]) auto
      qed
    qed
    then show ?thesis using True by auto
  qed (use other_same(3) [of m "R y" m', OF other] y in auto)
  have "ctx_ok a m' (R y)" if y: "y \<in> C" for y
  proof (cases "y = x")
    case False
    note os = other_same [of m "R y" m', OF other [OF y False]] and oc = other_counts [of m "R y" m', OF other [OF y False]]
    show ?thesis using vinvD(6) [OF inv y] os oc by (simp add: ctx_ok_def)
  next
    case True
    have "counts_ok a m' (R x)" unfolding counts_ok_def
    proof (intro ballI allI impI)
      fix p u assume p: "p \<in> upaths" "node m' (R x) p = Some u"
      show "pt_present_count (page_of a u) = of_nat (card (present (m' u)))"
      proof (cases "p = i # p0")
        case True
        then have "u = new" "length p0 = 2" using n [of p] p upathsD [OF p(1)] by auto
        then show ?thesis using cnt L(7) by (simp add: present_def)
      next
        case False
        then have nu: "node m (R x) p = Some u" using n [of p] p upathsD [OF p(1)] by simp
        have "u \<noteq> t" using onceD [OF o _ p0(1) nu, of] p0(2,3) upathsD [OF p(1)] by auto
        moreover have "u \<noteq> new" using new(3) [OF x] user_leaf_table(2) [OF inv x p(1) nu] by auto
        ultimately show ?thesis using m'u vinvD(11) [OF inv x] p(1) nu by (simp add: counts_ok_def)
      qed
    qed
    moreover have "no_big m' (R x)" using vinvD(12) [OF inv x] bg [OF x] by (simp add: no_big_def)
    ultimately show ?thesis
      using True L(3,6) vinvD(8-10) [OF inv x] tab [OF x] utab [OF x] new(1,2) by (simp add: ctx_ok_def)
  qed
  moreover have "disjoint_ctx m' R C"
  proof -
    have "new \<notin> user_tables m (R y)" if "y \<in> C" for y using new(3) [OF that] user_sub by blast
    then show ?thesis
      unfolding disjoint_ctx_def using disjointD [OF vinvD(3) [OF inv]] tab utab new(3) by (auto split: if_splits)
  qed
  moreover have "targets_ok m' R C"
    using vinvD(4) [OF inv] tab new(4) x unfolding targets_ok_def mp by (auto split: if_splits)
  moreover have "refs_ok a m' R C" using vinvD(5) [OF inv] unfolding refs_ok_def mp .
  ultimately show "vinv a m' R C" using vinvD(1,2) [OF inv] by (simp add: vinv_def)
qed

text \<open>An entry of a lowest user table is rewritten.\<close>

lemma mapped_leaf:
  assumes inv: "vinv a m R C" and x: "x \<in> C" and p0: "p0 \<in> upaths" "node m (R x) p0 = Some t" and i: "i < 512" and m': "m' = upd m t i v"
  shows "\<And>y p. y \<in> C \<Longrightarrow> p \<in> paths \<Longrightarrow> node m' (R y) p = node m (R y) p"
    and "\<And>y j q. y \<in> C \<Longrightarrow> q \<in> paths \<Longrightarrow> length q = 3 \<Longrightarrow> leaf m' (R y) j q =
       (if y = x \<and> j = i \<and> q = p0 then if bit v 0 then Some v else None else leaf m (R y) j q)"
    and "\<And>y j q. y \<in> C \<Longrightarrow> q \<in> paths \<Longrightarrow> length q = 2 \<Longrightarrow> big m' (R y) j q = big m (R y) j q"
    and "mapped m' R C u = (mapped m R C u - {(x, i, p0)}) \<union> (if bit v 0 \<and> v AND JLOS_PAGING_ADDR_MASK = u then {(x, i, p0)} else {})"
    and "\<And>y. y \<in> C \<Longrightarrow> tables m' (R y) = tables m (R y) \<and> user_tables m' (R y) = user_tables m (R y)"
    and "\<And>y. y \<in> C \<Longrightarrow> once m' (R y) \<and> upper_ok m' (R y) \<and> no_big m' (R y)"
proof -
  note P = upathsD [OF p0(1)] and o = vinvD(7) [OF inv x]
  have p: "p0 \<in> paths" "length p0 = 3" using P by auto
  note L = leaf_update [OF o p(1) p0(2) p(2) m']
  have ut: "t \<in> user_tables m (R x)" using user_leaf_table(1) [OF inv x p0] .
  have other: "m' u j = m u j" if "y \<in> C" "y \<noteq> x" "u \<in> tables m (R y)" for y u j
  proof -
    have "u \<noteq> t" using that ut disjointD [OF vinvD(3) [OF inv] x that(1)] by auto
    then show ?thesis by (simp add: m' upd_apply)
  qed
  show n: "node m' (R y) p = node m (R y) p" if "y \<in> C" "p \<in> paths" for y p
    using L(1) other_same(1) [of m "R y" m' p, OF other] that by (cases "y = x") auto
  show lf: "leaf m' (R y) j q = (if y = x \<and> j = i \<and> q = p0 then if bit v 0 then Some v else None else leaf m (R y) j q)"
    if "y \<in> C" "q \<in> paths" "length q = 3" for y j q
    using L(4) [OF that(2), of j] other_same(5) [of m "R y" m' q j, OF other that(2)] that by (cases "y = x") auto
  show bg: "big m' (R y) j q = big m (R y) j q" if "y \<in> C" "q \<in> paths" "length q = 2" for y j q
    using L(5) [OF that(2,3), of j] other_same(6) [of m "R y" m' q j, OF other that(2)] that by (cases "y = x") auto
  show "mapped m' R C u = (mapped m R C u - {(x, i, p0)}) \<union> (if bit v 0 \<and> v AND JLOS_PAGING_ADDR_MASK = u then {(x, i, p0)} else {})"
    using x i p0(1) lf upathsD by (auto simp: mapped_def split: if_splits)
  show "tables m' (R y) = tables m (R y) \<and> user_tables m' (R y) = user_tables m (R y)" if "y \<in> C" for y
    using n [OF that] by (auto simp: tables_def user_tables_def)
  show "once m' (R y) \<and> upper_ok m' (R y) \<and> no_big m' (R y)" if y: "y \<in> C" for y
  proof -
    have "no_big m' (R y)" using vinvD(12) [OF inv y] bg [OF y] by (simp add: no_big_def)
    moreover have "once m' (R y)" using vinvD(7) [OF inv y] n [OF y] by (simp add: once_def)
    moreover have "upper_ok m' (R y)"
      using L(6) other_same(7) [of m "R y" m', OF other] vinvD(9) [OF inv y] y by (cases "y = x") auto
    ultimately show ?thesis by simp
  qed
qed

lemma mem_leaf:
  assumes inv: "vinv a m R C" and x: "x \<in> C" and p0: "p0 \<in> upaths" "node m (R x) p0 = Some t" and i: "i < 512" and m': "m' = upd m t i v"
    and a': "alloc_ok a'" "managed_addrs a' = managed_addrs a" "\<And>y. y \<in> C \<Longrightarrow> tables m (R y) \<inter> free_addrs a' = {}"
    and target: "\<And>y. bit v 0 \<Longrightarrow> y \<in> C \<Longrightarrow> v AND JLOS_PAGING_ADDR_MASK \<notin> tables m (R y)"
    and refs: "refs_ok a' m' R C"
    and cnt: "pt_present_count (page_of a' t) = of_nat (card (present (m' t)))"
      "\<And>y q u. y \<in> C \<Longrightarrow> q \<in> upaths \<Longrightarrow> node m (R y) q = Some u \<Longrightarrow> u \<noteq> t \<Longrightarrow> pt_present_count (page_of a' u) = pt_present_count (page_of a u)"
  shows "vinv a' m' R C"
proof -
  note M = mapped_leaf [OF inv x p0 i m']
  have "counts_ok a' m' (R y)" if y: "y \<in> C" for y unfolding counts_ok_def
  proof (intro ballI allI impI)
    fix p u assume p: "p \<in> upaths" "node m' (R y) p = Some u"
    then have nu: "node m (R y) p = Some u" using M(1) [OF y] upathsD by simp
    show "pt_present_count (page_of a' u) = of_nat (card (present (m' u)))"
    proof (cases "u = t")
      case True
      then show ?thesis using cnt(1) by simp
    next
      case False
      then have "m' u = m u" by (simp add: m' upd_apply fun_eq_iff)
      then show ?thesis using cnt(2) [OF y p(1) nu False] vinvD(11) [OF inv y] p(1) nu by (simp add: counts_ok_def)
    qed
  qed
  then have "ctx_ok a' m' (R y)" if "y \<in> C" for y
    using M(5,6) [OF that] a'(2,3) vinvD(10) [OF inv that] that by (simp add: ctx_ok_def)
  moreover have "disjoint_ctx m' R C" using vinvD(3) [OF inv] M(5) by (simp add: disjoint_ctx_def)
  moreover have "targets_ok m' R C"
    using vinvD(4) [OF inv] M(5) target unfolding targets_ok_def M(4) by auto
  ultimately show ?thesis using vinvD(1) [OF inv] a'(1) refs by (simp add: vinv_def)
qed

text \<open>An empty lowest user table leaves the tree.\<close>

lemma mem_unlink:
  assumes inv: "vinv a m R C" and x: "x \<in> C" and p0: "p0 \<in> paths" "node m (R x) p0 = Some t" "length p0 = 2"
    and i: "i < 512" "last p0 < 256" "node m (R x) (i # p0) = Some pt" and empty: "present (m pt) = {}" and m': "m' = upd m t i 0"
    and a': "alloc_ok a'" "managed_addrs a' = managed_addrs a" "free_addrs a' \<subseteq> insert pt (free_addrs a)"
    and pg0: "\<forall>u\<in>managed_addrs a. u \<notin> free_addrs a \<longrightarrow> u \<noteq> pt \<longrightarrow> refcount (page_of a' u) = refcount (page_of a u)
       \<and> pt_present_count (page_of a' u) = pt_present_count (page_of a u)"
  shows "vinv a' m' R C"
    and "\<And>y j q. y \<in> C \<Longrightarrow> j < 512 \<Longrightarrow> q \<in> paths \<Longrightarrow> length q = 3 \<Longrightarrow> leaf m' (R y) j q = leaf m (R y) j q"
    and "\<And>y j q. y \<in> C \<Longrightarrow> q \<in> paths \<Longrightarrow> length q = 2 \<Longrightarrow> big m' (R y) j q = big m (R y) j q"
proof -
  have pg: "\<And>u. u \<in> managed_addrs a \<Longrightarrow> u \<notin> free_addrs a \<Longrightarrow> u \<noteq> pt \<Longrightarrow> refcount (page_of a' u) = refcount (page_of a u)
       \<and> pt_present_count (page_of a' u) = pt_present_count (page_of a u)" using pg0 by blast
  note o = vinvD(7) [OF inv x]
  note L = unlink_update [OF o p0 i(1,3) m']
  have up: "i # p0 \<in> upaths" using p0 i by (auto simp: upaths_def)
  have ut: "t \<in> user_tables m (R x)" using p0 i(2) by (intro user_tablesI) auto
  have other: "m' u j = m u j" if "y \<in> C" "y \<noteq> x" "u \<in> tables m (R y)" for y u j
  proof -
    have "u \<noteq> t" using that ut disjointD [OF vinvD(3) [OF inv] x that(1)] by auto
    then show ?thesis by (simp add: m' upd_apply)
  qed
  have ptab: "pt \<in> user_tables m (R x)" "pt \<in> tables m (R x)" using user_leaf_table [OF inv x up i(3)] by auto
  have lf0: "leaf m (R x) j (i # p0) = None" if "j < 512" for j
    using empty that unfolding leaf_def i(3) by (auto simp: present_def)
  show lf: "leaf m' (R y) j q = leaf m (R y) j q" if "y \<in> C" "j < 512" "q \<in> paths" "length q = 3" for y j q
    using L(4) [OF that(3,4), of j] lf0 [OF that(2)] other_same(5) [of m "R y" m' q j, OF other that(3)] that by (cases "y = x") auto
  show bg: "big m' (R y) j q = big m (R y) j q" if "y \<in> C" "q \<in> paths" "length q = 2" for y j q
    using L(5) [OF that(2,3), of j] other_same(6) [of m "R y" m' q j, OF other that(2)] that by (cases "y = x") auto
  have mp: "mapped m' R C u = mapped m R C u" for u unfolding mapped_def using lf upathsD by auto
  have tab: "tables m' (R y) = tables m (R y) - (if y = x then {pt} else {})" if "y \<in> C" for y
    using L(2) other_same(2) [of m "R y" m', OF other] that by auto
  have utab: "user_tables m' (R y) \<subseteq> user_tables m (R y)" if y: "y \<in> C" for y
    using L(1) other_same(3) [of m "R y" m', OF other] y by (cases "y = x") (auto simp: user_tables_def split: if_splits)
  have ptn: "pt \<notin> tables m' (R y)" if "y \<in> C" for y
    using tab [OF that] ptab(1) disjointD [OF vinvD(3) [OF inv] x that] by auto
  have fr: "tables m' (R y) \<inter> free_addrs a' = {}" if "y \<in> C" for y
    using tab [OF that] ptn [OF that] a'(3) vinvD(8) [OF inv that] by auto
  have "counts_ok a' m' (R y)" if y: "y \<in> C" for y unfolding counts_ok_def
  proof (intro ballI allI impI)
    fix p u assume p: "p \<in> upaths" "node m' (R y) p = Some u"
    then have pp: "p \<in> paths" "length p = 3" using upathsD by auto
    have nu: "node m (R y) p = Some u"
      using p(2) L(1) [OF pp(1)] other_same(1) [of m "R y" m' p, OF other] y pp by (cases "y = x") (auto split: if_splits)
    have "u \<noteq> t" using onceD [OF o pp(1) p0(1) _ p0(2)] nu pp(2) p0(3) ut disjointD [OF vinvD(3) [OF inv] x y]
        tablesI [OF pp(1) nu] by (cases "y = x") auto
    then have "m' u = m u" by (simp add: m' upd_apply fun_eq_iff)
    moreover have "u \<noteq> pt" using ptn [OF y] tablesI [OF pp(1) p(2)] by auto
    ultimately show "pt_present_count (page_of a' u) = of_nat (card (present (m' u)))"
      using pg [of u] user_leaf_table(3,4) [OF inv y p(1) nu] vinvD(11) [OF inv y] p(1) nu by (simp add: counts_ok_def)
  qed
  moreover have "once m' (R y) \<and> upper_ok m' (R y) \<and> no_big m' (R y)" if y: "y \<in> C" for y
  proof -
    have "no_big m' (R y)" using vinvD(12) [OF inv y] bg [OF y] by (simp add: no_big_def)
    then show ?thesis using L(3,6) other_same(4,7) [of m "R y" m', OF other] vinvD(7,9) [OF inv y] y by (cases "y = x") auto
  qed
  ultimately have "ctx_ok a' m' (R y)" if "y \<in> C" for y
    using that fr [OF that] utab [OF that] vinvD(10) [OF inv that] a'(2) unfolding ctx_ok_def by blast
  moreover have "disjoint_ctx m' R C"
    unfolding disjoint_ctx_def using disjointD [OF vinvD(3) [OF inv]] tab utab by fastforce
  moreover have "targets_ok m' R C" using vinvD(4) [OF inv] tab unfolding targets_ok_def mp by auto
  moreover have "refs_ok a' m' R C" unfolding refs_ok_def mp
  proof
    fix u assume u: "u \<in> managed_addrs a'"
    consider "u \<in> free_addrs a" | "u = pt" | "u \<notin> free_addrs a" "u \<noteq> pt" by blast
    then show "int (card (mapped m R C u)) \<le> refcount (page_of a' u)"
    proof cases
      case 1
      then show ?thesis using free_unmapped [OF inv] refcount_nonneg [OF a'(1) u] by simp
    next
      case 2
      then have "mapped m R C u = {}" using vinvD(4) [OF inv] ptab(2) x by (simp add: targets_ok_def)
      then show ?thesis using refcount_nonneg [OF a'(1) u] by simp
    next
      case 3
      then show ?thesis using pg [of u] u a'(2) vinvD(5) [OF inv] by (simp add: refs_ok_def)
    qed
  qed
  ultimately show "vinv a' m' R C" using vinvD(1) [OF inv] a'(1) by (simp add: vinv_def)
qed

end
