(* ===== verification/Paging_Ops.thy ===== *)
theory Paging_Ops
  imports Paging_Maps
begin

text \<open>
  The operations of \<^verbatim>\<open>arch/x86/paging.c\<close> on address spaces that satisfy the invariant of
  \<open>Paging_Maps\<close>: what they return, and what they leave of the view that every context has
  of its memory.
\<close>

section \<open>Indices\<close>

abbreviation pti :: "u64 \<Rightarrow> nat" where "pti \<equiv> jlos_paging_get_page_table_index"
abbreviation pdi :: "u64 \<Rightarrow> nat" where "pdi \<equiv> jlos_paging_get_page_dir_index"

definition upper :: "u64 \<Rightarrow> nat list" where
  "upper va = [jlos_paging_get_pdpt_index va, jlos_paging_get_pml4_index va]"

definition vpath :: "u64 \<Rightarrow> nat list" where
  "vpath va = pdi va # upper va"

lemma and_511: "unat (w AND 0x1FF :: u64) = unat w mod 512"
  using unat_and_mask [of 9 w] by simp

lemma index_lt [simp]:
  "jlos_paging_get_pml4_index va < 512" "jlos_paging_get_pdpt_index va < 512" "pdi va < 512" "pti va < 512"
  by (simp_all add: jlos_paging_get_pml4_index_def jlos_paging_get_pdpt_index_def jlos_paging_get_page_dir_index_def
      jlos_paging_get_page_table_index_def and_511)

lemma user_index: "va < USER_SPACE_LIMIT \<Longrightarrow> jlos_paging_get_pml4_index va < 256"
proof -
  assume "va < USER_SPACE_LIMIT"
  then have "unat va < 2 ^ 47" by (simp add: word_less_nat_alt)
  then have "unat va div 2 ^ 39 < 256" by (simp add: div_less_iff_less_mult)
  then show ?thesis by (simp add: jlos_paging_get_pml4_index_def and_511 unat_drop_bit)
qed

lemma path_facts [simp]: "upper va \<in> paths" "length (upper va) = 2" "vpath va \<in> paths" "length (vpath va) = 3"
  by (simp_all add: upper_def vpath_def)

lemma user_path: "va < USER_SPACE_LIMIT \<Longrightarrow> vpath va \<in> upaths" "va < USER_SPACE_LIMIT \<Longrightarrow> last (upper va) < 256"
  using user_index [of va] path_facts(3,4) [of va] by (simp_all add: upaths_def vpath_def upper_def)

section \<open>The invariant on states\<close>

definition roots :: "vmem \<Rightarrow> nat \<Rightarrow> u64" where
  "roots s x = the (root (ctxs s x))"

definition vm_inv :: "vmem \<Rightarrow> nat set \<Rightarrow> bool" where
  "vm_inv s C \<longleftrightarrow> boot_heap s = None \<and> (\<forall>x\<in>C. root (ctxs s x) \<noteq> None) \<and> vinv (frames s) (pmem s) (roots s) C"

lemma vm_invD: "vm_inv s C \<Longrightarrow> boot_heap s = None" "vm_inv s C \<Longrightarrow> x \<in> C \<Longrightarrow> root (ctxs s x) = Some (roots s x)"
  "vm_inv s C \<Longrightarrow> vinv (frames s) (pmem s) (roots s) C"
  by (auto simp: vm_inv_def roots_def)

lemma store_mem: "pmem (store t i v s) = upd (pmem s) t i v"
  by (simp add: store_def upd_def)

lemma op_fields [simp]:
  "frames (store t i v s) = frames s" "ctxs (store t i v s) = ctxs s" "boot_heap (store t i v s) = boot_heap s"
  "active (store t i v s) = active s" "flushes (store t i v s) = flushes s"
  "frames (clear_frame t s) = frames s" "ctxs (clear_frame t s) = ctxs s" "boot_heap (clear_frame t s) = boot_heap s"
  "active (clear_frame t s) = active s" "flushes (clear_frame t s) = flushes s"
  "frames (set_ctx x u s) = frames s" "pmem (set_ctx x u s) = pmem s" "boot_heap (set_ctx x u s) = boot_heap s"
  "active (set_ctx x u s) = active s" "flushes (set_ctx x u s) = flushes s"
  by (simp_all add: store_def clear_frame_def set_ctx_def)

lemma clear_mem: "pmem (clear_frame t s) = (pmem s)(t := (\<lambda>_. 0))"
  by (simp add: clear_frame_def)

lemma roots_ops [simp]: "roots (store t i v s) = roots s" "roots (clear_frame t s) = roots s" "roots (s\<lparr>frames := a\<rparr>) = roots s"
  by (auto simp: roots_def)

lemma roots_ctx [simp]: "roots (set_ctx x (\<lambda>k. k\<lparr>num_page_tables := f k\<rparr>) s) = roots s"
  and ctx_root [simp]: "root (ctxs (set_ctx x (\<lambda>k. k\<lparr>num_page_tables := f k\<rparr>) s) y) = root (ctxs s y)"
  by (auto simp: roots_def set_ctx_def)

section \<open>Reading\<close>

definition entry :: "vmem \<Rightarrow> nat \<Rightarrow> u64 \<Rightarrow> u64 option" where
  "entry s x va = leaf (pmem s) (roots s x) (pti va) (vpath va)"

definition large :: "vmem \<Rightarrow> nat \<Rightarrow> u64 \<Rightarrow> u64 option" where
  "large s x va = big (pmem s) (roots s x) (pdi va) (upper va)"

lemma upperD: "upper_ok m r \<Longrightarrow> p \<in> paths \<Longrightarrow> length p \<le> 1 \<Longrightarrow> node m r p = Some t \<Longrightarrow> i < 512 \<Longrightarrow> bit (m t i) 0 \<Longrightarrow> \<not> bit (m t i) 7"
  by (auto simp: upper_ok_def)

lemma upper_steps:
  fixes va :: u64
  assumes inv: "vm_inv s C" and x: "x \<in> C"
  defines "e \<equiv> pmem s (roots s x) (jlos_paging_get_pml4_index va)"
  shows "node (pmem s) (roots s x) [jlos_paging_get_pml4_index va] = (if bit e 0 then Some (e AND JLOS_PAGING_ADDR_MASK) else None)"
    and "node (pmem s) (roots s x) (upper va) = (if bit e 0 then
       (let f = pmem s (e AND JLOS_PAGING_ADDR_MASK) (jlos_paging_get_pdpt_index va)
        in if bit f 0 then Some (f AND JLOS_PAGING_ADDR_MASK) else None) else None)"
proof -
  have up: "upper_ok (pmem s) (roots s x)" by (rule vinvD(9) [OF vm_invD(3) [OF inv] x])
  have e: "bit e 0 \<Longrightarrow> \<not> bit e 7" using upperD [OF up, of "[]"] unfolding e_def by simp
  then show n: "node (pmem s) (roots s x) [jlos_paging_get_pml4_index va] = (if bit e 0 then Some (e AND JLOS_PAGING_ADDR_MASK) else None)"
    by (simp add: e_def)
  let ?f = "pmem s (e AND JLOS_PAGING_ADDR_MASK) (jlos_paging_get_pdpt_index va)"
  have "\<not> bit ?f 7" if "bit e 0" "bit ?f 0"
  proof -
    have "node (pmem s) (roots s x) [jlos_paging_get_pml4_index va] = Some (e AND JLOS_PAGING_ADDR_MASK)" using n that(1) by simp
    then show ?thesis by (rule upperD [OF up _ _ _ _ that(2), rotated 2]) simp_all
  qed
  then show "node (pmem s) (roots s x) (upper va) = (if bit e 0 then
       (let f = ?f in if bit f 0 then Some (f AND JLOS_PAGING_ADDR_MASK) else None) else None)"
    using n unfolding upper_def by (simp add: Let_def)
qed

lemma walk_node:
  assumes "vm_inv s C" "x \<in> C"
  shows "pte_walk x va s = map_option (\<lambda>t. (t, pti va)) (node (pmem s) (roots s x) (vpath va))"
proof -
  note r = vm_invD(2) [OF assms] and u = upper_steps(2) [OF assms, of va]
  let ?e = "pmem s (roots s x) (jlos_paging_get_pml4_index va)"
  let ?f = "pmem s (?e AND JLOS_PAGING_ADDR_MASK) (jlos_paging_get_pdpt_index va)"
  have ps: "\<not> bit ?f 7" if "bit ?e 0" "bit ?f 0"
  proof -
    have "node (pmem s) (roots s x) [jlos_paging_get_pml4_index va] = Some (?e AND JLOS_PAGING_ADDR_MASK)"
      using upper_steps(1) [OF assms, of va] that(1) by simp
    then show ?thesis by (rule upperD [OF vinvD(9) [OF vm_invD(3) [OF assms(1)] assms(2)] _ _ _ _ that(2), rotated 2]) simp_all
  qed
  show ?thesis
  proof (cases "bit ?e 0 \<and> bit ?f 0")
    case True
    then show ?thesis using r u ps by (simp add: pte_walk_def vpath_def Let_def)
  next
    case False
    then have "node (pmem s) (roots s x) (upper va) = None" using u by (auto simp: Let_def)
    then show ?thesis using r False by (auto simp: pte_walk_def vpath_def Let_def)
  qed
qed

lemma pte_reads:
  assumes "vm_inv s C" "x \<in> C"
  shows "jlos_arch_pte_present x va s \<longleftrightarrow> entry s x va \<noteq> None"
    and "jlos_arch_pte_phys x va s = (case entry s x va of None \<Rightarrow> 0 | Some e \<Rightarrow> e AND JLOS_PAGING_ADDR_MASK)"
    and "jlos_arch_pte_get_prot x va s = (case entry s x va of None \<Rightarrow> 0 | Some e \<Rightarrow> prot_of e)"
  by (auto simp: jlos_arch_pte_present_def jlos_arch_pte_phys_def jlos_arch_pte_get_prot_def walk_node [OF assms] entry_def leaf_def
      split: option.splits)

lemma phys_read:
  assumes "vm_inv s C" "x \<in> C"
  shows "jlos_arch_get_phys_entry x va s = (case large s x va of
      Some e \<Rightarrow> (e AND JLOS_PAGING_LARGE_ADDR_MASK) OR (va AND (JLOS_PAGING_LARGE_SIZE - 1))
    | None \<Rightarrow> (case entry s x va of None \<Rightarrow> 0 | Some e \<Rightarrow> (e AND JLOS_PAGING_ADDR_MASK) OR jlos_paging_get_page_offset va))"
proof -
  note r = vm_invD(2) [OF assms] and u = upper_steps(2) [OF assms, of va]
  show ?thesis using r u
    by (simp add: jlos_arch_get_phys_entry_def large_def entry_def big_def leaf_def vpath_def Let_def split: option.splits)
qed

lemma views_determine:
  assumes "vm_inv s C" "vm_inv s' C" "x \<in> C" "entry s' x va = entry s x va" "large s' x va = large s x va"
  shows "jlos_arch_get_phys_entry x va s' = jlos_arch_get_phys_entry x va s" "jlos_arch_pte_get_prot x va s' = jlos_arch_pte_get_prot x va s"
  by (simp_all only: phys_read [OF assms(1,3)] phys_read [OF assms(2,3)] pte_reads(3) [OF assms(1,3)] pte_reads(3) [OF assms(2,3)] assms(4,5))

section \<open>Page records of tables\<close>

definition set_record :: "u64 \<Rightarrow> (jlos_page \<Rightarrow> jlos_page) \<Rightarrow> pfa \<Rightarrow> pfa" where
  "set_record t u a = set_page (pfa_phys_to_frame a (ucast t)) u a"

lemma set_record_result:
  assumes ok: "alloc_ok a" and t: "t \<in> managed_addrs a" "t \<notin> free_addrs a" and u0: "\<forall>p. in_use p \<longrightarrow> in_use (u p)"
  shows "alloc_ok (set_record t u a)" "managed_addrs (set_record t u a) = managed_addrs a" "free_addrs (set_record t u a) = free_addrs a"
    and "page_of (set_record t u a) w = (if pfa_phys_to_frame a (ucast w) = pfa_phys_to_frame a (ucast t) then u (page_of a t) else page_of a w)"
    and "w \<in> managed_addrs a \<Longrightarrow> page_of (set_record t u a) w = (if w = t then u (page_of a t) else page_of a w)"
proof -
  have inv: "buddy_inv a {}" using ok by (simp add: alloc_ok_def)
  obtain f where f: "f < s_total_frames a" "t = frame_addr a f" using managed_frame [OF t(1)] by blast
  have fn: "pfa_phys_to_frame a (ucast t) = f" using frame_no(2) [OF ok f(1)] f(2) by simp
  have nf: "f \<notin> free_set a" using t(2) free_addr_iff [OF ok f(1)] f(2) by simp
  then have use: "in_use (s_pages a f)" using in_use_iff [OF inv f(1)] by simp
  have u: "in_use (u (s_pages a f))" using u0 use by simp
  note k = inv_used_set_page [where u = u, OF inv f(1) nf u]
  have lay: "s_total_frames (set_record t u a) = s_total_frames a" "s_start_addr (set_record t u a) = s_start_addr a" by (simp_all add: set_record_def)
  show "alloc_ok (set_record t u a)" using same_layout(3) [OF lay _ ok] k(1) use by (simp add: set_record_def fn in_use_def)
  show "managed_addrs (set_record t u a) = managed_addrs a" by (rule same_layout(2) [OF lay])
  show "free_addrs (set_record t u a) = free_addrs a"
    using k(2) use same_layout(1) [OF lay] by (simp add: free_addrs_def set_record_def fn in_use_def)
  show pg: "page_of (set_record t u a) w = (if pfa_phys_to_frame a (ucast w) = pfa_phys_to_frame a (ucast t) then u (page_of a t) else page_of a w)" for w
    unfolding same_layout(4) [OF lay] by (simp add: set_record_def page_of_def)
  show "page_of (set_record t u a) w = (if w = t then u (page_of a t) else page_of a w)" if w: "w \<in> managed_addrs a"
  proof -
    obtain g where g: "g < s_total_frames a" "w = frame_addr a g" using managed_frame [OF w] by blast
    have "pfa_phys_to_frame a (ucast w) = g" using frame_no(2) [OF ok g(1)] g(2) by simp
    then show ?thesis using pg [of w] fn frame_addr_inj [OF ok g(1) f(1)] g(2) f(2) by auto
  qed
qed

lemma record_ops:
  assumes ok: "alloc_ok a" and t: "t \<in> managed_addrs a" "t \<notin> free_addrs a"
  shows "jlos_page_frame_set_owner_type (ucast t) ow ty a = Some (set_record t (\<lambda>p. p\<lparr>ptype := ty, owner := ow\<rparr>) a)"
    and "jlos_page_frame_pt_present_count_set (ucast t) n a = set_record t (\<lambda>p. p\<lparr>pt_present_count := n\<rparr>) a"
    and "jlos_page_frame_pt_present_count_inc (ucast t) a = set_record t (\<lambda>p. p\<lparr>pt_present_count := pt_present_count p + 1\<rparr>) a"
    and "jlos_page_frame_pt_present_count_dec (ucast t) a =
       (if 0 < pt_present_count (page_of a t) then set_record t (\<lambda>p. p\<lparr>pt_present_count := pt_present_count p - 1\<rparr>) a else a)"
    and "jlos_page_frame_pt_present_count_get (ucast t) a = ucast (pt_present_count (page_of a t))"
proof -
  have inv: "buddy_inv a {}" using ok by (simp add: alloc_ok_def)
  obtain f where f: "f < s_total_frames a" "t = frame_addr a f" using managed_frame [OF t(1)] by blast
  have fn: "pfa_phys_to_frame a (ucast t) = f" using frame_no(2) [OF ok f(1)] f(2) by simp
  have "f \<notin> free_set a" using t(2) free_addr_iff [OF ok f(1)] f(2) by simp
  then have use: "occupied (s_pages a f)" using in_use_iff [OF inv f(1)] by (simp add: in_use_def)
  have "\<not> ucast t < s_start_addr a"
    using frame_no(1) [OF ok f(1)] frame_unat [OF ok f(1)] f(2) by (simp add: word_less_nat_alt)
  then show "jlos_page_frame_set_owner_type (ucast t) ow ty a = Some (set_record t (\<lambda>p. p\<lparr>ptype := ty, owner := ow\<rparr>) a)"
    using fn f(1) use by (simp add: jlos_page_frame_set_owner_type_def set_record_def)
  show "jlos_page_frame_pt_present_count_set (ucast t) n a = set_record t (\<lambda>p. p\<lparr>pt_present_count := n\<rparr>) a"
    and "jlos_page_frame_pt_present_count_inc (ucast t) a = set_record t (\<lambda>p. p\<lparr>pt_present_count := pt_present_count p + 1\<rparr>) a"
    and "jlos_page_frame_pt_present_count_dec (ucast t) a =
       (if 0 < pt_present_count (page_of a t) then set_record t (\<lambda>p. p\<lparr>pt_present_count := pt_present_count p - 1\<rparr>) a else a)"
    and "jlos_page_frame_pt_present_count_get (ucast t) a = ucast (pt_present_count (page_of a t))"
    using fn f(1) by (simp_all add: jlos_page_frame_pt_present_count_set_def jlos_page_frame_pt_present_count_inc_def
        jlos_page_frame_pt_present_count_dec_def jlos_page_frame_pt_present_count_get_def set_record_def page_of_def Let_def)
qed

section \<open>Growing the tree\<close>

text \<open>Adding tables changes no view and no memory but that of the context's own user tables.\<close>

definition ext :: "nat set \<Rightarrow> nat \<Rightarrow> vmem \<Rightarrow> vmem \<Rightarrow> bool" where
  "ext C x s s' \<longleftrightarrow> vm_inv s' C \<and> roots s' = roots s \<and> active s' = active s \<and> flushes s' = flushes s
     \<and> (\<forall>y\<in>C. \<forall>j. \<forall>q\<in>paths. (length q = 3 \<longrightarrow> leaf (pmem s') (roots s y) j q = leaf (pmem s) (roots s y) j q)
          \<and> (length q = 2 \<longrightarrow> big (pmem s') (roots s y) j q = big (pmem s) (roots s y) j q))
     \<and> (\<forall>p\<in>paths. \<forall>w. node (pmem s) (roots s x) p = Some w \<longrightarrow> node (pmem s') (roots s x) p = Some w)
     \<and> managed_addrs (frames s') = managed_addrs (frames s) \<and> free_addrs (frames s') \<subseteq> free_addrs (frames s)
     \<and> (\<forall>u\<in>managed_addrs (frames s). u \<notin> free_addrs (frames s) \<longrightarrow> refcount (page_of (frames s') u) = refcount (page_of (frames s) u))
     \<and> user_tables (pmem s') (roots s x) \<subseteq> user_tables (pmem s) (roots s x) \<union> free_addrs (frames s)
     \<and> (\<forall>y\<in>C. tables (pmem s') (roots s y) \<subseteq> tables (pmem s) (roots s y) \<union> free_addrs (frames s))
     \<and> (\<forall>u. u \<notin> free_addrs (frames s) \<longrightarrow> u \<notin> user_tables (pmem s) (roots s x) \<longrightarrow> pmem s' u = pmem s u)"

lemma extD:
  assumes "ext C x s s'"
  shows "vm_inv s' C" "roots s' = roots s" "active s' = active s" "flushes s' = flushes s"
    and "\<And>y j q. y \<in> C \<Longrightarrow> q \<in> paths \<Longrightarrow> length q = 3 \<Longrightarrow> leaf (pmem s') (roots s y) j q = leaf (pmem s) (roots s y) j q"
    and "\<And>y j q. y \<in> C \<Longrightarrow> q \<in> paths \<Longrightarrow> length q = 2 \<Longrightarrow> big (pmem s') (roots s y) j q = big (pmem s) (roots s y) j q"
    and "\<And>p w. p \<in> paths \<Longrightarrow> node (pmem s) (roots s x) p = Some w \<Longrightarrow> node (pmem s') (roots s x) p = Some w"
    and "managed_addrs (frames s') = managed_addrs (frames s)" "free_addrs (frames s') \<subseteq> free_addrs (frames s)"
    and "\<And>u. u \<in> managed_addrs (frames s) \<Longrightarrow> u \<notin> free_addrs (frames s) \<Longrightarrow> refcount (page_of (frames s') u) = refcount (page_of (frames s) u)"
    and "user_tables (pmem s') (roots s x) \<subseteq> user_tables (pmem s) (roots s x) \<union> free_addrs (frames s)"
    and "\<And>y. y \<in> C \<Longrightarrow> tables (pmem s') (roots s y) \<subseteq> tables (pmem s) (roots s y) \<union> free_addrs (frames s)"
    and "\<And>u. u \<notin> free_addrs (frames s) \<Longrightarrow> u \<notin> user_tables (pmem s) (roots s x) \<Longrightarrow> pmem s' u = pmem s u"
  using assms by (auto simp: ext_def)

lemma ext_refl: "vm_inv s C \<Longrightarrow> ext C x s s"
  by (simp add: ext_def)

lemma ext_trans [trans]:
  assumes a: "ext C x s s1" and b: "ext C x s1 s2"
  shows "ext C x s s2"
proof -
  note A = extD [OF a] and B = extD [OF b]
  show ?thesis
    unfolding ext_def
  proof (intro conjI ballI allI impI)
    show "vm_inv s2 C" "roots s2 = roots s" "active s2 = active s" "flushes s2 = flushes s" using A(2-4) B(1-4) by simp_all
    show "leaf (pmem s2) (roots s y) j q = leaf (pmem s) (roots s y) j q" if "y \<in> C" "q \<in> paths" "length q = 3" for y j q
      using A(5) [OF that] B(5) [OF that] A(2) by simp
    show "big (pmem s2) (roots s y) j q = big (pmem s) (roots s y) j q" if "y \<in> C" "q \<in> paths" "length q = 2" for y j q
      using A(6) [OF that] B(6) [OF that] A(2) by simp
    show "node (pmem s2) (roots s x) p = Some w" if "p \<in> paths" "node (pmem s) (roots s x) p = Some w" for p w
      using A(7) [OF that] B(7) [OF that(1)] A(2) by simp
    show "managed_addrs (frames s2) = managed_addrs (frames s)" "free_addrs (frames s2) \<subseteq> free_addrs (frames s)"
      using A(8,9) B(8,9) by auto
    show "refcount (page_of (frames s2) u) = refcount (page_of (frames s) u)" if "u \<in> managed_addrs (frames s)" "u \<notin> free_addrs (frames s)" for u
      using A(8,9) A(10) [OF that] B(10) [of u] that by auto
    show "user_tables (pmem s2) (roots s x) \<subseteq> user_tables (pmem s) (roots s x) \<union> free_addrs (frames s)"
      using A(2,9,11) B(11) by auto
    show "tables (pmem s2) (roots s y) \<subseteq> tables (pmem s) (roots s y) \<union> free_addrs (frames s)" if "y \<in> C" for y
      using A(2,9) A(12) [OF that] B(12) [OF that] by auto
    show "pmem s2 u = pmem s u" if "u \<notin> free_addrs (frames s)" "u \<notin> user_tables (pmem s) (roots s x)" for u
      using that A(2,9,11) A(13) [OF that] B(13) [of u] by auto
  qed
qed

lemma ext_frames:
  assumes inv: "vm_inv s C" and a: "alloc_ok a" "managed_addrs a = managed_addrs (frames s)" "free_addrs a \<subseteq> free_addrs (frames s)"
    and pg: "\<And>t. t \<in> managed_addrs (frames s) \<Longrightarrow> t \<notin> free_addrs (frames s) \<Longrightarrow> refcount (page_of a t) = refcount (page_of (frames s) t)
       \<and> pt_present_count (page_of a t) = pt_present_count (page_of (frames s) t)"
  shows "ext C x s (s\<lparr>frames := a\<rparr>)"
proof -
  have "vinv a (pmem s) (roots s) C" by (rule vinv_take [OF vm_invD(3) [OF inv] a pg])
  then have "vm_inv (s\<lparr>frames := a\<rparr>) C" using inv by (simp add: vm_inv_def)
  then show ?thesis using a(2,3) pg by (simp add: ext_def)
qed

lemma hang_table:
  assumes inv: "vm_inv s C" and x: "x \<in> C" and p0: "p0 \<in> paths" "node (pmem s) (roots s x) p0 = Some t" "length p0 \<le> 2"
    and i: "i < 512" "last (i # p0) < 256" "\<not> bit (pmem s t i) 0"
    and new: "new \<in> free_addrs (frames s)" "free_addrs a = free_addrs (frames s) - {new}"
    and a: "alloc_ok a" "managed_addrs a = managed_addrs (frames s)" "length p0 = 2 \<longrightarrow> pt_present_count (page_of a new) = 0"
    and pg: "\<And>t. t \<in> managed_addrs (frames s) \<Longrightarrow> t \<notin> free_addrs (frames s) \<Longrightarrow> page_of a t = page_of (frames s) t"
    and u: "u = 0 \<or> u = JLOS_PTE_USER"
    and s': "frames s' = a" "pmem s' = upd ((pmem s)(new := (\<lambda>_. 0))) t i (new OR JLOS_PTE_PRESENT OR JLOS_PTE_WRITABLE OR u)"
      "\<And>y. root (ctxs s' y) = root (ctxs s y)" "boot_heap s' = boot_heap s" "active s' = active s" "flushes s' = flushes s"
  shows "ext C x s s'" and "node (pmem s') (roots s x) (i # p0) = Some new"
proof -
  note vi = vm_invD(3) [OF inv]
  have nm: "new \<in> managed_addrs (frames s)" using pages.free_managed [OF vinvD(2) [OF vi]] new(1) by blast
  have al: "new AND JLOS_PAGING_ADDR_MASK = new" using pages.aligned [OF vinvD(2) [OF vi] nm] .
  have va: "vinv a (pmem s) (roots s) C" using a(1,2) new(2) pg by (intro vinv_take [OF vi]) auto
  have n: "new \<in> managed_addrs a" "new \<notin> free_addrs a" "\<forall>y\<in>C. new \<notin> tables (pmem s) (roots s y)" "mapped (pmem s) (roots s) C new = {}"
    using nm new a(2) vinvD(8) [OF vi] free_unmapped [OF vi new(1)] by auto
  note lb = link_bits [OF al u]
  note K = mem_link [OF va x p0 i n lb a(3) s'(2)]
  have R: "roots s' = roots s" using s'(3) by (auto simp: roots_def)
  have vm: "vm_inv s' C" using K(1) s'(1,3,4) R inv by (simp add: vm_inv_def)
  show "node (pmem s') (roots s x) (i # p0) = Some new" using K(2) [of "i # p0"] p0 i by simp
  have ip: "node (pmem s) (roots s x) (i # p0) = None" using p0(2) i(3) by simp
  have ut: "t \<in> user_tables (pmem s) (roots s x)" using p0 i(2) by (intro user_tablesI) (auto split: if_splits)
  show "ext C x s s'"
    unfolding ext_def
  proof (intro conjI ballI allI impI)
    show "vm_inv s' C" by (rule vm)
    show "roots s' = roots s" "active s' = active s" "flushes s' = flushes s" using R s' by simp_all
    show "leaf (pmem s') (roots s y) j q = leaf (pmem s) (roots s y) j q" if "y \<in> C" "q \<in> paths" "length q = 3" for y j q
      by (rule K(3) [OF that])
    show "big (pmem s') (roots s y) j q = big (pmem s) (roots s y) j q" if "y \<in> C" "q \<in> paths" "length q = 2" for y j q
      by (rule K(4) [OF that])
    show "node (pmem s') (roots s x) p = Some w" if "p \<in> paths" "node (pmem s) (roots s x) p = Some w" for p w
      using K(2) [OF that(1)] that(2) ip by auto
    show "managed_addrs (frames s') = managed_addrs (frames s)" "free_addrs (frames s') \<subseteq> free_addrs (frames s)"
      using s'(1) a(2) new(2) by auto
    show "refcount (page_of (frames s') w) = refcount (page_of (frames s) w)" if "w \<in> managed_addrs (frames s)" "w \<notin> free_addrs (frames s)" for w
      using pg [OF that] s'(1) by simp
    show "user_tables (pmem s') (roots s x) \<subseteq> user_tables (pmem s) (roots s x) \<union> free_addrs (frames s)"
      using K(2) new(1) by (auto simp: user_tables_def split: if_splits)
    show "tables (pmem s') (roots s y) \<subseteq> tables (pmem s) (roots s y) \<union> free_addrs (frames s)" if y: "y \<in> C" for y
    proof (cases "y = x")
      case True
      then show ?thesis using K(2) new(1) by (auto simp: tables_def split: if_splits)
    next
      case False
      have "pmem s' w k = pmem s w k" if "w \<in> tables (pmem s) (roots s y)" for w k
      proof -
        have "w \<noteq> t" "w \<noteq> new" using that ut n(3) y disjointD [OF vinvD(3) [OF vi] x y] False by auto
        then show ?thesis using K(5) [of w] by simp
      qed
      then show ?thesis using other_same(2) [of "pmem s" "roots s y" "pmem s'"] by auto
    qed
    show "pmem s' w = pmem s w" if "w \<notin> free_addrs (frames s)" "w \<notin> user_tables (pmem s) (roots s x)" for w
      using K(5) [of w] that ut new(1) by auto
  qed
qed

text \<open>A CPU has no frame left when its cache and the buddy lists are empty.\<close>

definition exhausted :: "nat \<Rightarrow> pfa \<Rightarrow> bool" where
  "exhausted c a \<longleftrightarrow> covered a = {} \<and> s_percpu a c = []"

lemma alloc_none:
  assumes "alloc_ok a" "frame_alloc c a = Some (None, a')"
  shows "exhausted c a'"
proof -
  have inv: "buddy_inv a {}" using assms(1) by (simp add: alloc_ok_def)
  show ?thesis
  proof (cases rule: malloc_cases [OF inv, of c, case_names empty frame])
    case (empty b)
    then have b: "b = a'" using assms(2) by (simp add: frame_alloc_def)
    have "cached b = cached a" using empty(6) by (simp add: cached_def)
    then have "covered b \<subseteq> cached b" using empty(3,4) by (auto simp: shuffle_def free_set_def)
    moreover have "cached b \<inter> covered b = {}" using empty(2) by (simp add: buddy_inv_def cache_inv_def)
    ultimately have "covered b = {}" by blast
    then show ?thesis using b empty(5,6) by (simp add: exhausted_def)
  next
    case (frame b f)
    then show ?thesis using assms(2) by (simp add: frame_alloc_def)
  qed
qed

lemma table_alloc:
  assumes "vm_inv s C"
  obtains (none) a where "paging_table_alloc c s = Some (None, s\<lparr>frames := a\<rparr>)" "ext C x s (s\<lparr>frames := a\<rparr>)" "exhausted c a"
  | (some) new a where "paging_table_alloc c s = Some (Some new, s\<lparr>frames := a\<rparr>)" "alloc_ok a" "managed_addrs a = managed_addrs (frames s)"
      "new \<in> free_addrs (frames s)" "free_addrs a = free_addrs (frames s) - {new}" "refcount (page_of a new) = 1"
      "\<forall>t. t \<in> managed_addrs (frames s) \<longrightarrow> t \<notin> free_addrs (frames s) \<longrightarrow> page_of a t = page_of (frames s) t"
proof -
  have ok: "alloc_ok (frames s)" using vinvD(2) [OF vm_invD(3) [OF assms]] .
  have eq: "paging_table_alloc c s = map_option (\<lambda>(r, a). (r, s\<lparr>frames := a\<rparr>)) (frame_alloc c (frames s))"
    using vm_invD(1) [OF assms]
    by (cases "jlos_page_frame_malloc c (frames s)") (auto simp: paging_table_alloc_def frame_malloc_def frame_alloc_def)
  obtain r a where r: "frame_alloc c (frames s) = Some (r, a)" "alloc_ok a" "managed_addrs a = managed_addrs (frames s)"
    "\<forall>t. t \<in> managed_addrs (frames s) \<longrightarrow> t \<notin> free_addrs (frames s) \<longrightarrow> page_of a t = page_of (frames s) t"
    "case r of None \<Rightarrow> free_addrs a = free_addrs (frames s)
     | Some t \<Rightarrow> t \<in> free_addrs (frames s) \<and> free_addrs a = free_addrs (frames s) - {t} \<and> refcount (page_of a t) = 1"
    using frame_alloc_law [OF ok, of c] by blast
  show thesis
  proof (cases r)
    case None
    then have "ext C x s (s\<lparr>frames := a\<rparr>)" using r(2-5) by (intro ext_frames [OF assms]) auto
    then show thesis using none [of a] eq r(1) None alloc_none [OF ok] by simp
  next
    case (Some t)
    then show thesis using some [of t a] eq r by simp
  qed
qed

lemma level_result:
  assumes inv: "vm_inv s C" and x: "x \<in> C" and p0: "p0 \<in> paths" "node (pmem s) (roots s x) p0 = Some t" "length p0 \<le> 1"
    and i: "i < 512" "last (i # p0) < 256"
  obtains (none) s' where "paging_level_ensure c x t i user s = Some (None, s')" "ext C x s s'" "exhausted c (frames s')"
  | (some) w s' where "paging_level_ensure c x t i user s = Some (Some w, s')" "ext C x s s'" "node (pmem s') (roots s x) (i # p0) = Some w"
proof (cases "bit (pmem s t i) 0")
  case True
  then have "\<not> bit (pmem s t i) 7" using upperD [OF vinvD(9) [OF vm_invD(3) [OF inv] x] p0(1,3,2) i(1)] by simp
  then show thesis using True p0(2) some [of _ s] ext_refl [OF inv] by (simp add: paging_level_ensure_def)
next
  case False
  show thesis
  proof (cases rule: table_alloc [OF inv, of c x, case_names none some])
    case (none a)
    then show thesis using that(1) False by (simp add: paging_level_ensure_def)
  next
    case (some new a)
    define s' where "s' = set_ctx x (\<lambda>k. k\<lparr>num_page_tables := num_page_tables k + 1\<rparr>)
      (store t i (new OR JLOS_PTE_PRESENT OR JLOS_PTE_WRITABLE OR (if user then JLOS_PTE_USER else 0)) (clear_frame new (s\<lparr>frames := a\<rparr>)))"
    have e: "paging_level_ensure c x t i user s = Some (Some new, s')"
      using some(1) False by (simp add: paging_level_ensure_def s'_def Let_def)
    have le: "length p0 \<le> 2" and cnt: "length p0 = 2 \<longrightarrow> pt_present_count (page_of a new) = 0" using p0(3) by auto
    have u: "(if user then JLOS_PTE_USER else 0) = 0 \<or> (if user then JLOS_PTE_USER else 0) = JLOS_PTE_USER" by simp
    have f: "frames s' = a"
      "pmem s' = upd ((pmem s)(new := (\<lambda>_. 0))) t i (new OR JLOS_PTE_PRESENT OR JLOS_PTE_WRITABLE OR (if user then JLOS_PTE_USER else 0))"
      "\<And>y. root (ctxs s' y) = root (ctxs s y)" "boot_heap s' = boot_heap s" "active s' = active s" "flushes s' = flushes s"
      by (simp_all add: s'_def store_mem clear_mem)
    have pg: "\<And>t. t \<in> managed_addrs (frames s) \<Longrightarrow> t \<notin> free_addrs (frames s) \<Longrightarrow> page_of a t = page_of (frames s) t" using some(7) by blast
    show thesis
      by (rule that(2) [OF e]; rule hang_table [OF inv x p0(1,2) le i False some(4,5,2,3) cnt pg u f])
  qed
qed

lemma table_result:
  assumes inv: "vm_inv s C" and x: "x \<in> C" and p0: "p0 \<in> paths" "node (pmem s) (roots s x) p0 = Some t" "length p0 = 2" "last p0 < 256"
    and i: "i < 512"
  obtains (none) s' where "page_table_ensure c x t i prot s = Some (None, s')" "ext C x s s'" "exhausted c (frames s')"
  | (some) w s' where "page_table_ensure c x t i prot s = Some (Some w, s')" "ext C x s s'" "node (pmem s') (roots s x) (i # p0) = Some w"
proof (cases "bit (pmem s t i) 0")
  case True
  have "big (pmem s) (roots s x) i p0 = None" using vinvD(12) [OF vm_invD(3) [OF inv] x] p0 i by (simp add: no_big_def)
  then have "\<not> bit (pmem s t i) 7" using True p0(2) by (auto simp: big_def split: if_splits)
  then show thesis using True p0(2) some [of _ s] ext_refl [OF inv] by (simp add: page_table_ensure_def)
next
  case False
  show thesis
  proof (cases rule: table_alloc [OF inv, of c x, case_names none some])
    case (none a)
    then show thesis using that(1) False by (simp add: page_table_ensure_def)
  next
    case (some new a)
    have new: "new \<in> managed_addrs a" "new \<notin> free_addrs a"
      using pages.free_managed [OF vinvD(2) [OF vm_invD(3) [OF inv]]] some(3-5) by auto
    define a1 where "a1 = set_record new (\<lambda>p. p\<lparr>ptype := TYPE_PAGE_TABLE, owner := 0\<rparr>) a"
    have iu: "\<forall>p. in_use p \<longrightarrow> in_use (p\<lparr>ptype := TYPE_PAGE_TABLE, owner := 0\<rparr>)" "\<forall>p. in_use p \<longrightarrow> in_use (p\<lparr>pt_present_count := 0\<rparr>)"
      by (simp_all add: in_use_def)
    note r1 = set_record_result [OF some(2) new iu(1), folded a1_def]
    have new1: "new \<in> managed_addrs a1" "new \<notin> free_addrs a1" using new r1(2,3) by simp_all
    define a2 where "a2 = set_record new (\<lambda>p. p\<lparr>pt_present_count := 0\<rparr>) a1"
    note r2 = set_record_result [OF r1(1) new1 iu(2), folded a2_def]
    define u where "u = pte_prot prot AND JLOS_PTE_USER"
    define s' where "s' = (set_ctx x (\<lambda>k. k\<lparr>num_page_tables := num_page_tables k + 1\<rparr>)
      (store t i (new OR JLOS_PTE_PRESENT OR JLOS_PTE_WRITABLE OR u) (clear_frame new (s\<lparr>frames := a\<rparr>))))\<lparr>frames := a2\<rparr>"
    have e: "page_table_ensure c x t i prot s = Some (Some new, s')"
      using some(1) False record_ops(1) [OF some(2) new] record_ops(2) [OF r1(1) new1]
      by (simp add: page_table_ensure_def s'_def Let_def with_frames_def u_def a1_def [symmetric] a2_def [symmetric])
    have le: "length p0 \<le> 2" and la: "last (i # p0) < 256" using p0(3,4) by auto
    have cnt: "length p0 = 2 \<longrightarrow> pt_present_count (page_of a2 new) = 0" using r2(5) [OF new1(1)] by simp
    have f: "frames s' = a2" "pmem s' = upd ((pmem s)(new := (\<lambda>_. 0))) t i (new OR JLOS_PTE_PRESENT OR JLOS_PTE_WRITABLE OR u)"
      "\<And>y. root (ctxs s' y) = root (ctxs s y)" "boot_heap s' = boot_heap s" "active s' = active s" "flushes s' = flushes s"
      by (simp_all add: s'_def store_mem clear_mem)
    have pg: "page_of a2 w = page_of (frames s) w" if "w \<in> managed_addrs (frames s)" "w \<notin> free_addrs (frames s)" for w
      using r2(5) [of w] r1(5) [of w] r1(2) some(3,4,7) that by auto
    have fr: "free_addrs a2 = free_addrs (frames s) - {new}" "managed_addrs a2 = managed_addrs (frames s)"
      using r2(2,3) r1(2,3) some(3,5) by simp_all
    have u0: "u = 0 \<or> u = JLOS_PTE_USER" unfolding u_def by (rule prot_user_bits)
    show thesis
      by (rule that(2) [OF e]; rule hang_table [OF inv x p0(1,2) le i la False some(4) fr(1) r2(1) fr(2) cnt pg u0 f])
  qed
qed

section \<open>Mapping a page\<close>

definition same_page :: "u64 \<Rightarrow> u64 \<Rightarrow> bool" where
  "same_page va w \<longleftrightarrow> pti w = pti va \<and> vpath w = vpath va"

lemma same_page_user:
  assumes "va < USER_SPACE_LIMIT" "w < USER_SPACE_LIMIT"
  shows "same_page va w \<longleftrightarrow> unat w div 4096 = unat va div 4096"
proof -
  have lt: "unat va < 2 ^ 47" "unat w < 2 ^ 47" using assms by (simp_all add: word_less_nat_alt)
  have d: "v div 2 ^ 12 div 2 ^ 9 = v div 2 ^ 21" "v div 2 ^ 21 div 2 ^ 9 = v div 2 ^ 30" "v div 2 ^ 30 div 2 ^ 9 = v div 2 ^ 39" for v :: nat
    by (simp_all add: div_mult2_eq [symmetric])
  have step: "(a div 512 = b div 512 \<and> a mod 512 = b mod 512) \<longleftrightarrow> a = b" for a b :: nat by (metis div_mult_mod_eq)
  have top: "v div 2 ^ 39 mod 512 = v div 2 ^ 39" if "v < 2 ^ 47" for v :: nat
  proof -
    have "v div 2 ^ 39 < 512" using that by (simp add: div_less_iff_less_mult)
    then show ?thesis by simp
  qed
  have "same_page va w \<longleftrightarrow> unat w div 2 ^ 12 mod 512 = unat va div 2 ^ 12 mod 512 \<and> unat w div 2 ^ 21 mod 512 = unat va div 2 ^ 21 mod 512
     \<and> unat w div 2 ^ 30 mod 512 = unat va div 2 ^ 30 mod 512 \<and> unat w div 2 ^ 39 = unat va div 2 ^ 39"
    by (simp only: same_page_def vpath_def upper_def list.inject simp_thms jlos_paging_get_pml4_index_def jlos_paging_get_pdpt_index_def
        jlos_paging_get_page_dir_index_def jlos_paging_get_page_table_index_def and_511 unat_drop_bit top [OF lt(1)] top [OF lt(2)])
  also have "\<dots> \<longleftrightarrow> unat w div 2 ^ 12 = unat va div 2 ^ 12"
    using d [of "unat w"] d [of "unat va"] step [of "unat w div 2 ^ 12" "unat va div 2 ^ 12"] step [of "unat w div 2 ^ 21" "unat va div 2 ^ 21"]
      step [of "unat w div 2 ^ 30" "unat va div 2 ^ 30"] by simp blast
  finally show ?thesis by simp
qed

text \<open>The outcome of a change of one page: its entry becomes \<open>e\<close>, every other view is the same.\<close>

definition repages :: "nat set \<Rightarrow> nat \<Rightarrow> u64 \<Rightarrow> u64 option \<Rightarrow> vmem \<Rightarrow> vmem \<Rightarrow> bool" where
  "repages C x va e s s' \<longleftrightarrow> vm_inv s' C \<and> roots s' = roots s \<and> active s' = active s \<and> flushes s' = flushes s
     \<and> (\<forall>y\<in>C. \<forall>w. entry s' y w = (if y = x \<and> same_page va w then e else entry s y w) \<and> large s' y w = large s y w)
     \<and> managed_addrs (frames s') = managed_addrs (frames s)
     \<and> (\<forall>u. u \<notin> free_addrs (frames s) \<longrightarrow> u \<notin> user_tables (pmem s) (roots s x) \<longrightarrow> pmem s' u = pmem s u)"

lemma ext_repages:
  assumes "ext C x s s'" "x \<in> C"
  shows "repages C x va (entry s x va) s s'"
proof -
  have "entry s' y w = entry s y w \<and> large s' y w = large s y w" if "y \<in> C" for y w
    using extD(2) [OF assms(1)] extD(5,6) [OF assms(1) that] by (simp add: entry_def large_def)
  moreover have "entry s x w = entry s x va" if "same_page va w" for w using that by (simp add: entry_def same_page_def)
  ultimately show ?thesis using extD(1-4,8,13) [OF assms(1)] by (simp add: repages_def)
qed

definition may_map :: "vmem \<Rightarrow> nat set \<Rightarrow> u64 \<Rightarrow> bool" where
  "may_map s C pa \<longleftrightarrow> (let t = pa AND JLOS_PAGING_ADDR_MASK in (\<forall>y\<in>C. t \<notin> tables (pmem s) (roots s y))
     \<and> (t \<in> managed_addrs (frames s) \<longrightarrow> int (card (mapped (pmem s) (roots s) C t)) < refcount (page_of (frames s) t)))"

lemma may_map_used:
  assumes "vm_inv s C" "may_map s C pa"
  shows "pa AND JLOS_PAGING_ADDR_MASK \<notin> free_addrs (frames s)"
proof
  assume f: "pa AND JLOS_PAGING_ADDR_MASK \<in> free_addrs (frames s)"
  have ok: "alloc_ok (frames s)" using vinvD(2) [OF vm_invD(3) [OF assms(1)]] .
  have m: "pa AND JLOS_PAGING_ADDR_MASK \<in> managed_addrs (frames s)" using pages.free_managed [OF ok] f by blast
  then have "refcount (page_of (frames s) (pa AND JLOS_PAGING_ADDR_MASK)) = 0" using pages.free_count [OF ok] f by blast
  then show False using assms(2) m by (simp add: may_map_def Let_def)
qed

lemma may_map_ext:
  assumes inv: "vm_inv s C" and e: "ext C x s s'" and m: "may_map s C pa"
  shows "may_map s' C pa"
proof -
  let ?t = "pa AND JLOS_PAGING_ADDR_MASK"
  have nf: "?t \<notin> free_addrs (frames s)" by (rule may_map_used [OF inv m])
  have "mapped (pmem s') (roots s) C ?t = mapped (pmem s) (roots s) C ?t" using extD(5) [OF e] upathsD by (intro mapped_cong) blast
  moreover have "?t \<notin> tables (pmem s') (roots s y)" if "y \<in> C" for y
    using extD(12) [OF e that] nf m that unfolding may_map_def Let_def by blast
  ultimately show ?thesis using m nf extD(2,8,10) [OF e] unfolding may_map_def Let_def by simp
qed

lemma present_upd: "i < 512 \<Longrightarrow> \<not> bit (m t i) 0 \<Longrightarrow> bit v 0 \<Longrightarrow> card (present (upd m t i v t)) = Suc (card (present (m t)))"
proof -
  assume a: "i < 512" "\<not> bit (m t i) 0" "bit v 0"
  have "present (upd m t i v t) = insert i (present (m t))" using a by (auto simp: present_def upd_apply split: if_splits)
  moreover have "i \<notin> present (m t)" "finite (present (m t))" using a by (auto simp: present_def)
  ultimately show ?thesis by simp
qed

lemma install_result:
  assumes inv: "vm_inv s C" and x: "x \<in> C" and va: "va < USER_SPACE_LIMIT" and pt: "node (pmem s) (roots s x) (vpath va) = Some pt"
    and free: "entry s x va = None" and m: "may_map s C pa"
  obtains s' where "pte_install pt va pa prot s = Some (True, s')" "repages C x va (Some ((pa AND JLOS_PAGING_ADDR_MASK) OR pte_prot prot)) s s'"
proof -
  let ?v = "(pa AND JLOS_PAGING_ADDR_MASK) OR pte_prot prot" and ?t = "pa AND JLOS_PAGING_ADDR_MASK"
  note vi = vm_invD(3) [OF inv] and up = user_path(1) [OF va]
  note ut = user_leaf_table [OF vi x up pt] and ok = vinvD(2) [OF vm_invD(3) [OF inv]]
  have nb: "\<not> bit (pmem s pt (pti va)) 0" using free pt by (simp add: entry_def leaf_def split: if_splits)
  define a where "a = set_record pt (\<lambda>p. p\<lparr>pt_present_count := pt_present_count p + 1\<rparr>) (frames s)"
  have iu: "\<forall>p. in_use p \<longrightarrow> in_use (p\<lparr>pt_present_count := pt_present_count p + 1\<rparr>)" by (simp add: in_use_def)
  note r = set_record_result [OF ok ut(3,4) iu, folded a_def]
  define s' where "s' = (store pt (pti va) ?v s)\<lparr>frames := a\<rparr>"
  have e: "pte_install pt va pa prot s = Some (True, s')"
    using nb record_ops(3) [OF ok ut(3,4)] by (simp add: pte_install_def Let_def with_frames_def s'_def a_def)
  have pm: "pmem s' = upd (pmem s) pt (pti va) ?v" by (simp add: s'_def store_mem)
  note M = mapped_leaf [OF vi x up pt index_lt(4) pm]
  have bv: "bit ?v 0" "?v AND JLOS_PAGING_ADDR_MASK = ?t" by simp_all
  have tg: "\<And>y. bit ?v 0 \<Longrightarrow> y \<in> C \<Longrightarrow> ?v AND JLOS_PAGING_ADDR_MASK \<notin> tables (pmem s) (roots s y)"
    using m unfolding bv(2) may_map_def Let_def by blast
  have rc: "refcount (page_of a u) = refcount (page_of (frames s) u)" if "u \<in> managed_addrs (frames s)" for u
    using r(5) [OF that] by simp
  have refs: "refs_ok a (pmem s') (roots s) C" unfolding refs_ok_def
  proof
    fix u assume u: "u \<in> managed_addrs a"
    then have um: "u \<in> managed_addrs (frames s)" using r(2) by simp
    have fin: "finite (mapped (pmem s) (roots s) C u)" by (rule finite_mapped [OF vinvD(1) [OF vi]])
    show "int (card (mapped (pmem s') (roots s) C u)) \<le> refcount (page_of a u)"
    proof (cases "u = ?t")
      case True
      have "card (mapped (pmem s') (roots s) C u) \<le> Suc (card (mapped (pmem s) (roots s) C u))"
        unfolding M(4) using fin by (simp add: bv(2) True card_insert_if card_Diff_subset_Int)
      then show ?thesis using m True um rc [OF um] unfolding may_map_def Let_def by auto
    next
      case False
      have "card (mapped (pmem s') (roots s) C u) \<le> card (mapped (pmem s) (roots s) C u)"
        unfolding M(4) bv(2) using False fin by (auto intro!: card_mono)
      then show ?thesis using vinvD(5) [OF vi] um rc [OF um] by (force simp: refs_ok_def)
    qed
  qed
  have cnt: "pt_present_count (page_of a pt) = of_nat (card (present (pmem s' pt)))"
    using vinvD(11) [OF vi x] up pt r(5) [OF ut(3)] present_upd [of "pti va" "pmem s" pt ?v, OF index_lt(4) nb bv(1)]
    unfolding pm by (simp add: counts_ok_def add.commute)
  have "vinv a (pmem s') (roots s) C"
    by (rule mem_leaf [OF vi x up pt index_lt(4) pm r(1,2) _ tg refs cnt])
      (use vinvD(8) [OF vi] r(3) r(5) user_leaf_table(3) [OF vi] in auto)
  moreover have R: "roots s' = roots s" by (simp add: s'_def)
  ultimately have "vm_inv s' C" using inv by (simp add: vm_inv_def s'_def)
  moreover have "entry s' y w = (if y = x \<and> same_page va w then Some ?v else entry s y w) \<and> large s' y w = large s y w" if "y \<in> C" for y w
    using M(2,3) [OF that] bv(1) by (simp add: entry_def large_def R same_page_def)
  moreover have "pmem s' u = pmem s u" if "u \<notin> user_tables (pmem s) (roots s x)" for u
    using that ut(1) unfolding pm by (auto simp: upd_apply fun_eq_iff)
  moreover have "active s' = active s" "flushes s' = flushes s" "frames s' = a" by (simp_all add: s'_def)
  ultimately have "repages C x va (Some ?v) s s'" using R r(2) by (simp add: repages_def)
  then show thesis using that e by blast
qed

lemma repages_after:
  assumes "ext C x s s1" "repages C x va e s1 s2" "x \<in> C"
  shows "repages C x va e s s2"
proof -
  note A = extD [OF assms(1)]
  have "entry s1 y w = entry s y w \<and> large s1 y w = large s y w" if "y \<in> C" for y w
    using A(2) A(5,6) [OF that] by (simp add: entry_def large_def)
  moreover have "pmem s2 u = pmem s u" if "u \<notin> free_addrs (frames s)" "u \<notin> user_tables (pmem s) (roots s x)" for u
    using assms(2) that A(2,9,11) A(13) [OF that] by (auto simp: repages_def)
  ultimately show ?thesis using assms(2) A(2,3,4,8) by (simp add: repages_def)
qed

lemma map_entry_result:
  assumes inv: "vm_inv s C" and x: "x \<in> C" and va: "va < USER_SPACE_LIMIT" and m: "may_map s C pa"
  obtains (mapped) s' where "jlos_arch_map_entry c x va pa prot s = Some (True, s')" "entry s x va = None"
      "repages C x va (Some ((pa AND JLOS_PAGING_ADDR_MASK) OR pte_prot prot)) s s'"
  | (present) s' where "jlos_arch_map_entry c x va pa prot s = Some (False, s')" "entry s x va \<noteq> None" "ext C x s s'"
  | (full) s' where "jlos_arch_map_entry c x va pa prot s = Some (False, s')" "exhausted c (frames s')" "ext C x s s'"
proof -
  let ?i4 = "jlos_paging_get_pml4_index va" and ?i3 = "jlos_paging_get_pdpt_index va"
  have u: "?i4 < 256" by (rule user_index [OF va])
  have re: "root_ensure c x s = Some (True, s)" using vm_invD(2) [OF inv x] by (simp add: root_ensure_def)
  have rt: "the (root (ctxs s x)) = roots s x" by (simp add: roots_def)
  have n0: "node (pmem s) (roots s x) [] = Some (roots s x)" by simp
  define user where "user = has (pte_prot prot) JLOS_PTE_USER"
  have start: "jlos_arch_map_entry c x va pa prot s = Option.bind (paging_level_ensure c x (roots s x) ?i4 user s) (\<lambda>(l1, s). case l1 of
      None \<Rightarrow> Some (False, s)
    | Some pdpt \<Rightarrow> Option.bind (paging_level_ensure c x pdpt ?i3 user s) (\<lambda>(l2, s). case l2 of
        None \<Rightarrow> Some (False, s)
      | Some pd \<Rightarrow> Option.bind (page_table_ensure c x pd (pdi va) prot s) (\<lambda>(l3, s). case l3 of
          None \<Rightarrow> Some (False, s)
        | Some pt \<Rightarrow> pte_install pt va pa prot s)))"
    unfolding jlos_arch_map_entry_def user_def using re rt by (simp add: Let_def del: has_bits)
  have l0: "length ([] :: nat list) \<le> 1" "last [?i4] < 256" using u by simp_all
  show thesis
  proof (cases rule: level_result [OF inv x pathsI n0 l0(1) index_lt(1) l0(2), where c = c and user = user, case_names none some])
    case (none s1)
    then show thesis using full [of s1] start by simp
  next
    case (some pdpt s1)
    note e1 = extD [OF some(2)]
    have n1: "[?i4] \<in> paths" "node (pmem s1) (roots s1 x) [?i4] = Some pdpt" "length [?i4] \<le> 1" "last (?i3 # [?i4]) < 256"
      using some(3) e1(2) u by simp_all
    show thesis
    proof (cases rule: level_result [OF e1(1) x n1(1,2,3) index_lt(2) n1(4), where c = c and user = user, case_names none some])
      case (none s2)
      then show thesis using full [of s2] start some(1) ext_trans [OF some(2)] by simp
    next
      case (some pd s2)
      note s1 = \<open>paging_level_ensure c x (roots s x) ?i4 user s = Some (Some pdpt, s1)\<close>
      note e2 = ext_trans [OF \<open>ext C x s s1\<close> some(2)]
      note E2 = extD [OF e2]
      have n2: "upper va \<in> paths" "node (pmem s2) (roots s2 x) (upper va) = Some pd" "length (upper va) = 2" "last (upper va) < 256"
        using some(3) E2(2) e1(2) u by (simp_all add: upper_def)
      show thesis
      proof (cases rule: table_result [OF E2(1) x n2 index_lt(3) [of va], where c = c and prot = prot, case_names none some])
        case (none s3)
        then show thesis using full [of s3] start s1 some(1) ext_trans [OF e2] by simp
      next
        case (some pt s3)
        note s2 = \<open>paging_level_ensure c x pdpt ?i3 user s1 = Some (Some pd, s2)\<close>
        note e3 = ext_trans [OF e2 some(2)]
        note E3 = extD [OF e3]
        have n3: "node (pmem s3) (roots s3 x) (vpath va) = Some pt" using some(3) E2(2) E3(2) by (simp add: vpath_def)
        have eq: "jlos_arch_map_entry c x va pa prot s = pte_install pt va pa prot s3" using start s1 s2 some(1) by simp
        have en: "entry s3 x va = entry s x va" using E3(2) E3(5) [OF x path_facts(3,4)] by (simp add: entry_def)
        show thesis
        proof (cases "entry s x va = None")
          case True
          have en3: "entry s3 x va = None" using True en by simp
          obtain s' where "pte_install pt va pa prot s3 = Some (True, s')"
            "repages C x va (Some ((pa AND JLOS_PAGING_ADDR_MASK) OR pte_prot prot)) s3 s'"
            by (rule install_result [OF E3(1) x va n3 en3 may_map_ext [OF inv e3 m]])
          then show thesis using mapped [of s'] eq True repages_after [OF e3 _ x] by simp
        next
          case False
          then have "bit (pmem s3 pt (pti va)) 0" using en n3 by (auto simp: entry_def leaf_def split: if_splits)
          then have "pte_install pt va pa prot s3 = Some (False, s3)" by (simp add: pte_install_def)
          then show thesis using present [of s3] eq False e3 by simp
        qed
      qed
    qed
  qed
qed

end
