(* ===== verification/Paging_Unmap.thy ===== *)
theory Paging_Unmap
  imports Paging_Ops
begin

text \<open>
  Taking a user page out of an address space, and what the eight-bit count of present
  entries in a page table means for it.
\<close>

section \<open>Dropping the reference to a page\<close>

text \<open>
  A page of the allocator loses one reference. A page outside the allocator's range has no
  record and is left alone.
\<close>

definition foreign :: "pfa \<Rightarrow> u64 \<Rightarrow> bool" where
  "foreign a t \<longleftrightarrow> s_total_frames a \<le> pfa_phys_to_frame a (ucast t)"

definition dropped :: "pfa \<Rightarrow> u64 \<Rightarrow> pfa \<Rightarrow> bool" where
  "dropped a t a' \<longleftrightarrow> alloc_ok a' \<and> managed_addrs a' = managed_addrs a
     \<and> free_addrs a' = free_addrs a \<union> (if t \<in> managed_addrs a \<and> refcount (page_of a t) = 1 then {t} else {})
     \<and> (t \<in> managed_addrs a \<longrightarrow> refcount (page_of a' t) = refcount (page_of a t) - 1)
     \<and> (\<forall>u. u \<in> managed_addrs a \<longrightarrow> u \<notin> free_addrs a \<longrightarrow> u \<noteq> t \<longrightarrow> page_of a' u = page_of a u)"

lemma drop_reference:
  assumes ok: "alloc_ok a" and t: "t \<in> managed_addrs a \<and> t \<notin> free_addrs a \<or> t \<notin> managed_addrs a \<and> foreign a t"
  obtains a' where "jlos_page_frame_refcount_dec c (ucast t) a = Some a'" "dropped a t a'"
proof (cases "t \<in> managed_addrs a")
  case True
  then have "t \<notin> free_addrs a" using t by blast
  then show thesis using frame_release_law [OF ok True, of c] that True by (auto simp: dropped_def)
next
  case False
  then have "jlos_page_frame_refcount_dec c (ucast t) a = Some a" using t by (simp add: foreign_def jlos_page_frame_refcount_dec_def Let_def)
  then show thesis using that False ok by (simp add: dropped_def)
qed

lemma count_small: "k < 256 \<Longrightarrow> (of_nat k :: u8) = 0 \<longleftrightarrow> k = 0"
  by (auto simp: word_of_nat_eq_0_iff dvd_def)

lemma ucast_count_0: "(ucast (c :: u8) :: u32) = 0 \<longleftrightarrow> c = 0"
proof -
  have "unat c < 2 ^ 8" using unsigned_less [where 'a = nat and w = c] by simp
  then have "unat c < 2 ^ 32" by (rule less_trans) simp
  then have "unat (ucast c :: u32) = unat c" by (simp add: unsigned_ucast_eq take_bit_nat_eq_self_iff)
  then show ?thesis by (metis unsigned_0 unsigned_word_eqI)
qed

lemma present_drop:
  "i < 512 \<Longrightarrow> present (upd m t i 0 t) = present (m t) - {i}" "finite (present tab)"
  by (auto simp: present_def upd_apply split: if_splits)

text \<open>The target of a user mapping is in use and no table.\<close>

lemma target_facts:
  assumes inv: "vm_inv s C" and x: "x \<in> C" and va: "va < USER_SPACE_LIMIT" and e: "entry s x va = Some e"
  defines "t \<equiv> e AND JLOS_PAGING_ADDR_MASK"
  shows "(x, pti va, vpath va) \<in> mapped (pmem s) (roots s) C t" and "t \<in> managed_addrs (frames s) \<Longrightarrow> t \<notin> free_addrs (frames s)"
    and "y \<in> C \<Longrightarrow> t \<notin> tables (pmem s) (roots s y)"
proof -
  note vi = vm_invD(3) [OF inv]
  show m: "(x, pti va, vpath va) \<in> mapped (pmem s) (roots s) C t"
    using x user_path(1) [OF va] e by (simp add: mapped_def entry_def t_def)
  show "t \<in> managed_addrs (frames s) \<Longrightarrow> t \<notin> free_addrs (frames s)" using free_unmapped [OF vi] m by blast
  show "y \<in> C \<Longrightarrow> t \<notin> tables (pmem s) (roots s y)" using vinvD(4) [OF vi] m by (auto simp: targets_ok_def)
qed

text \<open>The entry of a page is cleared, its count lowered and its reference dropped.\<close>

lemma clear_entry:
  assumes inv: "vm_inv s C" and x: "x \<in> C" and va: "va < USER_SPACE_LIMIT" and e: "entry s x va = Some e"
    and pt: "node (pmem s) (roots s x) (vpath va) = Some pt" and few: "card (present (pmem s pt)) < 256"
    and d: "dropped (frames s) (e AND JLOS_PAGING_ADDR_MASK) a" and a': "a' = jlos_page_frame_pt_present_count_dec (ucast pt) a"
    and m': "m' = upd (pmem s) pt (pti va) 0"
  shows "vinv a' m' (roots s) C" and "managed_addrs a' = managed_addrs (frames s)" and "free_addrs a' = free_addrs a"
    and "pt_present_count (page_of a' pt) = of_nat (card (present (m' pt)))" and "alloc_ok a'"
    and "\<And>u. u \<in> managed_addrs a \<Longrightarrow> refcount (page_of a' u) = refcount (page_of a u)" and "pt \<notin> free_addrs a'"
proof -
  let ?t = "e AND JLOS_PAGING_ADDR_MASK"
  note vi = vm_invD(3) [OF inv] and up = user_path(1) [OF va]
  note ut = user_leaf_table [OF vi x up pt] and T = target_facts [OF inv x va e]
  have D: "alloc_ok a" "managed_addrs a = managed_addrs (frames s)"
    "free_addrs a = free_addrs (frames s) \<union> (if ?t \<in> managed_addrs (frames s) \<and> refcount (page_of (frames s) ?t) = 1 then {?t} else {})"
    "?t \<in> managed_addrs (frames s) \<Longrightarrow> refcount (page_of a ?t) = refcount (page_of (frames s) ?t) - 1"
    "\<And>u. u \<in> managed_addrs (frames s) \<Longrightarrow> u \<notin> free_addrs (frames s) \<Longrightarrow> u \<noteq> ?t \<Longrightarrow> page_of a u = page_of (frames s) u"
    using d by (auto simp: dropped_def)
  have nt: "pt \<noteq> ?t" using T(3) [OF x] ut(2) by auto
  have pta: "pt \<in> managed_addrs a" "pt \<notin> free_addrs a" using ut(3,4) D(2,3) nt by auto
  have pte: "bit (pmem s pt (pti va)) 0" using e pt by (simp add: entry_def leaf_def split: if_splits)
  then have inp: "pti va \<in> present (pmem s pt)" by (simp add: present_def)
  have cp: "pt_present_count (page_of a pt) = of_nat (card (present (pmem s pt)))"
    using D(5) [OF ut(3,4) nt] vinvD(11) [OF vi x] up pt by (simp add: counts_ok_def)
  have pos: "card (present (pmem s pt)) \<noteq> 0" using inp present_drop(2) [of "pmem s pt"] by auto
  then have "0 < pt_present_count (page_of a pt)" using cp count_small [OF few] by (simp add: word_greater_zero_iff)
  then have a'r: "a' = set_record pt (\<lambda>p. p\<lparr>pt_present_count := pt_present_count p - 1\<rparr>) a"
    unfolding a' record_ops(4) [OF D(1) pta] by simp
  have iu: "\<forall>p. in_use p \<longrightarrow> in_use (p\<lparr>pt_present_count := pt_present_count p - 1\<rparr>)" by (simp add: in_use_def)
  note r = set_record_result [OF D(1) pta iu, folded a'r]
  show ok: "alloc_ok a'" by (rule r(1))
  show mg: "managed_addrs a' = managed_addrs (frames s)" using r(2) D(2) by simp
  show fr: "free_addrs a' = free_addrs a" by (rule r(3))
  show "pt \<notin> free_addrs a'" using fr pta(2) by simp
  show rc: "refcount (page_of a' u) = refcount (page_of a u)" if "u \<in> managed_addrs a" for u using r(5) [OF that] by simp
  have cd: "card (present (m' pt)) = card (present (pmem s pt)) - 1"
    unfolding m' present_drop(1) [OF index_lt(4)] using inp by simp
  show cnt: "pt_present_count (page_of a' pt) = of_nat (card (present (m' pt)))"
    using r(5) [OF pta(1)] cp pos unfolding cd by (simp add: of_nat_diff)
  note M = mapped_leaf [OF vi x up pt index_lt(4) m']
  have refs: "refs_ok a' m' (roots s) C" unfolding refs_ok_def
  proof
    fix u assume u: "u \<in> managed_addrs a'"
    then have um: "u \<in> managed_addrs (frames s)" "u \<in> managed_addrs a" using mg D(2) by simp_all
    have fin: "finite (mapped (pmem s) (roots s) C u)" by (rule finite_mapped [OF vinvD(1) [OF vi]])
    have old: "int (card (mapped (pmem s) (roots s) C u)) \<le> refcount (page_of (frames s) u)" using vinvD(5) [OF vi] um by (simp add: refs_ok_def)
    have mp: "mapped m' (roots s) C u = mapped (pmem s) (roots s) C u - {(x, pti va, vpath va)}" unfolding M(4) by simp
    consider "u = ?t" | "u \<in> free_addrs (frames s)" | "u \<noteq> ?t" "u \<notin> free_addrs (frames s)" by blast
    then show "int (card (mapped m' (roots s) C u)) \<le> refcount (page_of a' u)"
    proof cases
      case 1
      have "Suc (card (mapped m' (roots s) C u)) = card (mapped (pmem s) (roots s) C u)"
        unfolding mp using T(1) 1 fin by (metis card_Suc_Diff1)
      then show ?thesis using old D(4) 1 um rc [OF um(2)] by simp
    next
      case 2
      then show ?thesis unfolding mp using free_unmapped [OF vi] refcount_nonneg [OF ok u] by simp
    next
      case 3
      have "card (mapped m' (roots s) C u) \<le> card (mapped (pmem s) (roots s) C u)" unfolding mp using fin by (intro card_mono) auto
      then show ?thesis using old D(5) [OF um(1) 3(2,1)] rc [OF um(2)] by simp
    qed
  qed
  have tabs: "tables (pmem s) (roots s y) \<inter> free_addrs a' = {}" if "y \<in> C" for y
    using vinvD(8) [OF vi that] T(3) [OF that] unfolding fr D(3) by auto
  have others: "pt_present_count (page_of a' u) = pt_present_count (page_of (frames s) u)"
    if "y \<in> C" "q \<in> upaths" "node (pmem s) (roots s y) q = Some u" "u \<noteq> pt" for y q u
  proof -
    note w = user_leaf_table [OF vi that(1-3)]
    have "u \<noteq> ?t" using T(3) [OF that(1)] w(2) by auto
    then show ?thesis using r(5) [of u] that(4) w(3,4) D(2) D(5) [OF w(3,4)] by simp
  qed
  show "vinv a' m' (roots s) C"
    by (rule mem_leaf [OF vi x up pt index_lt(4) m' ok mg tabs _ refs cnt others]) simp_all
qed

text \<open>An entry that is not present is cleared: nothing that is mapped changes.\<close>

lemma clear_absent:
  assumes inv: "vm_inv s C" and x: "x \<in> C" and va: "va < USER_SPACE_LIMIT" and e: "entry s x va = None"
    and pt: "node (pmem s) (roots s x) (vpath va) = Some pt" and m': "m' = upd (pmem s) pt (pti va) 0"
  shows "vinv (frames s) m' (roots s) C" and "present (m' pt) = present (pmem s pt)"
proof -
  note vi = vm_invD(3) [OF inv] and up = user_path(1) [OF va]
  note M = mapped_leaf [OF vi x up pt index_lt(4) m']
  have nb: "\<not> bit (pmem s pt (pti va)) 0" using e pt by (simp add: entry_def leaf_def split: if_splits)
  then show pr: "present (m' pt) = present (pmem s pt)" unfolding m' present_drop(1) [OF index_lt(4)] by (auto simp: present_def)
  have "(x, pti va, vpath va) \<notin> mapped (pmem s) (roots s) C u" for u using e by (simp add: mapped_def entry_def)
  then have "refs_ok (frames s) m' (roots s) C" using vinvD(5) [OF vi] unfolding refs_ok_def M(4) by simp
  moreover have "pt_present_count (page_of (frames s) pt) = of_nat (card (present (m' pt)))"
    using vinvD(11) [OF vi x] up pt unfolding pr by (simp add: counts_ok_def)
  ultimately show "vinv (frames s) m' (roots s) C"
    by (intro mem_leaf [OF vi x up pt index_lt(4) m' vinvD(2) [OF vi] refl vinvD(8) [OF vi]]) simp_all
qed

section \<open>Freeing an empty page table\<close>

lemma path_of:
  fixes w :: u64
  shows "vpath w \<in> paths" "length (vpath w) = 3" "upper w \<in> paths" "length (upper w) = 2"
  using index_lt [of w] by (auto simp: vpath_def upper_def paths_def)

lemma free_table:
  assumes inv: "vinv a m R C" and x: "x \<in> C" and va: "va < USER_SPACE_LIMIT"
    and pd: "node m (R x) (upper va) = Some pd" and pt: "node m (R x) (vpath va) = Some pt" and empty: "present (m pt) = {}"
  obtains a1 a' where "jlos_page_frame_clear_owner_type (ucast pt) a = Some a1" "jlos_page_frame_free c (ucast pt) a1 = Some a'"
    "vinv a' (upd m pd (pdi va) 0) R C" "managed_addrs a' = managed_addrs a" "pt \<notin> free_addrs a" "pt \<in> tables m (R x)"
    "free_addrs a' = free_addrs a \<union> (if refcount (page_of a pt) = 1 then {pt} else {})"
    "\<And>y w. y \<in> C \<Longrightarrow> leaf (upd m pd (pdi va) 0) (R y) (pti w) (vpath w) = leaf m (R y) (pti w) (vpath w)"
    "\<And>y w. y \<in> C \<Longrightarrow> big (upd m pd (pdi va) 0) (R y) (pdi w) (upper w) = big m (R y) (pdi w) (upper w)"
    "\<And>u. u \<in> managed_addrs a \<Longrightarrow> u \<notin> free_addrs a \<Longrightarrow> u \<noteq> pt \<Longrightarrow> page_of a' u = page_of a u"
proof -
  note up = user_path [OF va] and ok = vinvD(2) [OF inv]
  note ut = user_leaf_table [OF inv x up(1) pt]
  define a1 where "a1 = set_record pt (\<lambda>p. p\<lparr>ptype := TYPE_FREE, owner := 0\<rparr>) a"
  have iu: "\<forall>p. in_use p \<longrightarrow> in_use (p\<lparr>ptype := TYPE_FREE, owner := 0\<rparr>)" by (simp add: in_use_def)
  note r = set_record_result [OF ok ut(3,4) iu, folded a1_def]
  have e1: "jlos_page_frame_clear_owner_type (ucast pt) a = Some a1"
    using record_ops(1) [OF ok ut(3,4)] by (simp add: jlos_page_frame_clear_owner_type_def a1_def)
  have p1: "pt \<in> managed_addrs a1" "pt \<notin> free_addrs a1" using ut r(2,3) by simp_all
  obtain a' where a': "jlos_page_frame_free c (ucast pt) a1 = Some a'" "alloc_ok a'" "managed_addrs a' = managed_addrs a"
      "free_addrs a' = free_addrs a \<union> (if refcount (page_of a pt) = 1 then {pt} else {})"
      "\<And>u. u \<in> managed_addrs a \<Longrightarrow> u \<notin> free_addrs a \<Longrightarrow> u \<noteq> pt \<Longrightarrow> page_of a' u = page_of a u"
    using frame_release_law [OF r(1) p1, of c] r(2,3,5) ut(3) by (auto simp: jlos_page_frame_free_def)
  have pth: "upper va \<in> paths" "length (upper va) = 2" "last (upper va) < 256" "vpath va = pdi va # upper va"
    using upathsD [OF up(1)] user_index [OF va] index_lt(1,2) [of va] by (auto simp: upper_def vpath_def paths_def)
  have fr: "free_addrs a' \<subseteq> insert pt (free_addrs a)" using a'(4) by auto
  have pg: "\<forall>u\<in>managed_addrs a. u \<notin> free_addrs a \<longrightarrow> u \<noteq> pt \<longrightarrow> refcount (page_of a' u) = refcount (page_of a u)
       \<and> pt_present_count (page_of a' u) = pt_present_count (page_of a u)" using a'(5) by simp
  note U = mem_unlink [OF inv x pth(1) pd pth(2) index_lt(3) pth(3) pt [unfolded pth(4)] empty refl a'(2,3) fr pg]
  show thesis
    by (rule that [OF e1 a'(1) U(1) a'(3) ut(4,2) a'(4) _ _ a'(5)]) (use U(2,3) path_of index_lt(4) in auto)
qed

section \<open>The whole step\<close>

definition may_unmap :: "vmem \<Rightarrow> nat \<Rightarrow> u64 \<Rightarrow> bool" where
  "may_unmap s x va \<longleftrightarrow> (case entry s x va of None \<Rightarrow> True
     | Some e \<Rightarrow> e AND JLOS_PAGING_ADDR_MASK \<in> managed_addrs (frames s) \<or> foreign (frames s) (e AND JLOS_PAGING_ADDR_MASK))
   \<and> (case node (pmem s) (roots s x) (vpath va) of None \<Rightarrow> True | Some pt \<Rightarrow> card (present (pmem s pt)) < 256)"

text \<open>The frames that unmapping gives back, as the reference counts say.\<close>

definition last_reference :: "vmem \<Rightarrow> nat \<Rightarrow> u64 \<Rightarrow> u64 set" where
  "last_reference s x va = (case entry s x va of None \<Rightarrow> {}
     | Some e \<Rightarrow> if e AND JLOS_PAGING_ADDR_MASK \<in> managed_addrs (frames s)
                   \<and> refcount (page_of (frames s) (e AND JLOS_PAGING_ADDR_MASK)) = 1 then {e AND JLOS_PAGING_ADDR_MASK} else {})"

lemma release_entry:
  assumes inv: "vm_inv s C" and x: "x \<in> C" and va: "va < USER_SPACE_LIMIT" and mu: "may_unmap s x va"
    and pt: "node (pmem s) (roots s x) (vpath va) = Some pt"
  defines "m' \<equiv> upd (pmem s) pt (pti va) 0"
  obtains a where "(if has (pmem s pt (pti va)) JLOS_PTE_PRESENT then do {
             s \<leftarrow> with_frames (jlos_page_frame_refcount_dec c (ucast (pmem s pt (pti va) AND JLOS_PAGING_ADDR_MASK))) s;
             with_frames (Some \<circ> jlos_page_frame_pt_present_count_dec (ucast pt)) s
           } else Some s) = Some (s\<lparr>frames := a\<rparr>)"
    "vinv a m' (roots s) C" "managed_addrs a = managed_addrs (frames s)" "pt \<notin> free_addrs a"
    "free_addrs a = free_addrs (frames s) \<union> last_reference s x va"
    "pt_present_count (page_of a pt) = 0 \<longleftrightarrow> present (m' pt) = {}"
proof -
  note vi = vm_invD(3) [OF inv]
  have few: "card (present (pmem s pt)) < 256" using mu pt by (simp add: may_unmap_def)
  have sub: "present (m' pt) \<subseteq> present (pmem s pt)" unfolding m'_def present_drop(1) [OF index_lt(4)] by blast
  have c0: "(of_nat (card (present (m' pt))) :: u8) = 0 \<longleftrightarrow> present (m' pt) = {}"
  proof -
    have "card (present (m' pt)) < 256" using card_mono [OF present_drop(2) sub] few by simp
    then show ?thesis using count_small present_drop(2) [of "m' pt"] by (simp add: card_eq_0_iff)
  qed
  show thesis
  proof (cases "entry s x va")
    case None
    then have nb: "\<not> bit (pmem s pt (pti va)) 0" using pt by (simp add: entry_def leaf_def split: if_splits)
    note A = clear_absent [OF inv x va None pt refl, folded m'_def]
    have "pt_present_count (page_of (frames s) pt) = of_nat (card (present (m' pt)))"
      using vinvD(11) [OF vi x] user_path(1) [OF va] pt unfolding A(2) by (simp add: counts_ok_def)
    then show thesis using that [of "frames s"] nb A(1) c0 user_leaf_table(4) [OF vi x user_path(1) [OF va] pt] None
      by (simp add: last_reference_def)
  next
    case (Some e)
    let ?t = "e AND JLOS_PAGING_ADDR_MASK"
    have e: "pmem s pt (pti va) = e" "bit e 0" using Some pt by (auto simp: entry_def leaf_def split: if_splits)
    have "?t \<in> managed_addrs (frames s) \<and> ?t \<notin> free_addrs (frames s) \<or> ?t \<notin> managed_addrs (frames s) \<and> foreign (frames s) ?t"
      using mu target_facts(2) [OF inv x va Some] Some by (auto simp: may_unmap_def)
    from drop_reference [OF vinvD(2) [OF vi] this, of c]
    obtain a where a: "jlos_page_frame_refcount_dec c (ucast ?t) (frames s) = Some a" "dropped (frames s) ?t a" by blast
    note K = clear_entry [OF inv x va Some pt few a(2) refl refl, folded m'_def]
    show thesis
    proof (rule that [OF _ K(1,2,7)])
      show "(if has (pmem s pt (pti va)) JLOS_PTE_PRESENT then do {
             s \<leftarrow> with_frames (jlos_page_frame_refcount_dec c (ucast (pmem s pt (pti va) AND JLOS_PAGING_ADDR_MASK))) s;
             with_frames (Some \<circ> jlos_page_frame_pt_present_count_dec (ucast pt)) s
           } else Some s) = Some (s\<lparr>frames := jlos_page_frame_pt_present_count_dec (ucast pt) a\<rparr>)"
        using a(1) e by (simp add: with_frames_def)
      show "free_addrs (jlos_page_frame_pt_present_count_dec (ucast pt) a) = free_addrs (frames s) \<union> last_reference s x va"
        using K(3) a(2) Some by (simp add: dropped_def last_reference_def)
      show "pt_present_count (page_of (jlos_page_frame_pt_present_count_dec (ucast pt) a) pt) = 0 \<longleftrightarrow> present (m' pt) = {}"
        using K(4) c0 by simp
    qed
  qed
qed

lemma release_result:
  assumes inv: "vm_inv s C" and x: "x \<in> C" and va: "va < USER_SPACE_LIMIT" and mu: "may_unmap s x va"
    and pt: "node (pmem s) (roots s x) (vpath va) = Some pt" and pd: "node (pmem s) (roots s x) (upper va) = Some pd"
      "pmem s pd (pdi va) AND JLOS_PAGING_ADDR_MASK = pt"
  obtains s' T where "pte_release c x pd (pdi va) va s = Some s'" "repages C x va None s s'" "T \<subseteq> {pt}"
    "free_addrs (frames s') = free_addrs (frames s) \<union> last_reference s x va \<union> T"
proof -
  let ?m = "upd (pmem s) pt (pti va) 0"
  note vi = vm_invD(3) [OF inv] and up = user_path(1) [OF va]
  note ut = user_leaf_table [OF vi x up pt]
  obtain a where a: "(if has (pmem s pt (pti va)) JLOS_PTE_PRESENT then do {
             s \<leftarrow> with_frames (jlos_page_frame_refcount_dec c (ucast (pmem s pt (pti va) AND JLOS_PAGING_ADDR_MASK))) s;
             with_frames (Some \<circ> jlos_page_frame_pt_present_count_dec (ucast pt)) s
           } else Some s) = Some (s\<lparr>frames := a\<rparr>)"
    "vinv a ?m (roots s) C" "managed_addrs a = managed_addrs (frames s)" "pt \<notin> free_addrs a"
    "free_addrs a = free_addrs (frames s) \<union> last_reference s x va"
    "pt_present_count (page_of a pt) = 0 \<longleftrightarrow> present (?m pt) = {}"
    using release_entry [OF inv x va mu pt] by metis
  have ok: "alloc_ok a" by (rule vinvD(2) [OF a(2)])
  have pta: "pt \<in> managed_addrs a" using a(3) ut(3) by simp
  define s1 where "s1 = store pt (pti va) 0 (s\<lparr>frames := a\<rparr>)"
  have get: "jlos_page_frame_pt_present_count_get (ucast pt) a = 0 \<longleftrightarrow> present (?m pt) = {}"
    using record_ops(5) [OF ok pta a(4)] a(6) by (simp add: ucast_count_0)
  have start: "pte_release c x pd (pdi va) va s = (if present (?m pt) = {} then
      Option.bind (jlos_page_frame_clear_owner_type (ucast pt) a) (\<lambda>a1. Option.bind (jlos_page_frame_free c (ucast pt) a1)
        (\<lambda>a2. Some (set_ctx x (\<lambda>k. k\<lparr>num_page_tables := num_page_tables k - 1\<rparr>) (store pd (pdi va) 0 (s1\<lparr>frames := a2\<rparr>)))))
      else Some s1)"
    unfolding pte_release_def Let_def pd(2) a(1) using va
    by (simp add: get s1_def with_frames_def store_def bind_map_option comp_def del: has_bits)
  note M = mapped_leaf [OF vi x up pt index_lt(4) refl]
  have view: "leaf ?m (roots s y) (pti w) (vpath w) = (if y = x \<and> same_page va w then None else entry s y w)"
    "big ?m (roots s y) (pdi w) (upper w) = large s y w" if "y \<in> C" for y w
    using M(2,3) [OF that] by (simp_all add: entry_def large_def same_page_def)
  show thesis
  proof (cases "present (?m pt) = {}")
    case False
    have "vm_inv s1 C" using a(2) inv by (simp add: vm_inv_def s1_def store_mem)
    moreover have "pmem s1 u = pmem s u" if "u \<notin> user_tables (pmem s) (roots s x)" for u
      using that ut(1) by (auto simp: s1_def store_mem upd_apply fun_eq_iff)
    ultimately have "repages C x va None s s1" using view a(3) by (simp add: repages_def entry_def large_def s1_def store_mem)
    then show thesis using that [of s1 "{}"] start False a(5) by (simp add: s1_def)
  next
    case True
    have n: "node ?m (roots s x) (upper va) = Some pd" "node ?m (roots s x) (vpath va) = Some pt"
      using M(1) [OF x path_of(1) [of va]] M(1) [OF x path_of(3) [of va]] pd(1) pt by simp_all
    obtain a1 a' where F: "jlos_page_frame_clear_owner_type (ucast pt) a = Some a1" "jlos_page_frame_free c (ucast pt) a1 = Some a'"
      "vinv a' (upd ?m pd (pdi va) 0) (roots s) C" "managed_addrs a' = managed_addrs a"
      "free_addrs a' = free_addrs a \<union> (if refcount (page_of a pt) = 1 then {pt} else {})"
      "\<And>y w. y \<in> C \<Longrightarrow> leaf (upd ?m pd (pdi va) 0) (roots s y) (pti w) (vpath w) = leaf ?m (roots s y) (pti w) (vpath w)"
      "\<And>y w. y \<in> C \<Longrightarrow> big (upd ?m pd (pdi va) 0) (roots s y) (pdi w) (upper w) = big ?m (roots s y) (pdi w) (upper w)"
      using free_table [OF a(2) x va n True] by metis
    define s' where "s' = set_ctx x (\<lambda>k. k\<lparr>num_page_tables := num_page_tables k - 1\<rparr>) (store pd (pdi va) 0 (s1\<lparr>frames := a'\<rparr>))"
    have pm: "pmem s' = upd ?m pd (pdi va) 0" "frames s' = a'" "roots s' = roots s"
      by (simp_all add: s'_def s1_def store_mem)
    have "vm_inv s' C" using F(3) inv pm by (simp add: vm_inv_def s'_def s1_def)
    moreover have "pd \<in> user_tables (pmem s) (roots s x)"
      by (rule user_tablesI [OF path_of(3) [of va] pd(1)]) (use user_index [OF va] in \<open>simp add: upper_def\<close>)
    then have "pmem s' u = pmem s u" if "u \<notin> user_tables (pmem s) (roots s x)" for u
      using that ut(1) unfolding pm by (auto simp: upd_apply fun_eq_iff)
    ultimately have "repages C x va None s s'" using view F(6,7) F(4) a(3) pm
      by (simp add: repages_def entry_def large_def s'_def s1_def)
    moreover have "pte_release c x pd (pdi va) va s = Some s'" using start True F(1,2) by (simp add: s'_def)
    ultimately show thesis using that [of s' "if refcount (page_of a pt) = 1 then {pt} else {}"] F(5) a(5) pm(2) by simp
  qed
qed

lemma unmap_result:
  assumes inv: "vm_inv s C" and x: "x \<in> C" and va: "va < USER_SPACE_LIMIT" and mu: "may_unmap s x va"
  obtains (absent) "unmap_locked c x va s = Some (False, s)" "entry s x va = None"
  | (unmapped) s' T where "unmap_locked c x va s = Some (True, s')" "repages C x va None s s'"
      "T \<subseteq> tables (pmem s) (roots s x)" "free_addrs (frames s') = free_addrs (frames s) \<union> last_reference s x va \<union> T"
proof -
  note vi = vm_invD(3) [OF inv] and up = user_path(1) [OF va]
  note r = vm_invD(2) [OF inv x] and us = upper_steps [OF inv x, of va]
  let ?e = "pmem s (roots s x) (jlos_paging_get_pml4_index va)"
  let ?f = "pmem s (?e AND JLOS_PAGING_ADDR_MASK) (jlos_paging_get_pdpt_index va)"
  let ?pd = "?f AND JLOS_PAGING_ADDR_MASK"
  let ?g = "pmem s ?pd (pdi va)"
  have ps: "\<not> bit ?f 7" if "bit ?e 0" "bit ?f 0"
  proof -
    have "node (pmem s) (roots s x) [jlos_paging_get_pml4_index va] = Some (?e AND JLOS_PAGING_ADDR_MASK)" using us(1) that(1) by simp
    then show ?thesis by (rule upperD [OF vinvD(9) [OF vi x] _ _ _ _ that(2), rotated 2]) simp_all
  qed
  show thesis
  proof (cases "bit ?e 0 \<and> bit ?f 0 \<and> bit ?g 0")
    case False
    then have "node (pmem s) (roots s x) (vpath va) = None" using us(2) by (auto simp: vpath_def Let_def)
    then have "entry s x va = None" by (simp add: entry_def leaf_def)
    moreover have "unmap_locked c x va s = Some (False, s)" using r False by (auto simp: unmap_locked_def Let_def)
    ultimately show thesis by (rule absent [rotated])
  next
    case True
    then have pd: "node (pmem s) (roots s x) (upper va) = Some ?pd" using us(2) by (simp add: Let_def)
    have "big (pmem s) (roots s x) (pdi va) (upper va) = None"
      using vinvD(12) [OF vi x] user_index [OF va] index_lt [of va] by (simp add: no_big_def upper_def paths_def)
    then have g: "\<not> bit ?g 7" using pd True by (simp add: big_def split: if_splits)
    then have pt: "node (pmem s) (roots s x) (vpath va) = Some (?g AND JLOS_PAGING_ADDR_MASK)" using pd True by (simp add: vpath_def)
    obtain s' T where R: "pte_release c x ?pd (pdi va) va s = Some s'" "repages C x va None s s'" "T \<subseteq> {?g AND JLOS_PAGING_ADDR_MASK}"
      "free_addrs (frames s') = free_addrs (frames s) \<union> last_reference s x va \<union> T"
      using release_result [OF inv x va mu pt pd refl] by metis
    have "unmap_locked c x va s = Some (True, s')" using r True g ps R(1) by (simp add: unmap_locked_def Let_def)
    moreover have "T \<subseteq> tables (pmem s) (roots s x)" using R(3) user_leaf_table(2) [OF vi x up pt] by auto
    ultimately show thesis using unmapped R(2,4) by blast
  qed
qed

end
