(* ===== verification/Paging_Props.thy ===== *)
theory Paging_Props
  imports Paging_Unmap
begin

text \<open>
  The properties of the page tables of the 64-bit kernel: mapping and unmapping a user page, their
  composition, the count of present entries of a table, protection bits and address checks.
\<close>

section \<open>A small machine\<close>

text \<open>
  Six frames from one megabyte on, all in use: the four tables on the way to the lowest two megabytes
  of context 0 and two data frames. The first \<open>k\<close> pages are mapped, page 0 to a frame of the allocator and
  the others to a device.
\<close>

definition six_frames :: "nat \<Rightarrow> pfa" where
  "six_frames k = \<lparr>s_total_frames = 6, s_start_addr = 0x100000, s_free_frames = 0, s_free_order_bitmap = 0,
     s_pages = (\<lambda>f. \<lparr>occupied = True, ptype = TYPE_PAGE_TABLE, porder = ORDER_INVALID,
       pt_present_count = (if f = 3 then of_nat k else 0), refcount = 1, owner = 0\<rparr>),
     s_free_area = (\<lambda>_. []), s_percpu = (\<lambda>_. [])\<rparr>"

definition small_memory :: "nat \<Rightarrow> u64 \<Rightarrow> nat \<Rightarrow> u64" where
  "small_memory k u i =
     (if u = 0x100000 \<and> i = 0 then 0x101007
      else if u = 0x101000 \<and> i = 0 then 0x102007
      else if u = 0x102000 \<and> i = 0 then 0x103007
      else if u = 0x103000 \<and> i < k then (if i = 0 then 0x104007 else 0xFD000007)
      else 0)"

definition small_machine :: "nat \<Rightarrow> vmem" where
  "small_machine k = \<lparr>frames = six_frames k, pmem = small_memory k,
     ctxs = (\<lambda>_. \<lparr>root = Some 0x100000, num_page_tables = 1, asid = 0\<rparr>), boot_heap = None,
     active = (\<lambda>_. Some 0), cr3 = (\<lambda>_. 0x100000), flushes = [], pcide_enabled = False, next_pcid = 1\<rparr>"

lemma six_frames_ok: "alloc_ok (six_frames k)" "free_addrs (six_frames k) = {}"
proof -
  have c: "covered (six_frames k) = {}" "free_blocks (six_frames k) = {}" "cached (six_frames k) = {}"
    by (auto simp: six_frames_def covered_def free_blocks_def cached_def)
  have "area_inv (six_frames k)" by (simp add: area_inv_def six_frames_def)
  moreover have "block_inv (six_frames k)" "cache_inv (six_frames k)" "limbo_inv (six_frames k) {}" "frame_inv (six_frames k) {}"
    using c by (auto simp: block_inv_def cache_inv_def limbo_inv_def frame_inv_def clean_def in_use_def six_frames_def)
  ultimately have "buddy_inv (six_frames k) {}" by (simp add: buddy_inv_def)
  then show "alloc_ok (six_frames k)" by (simp add: alloc_ok_def six_frames_def)
  show "free_addrs (six_frames k) = {}" using c by (simp add: free_addrs_def free_set_def)
qed

lemma small_memory_at [simp]:
  "small_memory k 0x100000 i = (if i = 0 then 0x101007 else 0)"
  "small_memory k 0x101000 i = (if i = 0 then 0x102007 else 0)"
  "small_memory k 0x102000 i = (if i = 0 then 0x103007 else 0)"
  "small_memory k 0x103000 i = (if i < k then if i = 0 then 0x104007 else 0xFD000007 else 0)"
  by (simp_all add: small_memory_def)

lemma small_bits [simp]:
  "bit (0x101007 :: u64) 0" "\<not> bit (0x101007 :: u64) 7" "bit (0x102007 :: u64) 0" "\<not> bit (0x102007 :: u64) 7"
  "bit (0x103007 :: u64) 0" "\<not> bit (0x103007 :: u64) 7" "bit (0x104007 :: u64) 0" "\<not> bit (0x104007 :: u64) 7"
  "bit (0xFD000007 :: u64) 0" "\<not> bit (0xFD000007 :: u64) 7"
  by (simp_all add: bit_numeral_word_iff bit_numeral_rec)

lemma small_node: "p \<in> paths \<Longrightarrow> node (small_memory k) 0x100000 p =
   (if p = [] then Some 0x100000 else if p = [0] then Some 0x101000 else if p = [0, 0] then Some 0x102000
    else if p = [0, 0, 0] then Some 0x103000 else None)"
proof -
  assume "p \<in> paths"
  then consider "p = []" | i where "p = [i]" | i j where "p = [j, i]" | i j l where "p = [l, j, i]"
    by (auto simp: paths_def le_Suc_eq length_Suc_conv numeral_3_eq_3)
  then show ?thesis by cases simp_all
qed

lemma small_present: "k \<le> 512 \<Longrightarrow> present (small_memory k 0x103000) = {..<k}"
  by (auto simp: present_def)

lemma six_addrs: "managed_addrs (six_frames k) = {0x100000, 0x101000, 0x102000, 0x103000, 0x104000, 0x105000}"
proof -
  have "{..<6::nat} = {0, 1, 2, 3, 4, 5}" by auto
  then show ?thesis by (simp add: managed_addrs_def six_frames_def frame_addr_def frame_to_phys_def)
qed

lemma six_page: "page_of (six_frames k) 0x103000 = \<lparr>occupied = True, ptype = TYPE_PAGE_TABLE, porder = ORDER_INVALID,
       pt_present_count = of_nat k, refcount = 1, owner = 0\<rparr>" "refcount (page_of (six_frames k) u) = 1"
  by (simp_all add: page_of_def six_frames_def pfa_phys_to_frame_def)

lemma small_leaf:
  assumes "p \<in> paths" "length p = 3"
  shows "leaf (small_memory k) 0x100000 i p = (if p = [0, 0, 0] \<and> i < k then Some (if i = 0 then 0x104007 else 0xFD000007) else None)"
  using assms by (auto simp: leaf_def small_node)

lemma small_mapped:
  "mapped (small_memory k) (\<lambda>_. 0x100000) {0} u \<subseteq> (if u = 0x104000 then {(0, 0, [0, 0, 0])} else if u = 0xFD000000 then UNIV else {})"
  by (auto simp: mapped_def upaths_def small_leaf split: if_splits)

lemma small_tables: "tables (small_memory k) 0x100000 \<subseteq> {0x100000, 0x101000, 0x102000, 0x103000}"
  by (auto simp: tables_def small_node split: if_splits)

lemma small_roots [simp]: "roots (small_machine k) = (\<lambda>_. 0x100000)"
  by (auto simp: roots_def small_machine_def)

lemma small_fields: "frames (small_machine k) = six_frames k" "pmem (small_machine k) = small_memory k"
  "boot_heap (small_machine k) = None" "root (ctxs (small_machine k) x) = Some 0x100000"
  by (simp_all add: small_machine_def)

lemma small_machine_inv: "k \<le> 512 \<Longrightarrow> vm_inv (small_machine k) {0}"
proof -
  assume k: "k \<le> 512"
  let ?m = "small_memory k" and ?r = "0x100000 :: u64" and ?a = "six_frames k"
  have "once ?m ?r" by (auto simp: once_def small_node split: if_splits)
  moreover have "upper_ok ?m ?r" by (auto simp: upper_ok_def small_node split: if_splits)
  moreover have "tables ?m ?r \<inter> free_addrs ?a = {}" using six_frames_ok(2) by simp
  moreover have "user_tables ?m ?r \<subseteq> managed_addrs ?a" using user_sub [of ?m ?r] small_tables [of k] by (auto simp: six_addrs)
  moreover have "counts_ok ?a ?m ?r"
    using small_present [OF k] by (auto simp: counts_ok_def upaths_def small_node six_page split: if_splits)
  moreover have "no_big ?m ?r" by (auto simp: no_big_def big_def small_node split: if_splits)
  ultimately have ctx: "ctx_ok ?a ?m ?r" by (simp add: ctx_ok_def)
  have t: "targets_ok ?m (\<lambda>_. ?r) {0}" using small_tables [of k] small_mapped [of k] by (force simp: targets_ok_def)
  have "card (mapped ?m (\<lambda>_. ?r) {0} u) \<le> 1" if "u \<in> managed_addrs ?a" for u
    using card_mono [OF _ small_mapped [of k u]] that by (auto simp: six_addrs)
  then have r: "refs_ok ?a ?m (\<lambda>_. ?r) {0}" by (simp add: refs_ok_def six_page)
  have "vinv ?a ?m (\<lambda>_. ?r) {0}" using ctx t r six_frames_ok(1) by (simp add: vinv_def disjoint_ctx_def)
  then show ?thesis by (simp add: vm_inv_def small_fields)
qed

lemma small_may_map: "may_map (small_machine 3) {0} 0x105000"
  using small_tables [of 3] small_mapped [of 3 "0x105000"] by (auto simp: may_map_def small_fields six_page)

lemma small_may_unmap: "may_unmap (small_machine 3) 0 0"
proof -
  have "vpath (0 :: u64) = [0, 0, 0]" "pti (0 :: u64) = 0" by code_simp+
  moreover have "[0, 0, 0] \<in> paths" by (simp add: paths_def)
  ultimately show ?thesis using small_present [of 3]
    by (simp add: may_unmap_def entry_def small_fields small_leaf small_node six_addrs)
qed

text \<open>Page 5 of the small machine is mapped to the last frame.\<close>

definition five_mapped :: vmem where
  "five_mapped = (small_machine 3)\<lparr>pmem := upd (small_memory 3) 0x103000 5 0x105007,
     frames := jlos_page_frame_pt_present_count_inc 0x103000 (six_frames 3)\<rparr>"

lemma small_map: "jlos_arch_map_entry 0 0 0x5000 0x105000 0xE (small_machine 3) = Some (True, five_mapped)"
proof -
  have i: "jlos_paging_get_pml4_index 0x5000 = 0" "jlos_paging_get_pdpt_index 0x5000 = 0" "pdi 0x5000 = 0" "pti 0x5000 = 5" by code_simp+
  have "pte_prot 0xE = 7" by code_simp
  then show ?thesis
    by (simp add: jlos_arch_map_entry_def root_ensure_def paging_level_ensure_def page_table_ensure_def pte_install_def i small_fields
        five_mapped_def with_frames_def store_def upd_def Let_def)
qed

lemma five_may_unmap: "may_unmap five_mapped 0 0x5000"
proof -
  have i: "vpath 0x5000 = [0, 0, 0]" "pti 0x5000 = 5" by code_simp+
  have m: "pmem five_mapped 0x103000 = (\<lambda>j. if j = 5 then 0x105007 else small_memory 3 0x103000 j)"
    "pmem five_mapped 0x100000 = small_memory 3 0x100000" "pmem five_mapped 0x101000 = small_memory 3 0x101000"
    "pmem five_mapped 0x102000 = small_memory 3 0x102000" "roots five_mapped 0 = 0x100000"
    by (auto simp: five_mapped_def upd_def roots_def small_fields)
  have n: "node (pmem five_mapped) (roots five_mapped 0) [0, 0, 0] = Some 0x103000" by (simp add: m)
  have a: "managed_addrs (frames five_mapped) = managed_addrs (six_frames 3)"
    by (simp add: five_mapped_def managed_addrs_def frame_addr_def frame_to_phys_def jlos_page_frame_pt_present_count_inc_def set_page_def Let_def)
  have "present (pmem five_mapped 0x103000) \<subseteq> {0, 1, 2, 5}" by (auto simp: present_def m split: if_splits)
  then have "card (present (pmem five_mapped 0x103000)) \<le> card {0, 1, 2, 5 :: nat}" by (rule card_mono [rotated]) simp
  then show ?thesis using n i by (simp add: may_unmap_def entry_def leaf_def m a six_addrs)
qed

section \<open>Mapping and unmapping\<close>

lemma repages_reads:
  assumes "vm_inv s C" "repages C x va e s s'" "y \<in> C" "\<not> (y = x \<and> same_page va w)"
  shows "jlos_arch_get_phys_entry y w s' = jlos_arch_get_phys_entry y w s \<and> jlos_arch_pte_get_prot y w s' = jlos_arch_pte_get_prot y w s"
  using views_determine [of s C s' y w] assms by (auto simp: repages_def)

lemma user_small: "vm_inv s C \<Longrightarrow> x \<in> C \<Longrightarrow> va < USER_SPACE_LIMIT \<Longrightarrow> large s x va = None"
  using vinvD(12) [OF vm_invD(3)] user_path(2) [of va] by (simp add: large_def no_big_def)

lemma repages_page:
  assumes "vm_inv s' C" "repages C x va e s s'" "x \<in> C" "va < USER_SPACE_LIMIT"
  shows "entry s' x va = e"
    and "jlos_arch_get_phys_entry x va s' = (case e of None \<Rightarrow> 0 | Some e \<Rightarrow> (e AND JLOS_PAGING_ADDR_MASK) OR jlos_paging_get_page_offset va)"
proof -
  show e: "entry s' x va = e" using assms(2,3) by (simp add: repages_def same_page_def)
  show "jlos_arch_get_phys_entry x va s' = (case e of None \<Rightarrow> 0 | Some e \<Rightarrow> (e AND JLOS_PAGING_ADDR_MASK) OR jlos_paging_get_page_offset va)"
    using phys_read [OF assms(1,3)] user_small [OF assms(1,3,4)] e by simp
qed

lemma conditional_bit: "bit (if b then p OR q else p :: 'a::len word) n \<longleftrightarrow> bit p n \<or> b \<and> bit q n"
  by (simp add: bit_or_iff)

lemma ext_views: "ext C x s s' \<Longrightarrow> y \<in> C \<Longrightarrow> entry s' y w = entry s y w" "ext C x s s' \<Longrightarrow> y \<in> C \<Longrightarrow> large s' y w = large s y w"
  using extD(2,5,6) by (simp_all add: entry_def large_def)

lemma kept_prot:
  "prot_of ((pa AND JLOS_PAGING_ADDR_MASK) OR pte_prot prot)
     = JLOS_PG_READ OR (prot AND (JLOS_PG_WRITE OR JLOS_PG_EXEC OR JLOS_PG_USER OR JLOS_PG_GLOBAL))"
  unfolding prot_of_def Let_def
  by (rule bit_word_eqI)
    (simp only: conditional_bit bit_or_iff bit_and_iff has_bits one_bit exp_bits addr_mask_bits pte_prot_bits, auto)

text \<open>
  C1: mapping a user page into one of the address spaces of a consistent machine never halts and leaves the
  machine consistent. When it succeeds, the page was not mapped before and now translates to the given frame.
  It fails only when the page is mapped already or no frame is left for a table. Every other page of that
  context and every page of every other context keeps its translation and its protection, and no memory is
  written but the context's own user tables and frames that were free.
\<close>

theorem map_entry_correct:
  assumes "vm_inv s C" "x \<in> C" "va < USER_SPACE_LIMIT" "may_map s C pa"
  shows "\<exists>ok s'. jlos_arch_map_entry c x va pa prot s = Some (ok, s') \<and> vm_inv s' C
     \<and> (if ok then \<not> jlos_arch_pte_present x va s
               \<and> jlos_arch_get_phys_entry x va s' = (pa AND JLOS_PAGING_ADDR_MASK) OR jlos_paging_get_page_offset va
               \<and> jlos_arch_pte_get_prot x va s'
                   = JLOS_PG_READ OR (prot AND (JLOS_PG_WRITE OR JLOS_PG_EXEC OR JLOS_PG_USER OR JLOS_PG_GLOBAL))
        else jlos_arch_pte_present x va s \<or> exhausted c (frames s'))
     \<and> (\<forall>y\<in>C. \<forall>w. \<not> (ok \<and> y = x \<and> same_page va w) \<longrightarrow> jlos_arch_get_phys_entry y w s' = jlos_arch_get_phys_entry y w s
            \<and> jlos_arch_pte_get_prot y w s' = jlos_arch_pte_get_prot y w s)
     \<and> (\<forall>u. u \<notin> free_addrs (frames s) \<longrightarrow> u \<notin> user_tables (pmem s) (roots s x) \<longrightarrow> pmem s' u = pmem s u)"
proof (cases rule: map_entry_result [OF assms, of c prot, case_names mapped present full])
  case (mapped s')
  have inv: "vm_inv s' C" using mapped(3) by (simp add: repages_def)
  note R = repages_page [OF inv mapped(3) assms(2,3)]
  show ?thesis using kept_prot [of pa prot] mapped(1,2) inv R repages_reads [OF assms(1) mapped(3)] mapped(3) pte_reads [OF assms(1,2)] pte_reads [OF inv assms(2)]
    by (intro exI [of _ True] exI [of _ s']) (auto simp: repages_def)
next
  case (present s')
  note r = ext_repages [OF present(3) assms(2)] and e = ext_views [OF present(3)]
  have inv: "vm_inv s' C" using r by (simp add: repages_def)
  show ?thesis using present(1,2) inv r views_determine [OF assms(1) inv] e pte_reads [OF assms(1,2)]
    by (intro exI [of _ False] exI [of _ s']) (auto simp: repages_def)
next
  case (full s')
  note r = ext_repages [OF full(3) assms(2)] and e = ext_views [OF full(3)]
  have inv: "vm_inv s' C" using r by (simp add: repages_def)
  show ?thesis using full(1,2) inv r views_determine [OF assms(1) inv] e
    by (intro exI [of _ False] exI [of _ s']) (auto simp: repages_def)
qed

theorem map_entry_correct_witness:
  "jlos_arch_map_entry 0 0 0x5000 0x105000 0xE (small_machine 3) = Some (True, five_mapped)
   \<and> vm_inv five_mapped {0} \<and> jlos_arch_get_phys_entry 0 0x5000 five_mapped = 0x105000
   \<and> jlos_arch_get_phys_entry 0 0x1234 five_mapped = jlos_arch_get_phys_entry 0 0x1234 (small_machine 3)"
proof -
  have inv: "vm_inv (small_machine 3) {0}" by (rule small_machine_inv) simp
  have n: "\<not> same_page 0x5000 0x1234" unfolding same_page_def by code_simp
  have o: "(0x105000 AND JLOS_PAGING_ADDR_MASK) OR jlos_paging_get_page_offset 0x5000 = 0x105000" by code_simp
  show ?thesis using map_entry_correct [OF inv _ _ small_may_map, of 0 "0x5000" 0 "0xE"] small_map n o by auto
qed

text \<open>
  C4: unmapping a user page of a consistent machine never halts and leaves the machine consistent, as long as the
  page table holds fewer than 256 pages. The page is unmapped afterwards, every other page of every context
  keeps its translation and its protection, and the frames that become free are the page when this was the last
  reference to it, and tables of the context.
\<close>

theorem unmap_correct:
  assumes "vm_inv s C" "x \<in> C" "va < USER_SPACE_LIMIT" "may_unmap s x va"
  shows "\<exists>ok s' T. jlos_arch_unmap_entry c x va s = Some (ok, s') \<and> vm_inv s' C
     \<and> (jlos_arch_pte_present x va s \<longrightarrow> ok) \<and> \<not> jlos_arch_pte_present x va s'
     \<and> (\<forall>y\<in>C. \<forall>w. \<not> (y = x \<and> same_page va w) \<longrightarrow> jlos_arch_get_phys_entry y w s' = jlos_arch_get_phys_entry y w s
            \<and> jlos_arch_pte_get_prot y w s' = jlos_arch_pte_get_prot y w s)
     \<and> T \<subseteq> tables (pmem s) (roots s x) \<and> free_addrs (frames s') = free_addrs (frames s) \<union> last_reference s x va \<union> T"
proof (cases rule: unmap_result [OF assms, of c, case_names absent unmapped])
  case absent
  then show ?thesis using assms(1) pte_reads(1) [OF assms(1,2)]
    by (intro exI [of _ False] exI [of _ s] exI [of _ "{}"]) (simp add: jlos_arch_unmap_entry_def last_reference_def)
next
  case (unmapped s' T)
  have inv: "vm_inv s' C" using unmapped(2) by (simp add: repages_def)
  show ?thesis using unmapped(1,3,4) inv repages_page(1) [OF inv unmapped(2) assms(2,3)] repages_reads [OF assms(1) unmapped(2)]
      pte_reads(1) [OF inv assms(2)]
    by (intro exI [of _ True] exI [of _ s'] exI [of _ T]) (simp add: jlos_arch_unmap_entry_def)
qed

theorem unmap_correct_witness:
  "\<exists>ok s'. jlos_arch_unmap_entry 0 0 0 (small_machine 3) = Some (ok, s') \<and> vm_inv s' {0} \<and> \<not> jlos_arch_pte_present 0 0 s'
   \<and> jlos_arch_get_phys_entry 0 0x1234 s' = jlos_arch_get_phys_entry 0 0x1234 (small_machine 3)"
proof -
  have inv: "vm_inv (small_machine 3) {0}" by (rule small_machine_inv) simp
  have n: "\<not> same_page 0 0x1234" unfolding same_page_def by code_simp
  show ?thesis using unmap_correct [OF inv _ _ small_may_unmap, of 0] n by fastforce
qed

text \<open>
  C22: unmapping a page right after mapping it gives back the address space it started from: every page of
  every context translates as before, with the same protection. This holds when the frame that was mapped is
  a managed one or lies outside the allocator's range, and the page table holds fewer than 256 pages after the
  mapping; with exactly 256 the count of present entries wraps around.
\<close>

theorem map_unmap_roundtrip:
  assumes "vm_inv s C" "x \<in> C" "va < USER_SPACE_LIMIT" "may_map s C pa"
    and "jlos_arch_map_entry c x va pa prot s = Some (True, s')" "may_unmap s' x va"
  shows "\<exists>s''. jlos_arch_unmap_entry c x va s' = Some (True, s'') \<and> vm_inv s'' C
     \<and> (\<forall>y\<in>C. \<forall>w. jlos_arch_get_phys_entry y w s'' = jlos_arch_get_phys_entry y w s
            \<and> jlos_arch_pte_get_prot y w s'' = jlos_arch_pte_get_prot y w s)"
proof -
  have m: "entry s x va = None" "\<exists>e. repages C x va (Some e) s s'"
    using map_entry_result [OF assms(1-4), of c prot] assms(5) by auto
  then obtain e where e: "repages C x va (Some e) s s'" by blast
  then have inv: "vm_inv s' C" by (simp add: repages_def)
  note es = repages_page(1) [OF inv e assms(2,3)]
  have "\<exists>s''. unmap_locked c x va s' = Some (True, s'') \<and> repages C x va None s' s''"
    by (rule unmap_result [OF inv assms(2,3,6), of c]) (use es in auto)
  then obtain s'' where u: "unmap_locked c x va s' = Some (True, s'')" "repages C x va None s' s''" by blast
  then have inv2: "vm_inv s'' C" by (simp add: repages_def)
  have "entry s'' y w = entry s y w \<and> large s'' y w = large s y w" if "y \<in> C" for y w
    using e u(2) that m(1) by (auto simp: repages_def entry_def same_page_def)
  then show ?thesis using u(1) inv2 views_determine [OF assms(1) inv2] by (simp add: jlos_arch_unmap_entry_def)
qed

theorem map_unmap_roundtrip_witness:
  "\<exists>s''. jlos_arch_unmap_entry 0 0 0x5000 five_mapped = Some (True, s'') \<and> vm_inv s'' {0}
     \<and> jlos_arch_get_phys_entry 0 0x5000 s'' = jlos_arch_get_phys_entry 0 0x5000 (small_machine 3)"
proof -
  have inv: "vm_inv (small_machine 3) {0}" by (rule small_machine_inv) simp
  show ?thesis using map_unmap_roundtrip [OF inv _ _ small_may_map small_map five_may_unmap] by auto
qed

section \<open>The count of present entries\<close>

lemma once_neq: "once m r \<Longrightarrow> p \<in> paths \<Longrightarrow> q \<in> paths \<Longrightarrow> node m r p = Some t \<Longrightarrow> node m r q = Some u \<Longrightarrow> p \<noteq> q \<Longrightarrow> t \<noteq> u"
  unfolding once_def by blast

lemma path_tables:
  assumes inv: "vm_inv s C" and x: "x \<in> C" and va: "va < USER_SPACE_LIMIT" and pt: "node (pmem s) (roots s x) (vpath va) = Some pt"
  obtains pdpt pd where "pmem s (roots s x) (jlos_paging_get_pml4_index va) AND JLOS_PAGING_ADDR_MASK = pdpt"
    "pmem s pdpt (jlos_paging_get_pdpt_index va) AND JLOS_PAGING_ADDR_MASK = pd" "pmem s pd (pdi va) AND JLOS_PAGING_ADDR_MASK = pt"
    "bit (pmem s (roots s x) (jlos_paging_get_pml4_index va)) 0"
    "bit (pmem s pdpt (jlos_paging_get_pdpt_index va)) 0" "\<not> bit (pmem s pdpt (jlos_paging_get_pdpt_index va)) 7"
    "bit (pmem s pd (pdi va)) 0" "\<not> bit (pmem s pd (pdi va)) 7"
    "pd \<noteq> roots s x" "pd \<noteq> pdpt" "pt \<noteq> roots s x" "pt \<noteq> pdpt" "pt \<noteq> pd"
proof -
  let ?m = "pmem s" and ?r = "roots s x"
  obtain pd where pd: "node ?m ?r (upper va) = Some pd" "bit (?m pd (pdi va)) 0" "\<not> bit (?m pd (pdi va)) 7" "?m pd (pdi va) AND JLOS_PAGING_ADDR_MASK = pt"
    using pt by (auto simp: vpath_def split: if_splits option.splits bind_splits)
  obtain pdpt where pp: "node ?m ?r [jlos_paging_get_pml4_index va] = Some pdpt" "bit (?m pdpt (jlos_paging_get_pdpt_index va)) 0"
      "\<not> bit (?m pdpt (jlos_paging_get_pdpt_index va)) 7" "?m pdpt (jlos_paging_get_pdpt_index va) AND JLOS_PAGING_ADDR_MASK = pd"
    using pd(1) by (auto simp: upper_def simp del: node.simps(1) split: if_splits option.splits bind_splits)
  have r: "bit (?m ?r (jlos_paging_get_pml4_index va)) 0" "?m ?r (jlos_paging_get_pml4_index va) AND JLOS_PAGING_ADDR_MASK = pdpt"
    using pp(1) by (auto split: if_splits)
  note o = vinvD(7) [OF vm_invD(3) [OF inv] x]
  have p1: "[jlos_paging_get_pml4_index va] \<in> paths" "[] \<in> paths" by (simp_all add: paths_def)
  have n0: "node ?m ?r [] = Some ?r" by simp
  have "pd \<noteq> ?r" "pd \<noteq> pdpt" "pt \<noteq> ?r" "pt \<noteq> pdpt" "pt \<noteq> pd"
    using once_neq [OF o _ p1(2) pd(1) n0] once_neq [OF o _ p1(1) pd(1) pp(1)] once_neq [OF o _ p1(2) pt n0]
      once_neq [OF o _ p1(1) pt pp(1)] once_neq [OF o _ _ pt pd(1)] path_facts [of va]
    by (auto simp: upper_def vpath_def)
  then show thesis using that [OF r(2) pp(4) pd(4) r(1) pp(2,3) pd(2,3)] by blast
qed

text \<open>
  C26: the count of present entries has eight bits, and a page table has 512 entries. In a consistent machine,
  unmapping one page of a table that holds exactly 256 pages succeeds, frees the table and unmaps every page of
  it: the 255 others are lost.
\<close>

theorem present_count_wraps:
  assumes inv: "vm_inv s C" and x: "x \<in> C" and va: "va < USER_SPACE_LIMIT" and walk: "pte_walk x va s = Some (pt, i)"
    and full: "card (present (pmem s pt)) = 256" and one: "refcount (page_of (frames s) pt) = 1"
    and e: "entry s x va = Some e" and t: "e AND JLOS_PAGING_ADDR_MASK \<in> managed_addrs (frames s) \<or> foreign (frames s) (e AND JLOS_PAGING_ADDR_MASK)"
  shows "\<exists>s'. jlos_arch_unmap_entry c x va s = Some (True, s') \<and> pt \<in> free_addrs (frames s')
     \<and> (\<forall>w. vpath w = vpath va \<longrightarrow> \<not> jlos_arch_pte_present x w s')"
proof -
  let ?t = "e AND JLOS_PAGING_ADDR_MASK"
  note vi = vm_invD(3) [OF inv] and up = user_path(1) [OF va] and r = vm_invD(2) [OF inv x]
  have pt: "node (pmem s) (roots s x) (vpath va) = Some pt" using walk walk_node [OF inv x] by auto
  note ut = user_leaf_table [OF vi x up pt] and T = target_facts [OF inv x va e]
  obtain pdpt pd where P: "pmem s (roots s x) (jlos_paging_get_pml4_index va) AND JLOS_PAGING_ADDR_MASK = pdpt"
    "pmem s pdpt (jlos_paging_get_pdpt_index va) AND JLOS_PAGING_ADDR_MASK = pd" "pmem s pd (pdi va) AND JLOS_PAGING_ADDR_MASK = pt"
    "bit (pmem s (roots s x) (jlos_paging_get_pml4_index va)) 0"
    "bit (pmem s pdpt (jlos_paging_get_pdpt_index va)) 0" "\<not> bit (pmem s pdpt (jlos_paging_get_pdpt_index va)) 7"
    "bit (pmem s pd (pdi va)) 0" "\<not> bit (pmem s pd (pdi va)) 7"
    "pd \<noteq> roots s x" "pd \<noteq> pdpt" "pt \<noteq> roots s x" "pt \<noteq> pdpt" "pt \<noteq> pd"
    using path_tables [OF inv x va pt] by metis
  have "?t \<in> managed_addrs (frames s) \<and> ?t \<notin> free_addrs (frames s) \<or> ?t \<notin> managed_addrs (frames s) \<and> foreign (frames s) ?t"
    using t T(2) by blast
  from drop_reference [OF vinvD(2) [OF vi] this, of c]
  obtain a where a: "jlos_page_frame_refcount_dec c (ucast ?t) (frames s) = Some a" "dropped (frames s) ?t a" by blast
  have nt: "pt \<noteq> ?t" using T(3) [OF x] ut(2) by auto
  have A: "alloc_ok a" "pt \<in> managed_addrs a" "pt \<notin> free_addrs a" "page_of a pt = page_of (frames s) pt"
    using a(2) ut(3,4) nt by (auto simp: dropped_def)
  have cnt: "pt_present_count (page_of a pt) = 0"
    using A(4) vinvD(11) [OF vi x] up pt full by (simp add: counts_ok_def)
  define a1 where "a1 = set_record pt (\<lambda>p. p\<lparr>ptype := TYPE_FREE, owner := 0\<rparr>) a"
  have iu: "\<forall>p. in_use p \<longrightarrow> in_use (p\<lparr>ptype := TYPE_FREE, owner := 0\<rparr>)" by (simp add: in_use_def)
  note R = set_record_result [OF A(1-3) iu, folded a1_def]
  have p1: "pt \<in> managed_addrs a1" "pt \<notin> free_addrs a1" "refcount (page_of a1 pt) = 1" using A R(2,3,5) one by simp_all
  obtain a2 where a2: "jlos_page_frame_free c (ucast pt) a1 = Some a2" "pt \<in> free_addrs a2"
    using frame_release_law [OF R(1) p1(1,2), of c] p1(3) by (auto simp: jlos_page_frame_free_def)
  have pe: "pmem s pt (pti va) = e" "bit e 0" using e pt by (auto simp: entry_def leaf_def split: if_splits)
  define s' where "s' = set_ctx x (\<lambda>k. k\<lparr>num_page_tables := num_page_tables k - 1\<rparr>) (store pd (pdi va) 0 (store pt (pti va) 0 (s\<lparr>frames := a2\<rparr>)))"
  have "pte_release c x pd (pdi va) va s = Some s'"
    unfolding pte_release_def Let_def P(3) pe(1) using pe(2) a(1) va cnt a2(1) record_ops(1,4,5) [OF A(1-3)]
    by (simp add: with_frames_def jlos_page_frame_clear_owner_type_def a1_def s'_def store_def)
  then have res: "jlos_arch_unmap_entry c x va s = Some (True, s')"
    using r P by (simp add: jlos_arch_unmap_entry_def unmap_locked_def Let_def)
  have mem: "pmem s' = upd (upd (pmem s) pt (pti va) 0) pd (pdi va) 0" and rt: "root (ctxs s' x) = Some (roots s x)"
    using r by (simp_all add: s'_def store_mem)
  have "\<not> jlos_arch_pte_present x w s'" if "vpath w = vpath va" for w
  proof -
    have i: "pdi w = pdi va" "jlos_paging_get_pdpt_index w = jlos_paging_get_pdpt_index va" "jlos_paging_get_pml4_index w = jlos_paging_get_pml4_index va"
      using that by (simp_all add: vpath_def upper_def)
    have "pte_walk x w s' = None" using rt P unfolding pte_walk_def i mem by (simp add: upd_apply Let_def)
    then show ?thesis by (simp add: jlos_arch_pte_present_def)
  qed
  moreover have "frames s' = a2" by (simp add: s'_def)
  ultimately show ?thesis using res a2(2) by blast
qed

theorem present_count_wraps_witness:
  "\<exists>s'. jlos_arch_unmap_entry 0 0 0 (small_machine 256) = Some (True, s') \<and> 0x103000 \<in> free_addrs (frames s')
     \<and> jlos_arch_pte_present 0 0x7000 (small_machine 256) \<and> \<not> jlos_arch_pte_present 0 0x7000 s'"
proof -
  have inv: "vm_inv (small_machine 256) {0}" by (rule small_machine_inv) simp
  have i: "vpath (0 :: u64) = [0, 0, 0]" "pti (0 :: u64) = 0" "vpath 0x7000 = vpath (0 :: u64)" "pti 0x7000 = 7" by code_simp+
  have p: "[0, 0, 0] \<in> paths" by (simp add: paths_def)
  have w: "pte_walk 0 0 (small_machine 256) = Some (0x103000, 0)"
    using walk_node [OF inv, of 0 0] i p by (simp add: small_fields small_node)
  have c: "card (present (pmem (small_machine 256) 0x103000)) = 256" using small_present [of 256] by (simp add: small_fields)
  have e: "entry (small_machine 256) 0 0 = Some 0x104007" "entry (small_machine 256) 0 0x7000 = Some 0xFD000007"
    using i p by (simp_all add: entry_def small_fields small_leaf)
  have "jlos_arch_pte_present 0 0x7000 (small_machine 256)" using pte_reads(1) [OF inv, of 0] e by simp
  then show ?thesis
    using present_count_wraps [OF inv _ _ w c _ e(1), of 0] i(3) by (fastforce simp: small_fields six_page six_addrs)
qed

section \<open>Entries and addresses\<close>








text \<open>
  C40: the check of a user buffer has no wrap-around on a 64-bit machine: it accepts exactly the buffers whose
  every byte lies below the end of user space, and each of these bytes is translated by the user half of the root table.
\<close>

theorem user_accessible_bounds:
  "(jlos_paging_is_user_accessible x va len s
     \<longleftrightarrow> root (ctxs s x) \<noteq> None \<and> unat va < 2 ^ 47 \<and> unat va + unat len \<le> 2 ^ 47)
   \<and> (jlos_paging_is_user_accessible x va len s \<and> i < unat len \<longrightarrow>
        unat (va + of_nat i) = unat va + i \<and> jlos_paging_get_pml4_index (va + of_nat i) < 256)"
proof -
  have l: "unat len < 2 ^ 32" using unsigned_less [where 'a = nat and w = len] by simp
  have u: "unat (ucast len :: u64) = unat len" by (rule unat_ucast64)
  have eq: "jlos_paging_is_user_accessible x va len s
     \<longleftrightarrow> root (ctxs s x) \<noteq> None \<and> unat va < 2 ^ 47 \<and> unat va + unat len \<le> 2 ^ 47"
  proof (cases "unat va < 2 ^ 47")
    case True
    then have "unat va + unat len < 2 ^ 47 + 2 ^ 32" using l by (rule add_strict_mono)
    then have "unat va + unat len < 2 ^ 64" by simp
    then have "unat (va + ucast len) = unat va + unat len" using u by (simp add: unat_word_ariths)
    then show ?thesis using True by (auto simp: jlos_paging_is_user_accessible_def word_le_nat_alt word_less_nat_alt)
  next
    case False
    then show ?thesis by (auto simp: jlos_paging_is_user_accessible_def word_le_nat_alt)
  qed
  moreover have "unat (va + of_nat i) = unat va + i \<and> jlos_paging_get_pml4_index (va + of_nat i) < 256"
    if "unat va + unat len \<le> 2 ^ 47" "i < unat len"
  proof -
    have "unat va + i < 2 ^ 47" using that by simp
    moreover have "unat (of_nat i :: u64) = i" using that l by (simp add: unat_of_nat)
    ultimately have n: "unat (va + of_nat i) = unat va + i" by (simp add: unat_word_ariths)
    then have "va + of_nat i < USER_SPACE_LIMIT" using \<open>unat va + i < 2 ^ 47\<close> by (simp add: word_less_nat_alt)
    then show ?thesis using n user_index by blast
  qed
  ultimately show ?thesis by blast
qed

theorem user_accessible_bounds_witness:
  "jlos_paging_is_user_accessible 0 0x7FFFFFFFF000 0x1000 (small_machine 1)
   \<and> jlos_paging_get_pml4_index (0x7FFFFFFFF000 + 0xFFF) = 255
   \<and> unat (0x7FFFFFFFF000 + of_nat 0xFFF :: u64) = 0x7FFFFFFFFFFF"
proof -
  have a: "jlos_paging_is_user_accessible 0 0x7FFFFFFFF000 0x1000 (small_machine 1)"
    by (simp add: jlos_paging_is_user_accessible_def small_fields)
  have "jlos_paging_get_pml4_index (0x7FFFFFFFF000 + 0xFFF) = 255" by code_simp
  then show ?thesis using a user_accessible_bounds [of 0 "0x7FFFFFFFF000" "0x1000" "small_machine 1" "0xFFF"] by simp
qed

lemma virt_phys: "p < KERNEL_DIRECT_MAP_SIZE \<Longrightarrow> VIRT_TO_PHYS (PHYS_TO_VIRT p) = p"
proof -
  assume "p < KERNEL_DIRECT_MAP_SIZE"
  then have "unat p < 0x8000000000" by (simp add: word_less_nat_alt)
  then have "unat (p + KERNEL_DIRECT_MAP_BASE) < unat KERNEL_VIRTUAL_BASE" by (simp add: unat_word_ariths)
  then show ?thesis by (simp add: VIRT_TO_PHYS_def PHYS_TO_VIRT_def word_le_nat_alt)
qed

end
