(* ===== verification/Heap_Props.thy ===== *)
theory Heap_Props
  imports Heap Paging_Props
begin

text \<open>
  The invariant of the chunk heap and what its operations do: the chunks tile the heap, the class
  lists hold exactly the free chunks of their class, and no two free chunks are neighbours. A
  chunk that an operation has taken off its list is in limbo; the invariant is relative to the
  set of these.
\<close>

section \<open>Size classes\<close>

lemma takeWhile_rev_le: "P k \<Longrightarrow> k < n \<Longrightarrow> length (takeWhile (\<lambda>i. \<not> P i) (rev [0..<n])) < n - k"
proof (induction n)
  case (Suc n)
  then show ?case by (cases "k = n") auto
qed simp

lemma clz_le: "bit w k \<Longrightarrow> k < 32 \<Longrightarrow> builtin_clz w \<le> 31 - k"
  using takeWhile_rev_le [of "bit w" k 32] by (simp add: builtin_clz_def)

lemma high_bit: "16 \<le> unat (w :: u32) \<Longrightarrow> \<exists>k. 4 \<le> k \<and> k < 32 \<and> bit w k"
proof (rule ccontr)
  assume a: "16 \<le> unat w" "\<not> (\<exists>k. 4 \<le> k \<and> k < 32 \<and> bit w k)"
  have "w AND mask 4 = w" using a(2) by (intro bit_word_eqI) (auto simp: bit_and_iff bit_mask_iff not_le)
  then have "unat w = unat w mod 2 ^ 4" using unat_and_mask [of 4 w] by (simp add: mask_eq_decr_exp)
  then have "unat w < 2 ^ 4" by (metis mod_less_divisor zero_less_numeral zero_less_power)
  then show False using a(1) by simp
qed

lemma size_class: "unat sz < 2 ^ 32 \<Longrightarrow> maxc < 32 \<Longrightarrow> \<exists>k. mm_size_to_class sz maxc = Some k \<and> k \<le> maxc"
proof (cases "sz \<le> 16")
  case False
  assume b: "unat sz < 2 ^ 32" "maxc < 32"
  have u: "unat (sz - 1) = unat sz - 1" using False by (simp add: unat_minus_noov word_le_nat_alt)
  then have x: "unat (ucast (sz - 1) :: u32) = unat sz - 1" using b by (simp add: unat_ucast32)
  then have "16 \<le> unat (ucast (sz - 1) :: u32)" using False by (simp add: word_le_nat_alt)
  then obtain k where k: "4 \<le> k" "k < 32" "bit (ucast (sz - 1) :: u32) k" using high_bit by blast
  then have "builtin_clz (ucast (sz - 1) :: u32) \<le> 27" using clz_le [OF k(3,2)] by simp
  moreover have "(ucast (sz - 1) :: u32) \<noteq> 0" using k(3) by auto
  ultimately show ?thesis using False by (auto simp: mm_size_to_class_def Let_def)
qed (simp add: mm_size_to_class_def)

lemma takeWhile_rev_last: "\<exists>i<n. P i \<Longrightarrow> let c = length (takeWhile (\<lambda>i. \<not> P i) (rev [0..<n])) in c < n \<and> P (n - Suc c)"
proof (induction n)
  case (Suc n)
  show ?case
  proof (cases "P n")
    case False
    then have "\<exists>i<n. P i" using Suc.prems less_Suc_eq by auto
    then show ?thesis using Suc.IH False by (simp add: Let_def)
  qed (simp add: Let_def)
qed simp

lemma clz_bit: "w \<noteq> 0 \<Longrightarrow> builtin_clz w < 32 \<and> bit w (31 - builtin_clz w)"
  using takeWhile_rev_last [of 32 "bit w"] word_nonzero_bit [of w] by (simp add: builtin_clz_def Let_def)

lemma clz_mono:
  assumes "v \<le> w" "v \<noteq> 0"
  shows "builtin_clz w \<le> builtin_clz (v :: u32)"
proof -
  let ?h = "31 - builtin_clz v"
  have h: "builtin_clz v < 32" "bit v ?h" using clz_bit [OF assms(2)] by auto
  have "\<exists>k\<ge>?h. k < 32 \<and> bit w k"
  proof (rule ccontr)
    assume "\<not> ?thesis"
    then have "take_bit ?h w = w" using h(1) by (intro bit_word_eqI) (auto simp: bit_take_bit_iff not_le)
    then have "unat w < 2 ^ ?h" using take_bit_nat_less_exp [of ?h "unat w"] by (metis unsigned_take_bit_eq)
    moreover have "2 ^ ?h \<le> unat v"
    proof (rule ccontr)
      assume "\<not> 2 ^ ?h \<le> unat v"
      then have "\<not> bit (unat v) ?h" by (simp add: bit_iff_odd)
      then show False using h(2) by (simp add: bit_unsigned_iff)
    qed
    ultimately show False using assms(1) by (simp add: word_le_nat_alt)
  qed
  then obtain k where "?h \<le> k" "k < 32" "bit w k" by blast
  then show ?thesis using clz_le [of w k] h(1) by linarith
qed

lemma class_mono:
  assumes "mm_size_to_class a maxc = Some i" "mm_size_to_class b maxc = Some j" "i < j" "unat a < 2 ^ 32" "unat b < 2 ^ 32"
  shows "unat a < unat b"
proof (rule ccontr)
  assume "\<not> unat a < unat b"
  then have le: "b \<le> a" by (simp add: word_le_nat_alt)
  have b16: "\<not> b \<le> 16" using assms(2,3) by (auto simp: mm_size_to_class_def)
  then have a16: "\<not> a \<le> 16" using le by (meson order_trans)
  have u: "unat (ucast (a - 1) :: u32) = unat a - 1" "unat (ucast (b - 1) :: u32) = unat b - 1"
  proof -
    have "unat (a - 1) = unat a - 1" "unat (b - 1) = unat b - 1"
      using a16 b16 by (simp_all add: unat_minus_noov word_le_nat_alt)
    then show "unat (ucast (a - 1) :: u32) = unat a - 1" "unat (ucast (b - 1) :: u32) = unat b - 1"
      using assms(4,5) by (simp_all add: unat_ucast32)
  qed
  have "(ucast (b - 1) :: u32) \<le> ucast (a - 1)" using u le by (simp add: word_le_nat_alt)
  moreover have "(ucast (b - 1) :: u32) \<noteq> 0"
  proof
    assume "(ucast (b - 1) :: u32) = 0"
    then show False using u(2) b16 by (simp add: word_le_nat_alt)
  qed
  ultimately have "builtin_clz (ucast (a - 1) :: u32) \<le> builtin_clz (ucast (b - 1) :: u32)" by (rule clz_mono)
  then show False using assms(1-3) a16 b16 by (auto simp: mm_size_to_class_def Let_def split: if_splits)
qed

section \<open>Tiling\<close>

fun tiles :: "(u64 \<Rightarrow> jlos_memory_chunk) \<Rightarrow> nat \<Rightarrow> u64 list \<Rightarrow> nat \<Rightarrow> bool" where
  "tiles h a [] b \<longleftrightarrow> a = b"
| "tiles h a (x # xs) b \<longleftrightarrow> unat x = a \<and> 16 \<le> unat (csize (h x)) \<and> tiles h (a + 48 + unat (csize (h x))) xs b"

lemma tiles_append: "tiles h a (xs @ ys) b \<longleftrightarrow> (\<exists>c. tiles h a xs c \<and> tiles h c ys b)"
  by (induction xs arbitrary: a) auto

lemma tiles_le: "tiles h a xs b \<Longrightarrow> a \<le> b"
  by (induction xs arbitrary: a) fastforce+

lemma tiles_mem: "tiles h a xs b \<Longrightarrow> x \<in> set xs \<Longrightarrow> a \<le> unat x \<and> unat x + 48 + unat (csize (h x)) \<le> b \<and> 16 \<le> unat (csize (h x))"
proof (induction xs arbitrary: a)
  case (Cons y ys)
  show ?case using Cons.IH Cons.prems tiles_le [of h _ ys b] by fastforce
qed simp

lemma tiles_distinct: "tiles h a xs b \<Longrightarrow> distinct xs"
proof (induction xs arbitrary: a)
  case (Cons y ys)
  then have "y \<notin> set ys" using tiles_mem [of h "a + 48 + unat (csize (h y))" ys b y] by auto
  then show ?case using Cons by auto
qed simp

lemma tiles_cong: "(\<And>x. x \<in> set xs \<Longrightarrow> csize (h' x) = csize (h x)) \<Longrightarrow> tiles h' a xs b = tiles h a xs b"
  by (induction xs arbitrary: a) auto

text \<open>Two chunks never overlap.\<close>

lemma tiles_disjoint:
  "tiles h a xs b \<Longrightarrow> x \<in> set xs \<Longrightarrow> y \<in> set xs \<Longrightarrow> unat x < unat y \<Longrightarrow> unat x + 48 + unat (csize (h x)) \<le> unat y"
proof (induction xs arbitrary: a)
  case (Cons z zs)
  then show ?case using tiles_mem [of h "a + 48 + unat (csize (h z))" zs b] by fastforce
qed simp

section \<open>The invariant\<close>

definition free_in :: "jlos_memory_manager \<Rightarrow> u64 set \<Rightarrow> nat \<Rightarrow> u64 set" where
  "free_in m L k = {x \<in> set (chunk_head m) - L. \<not> allocated (hdr m x) \<and> mm_size_to_class (csize (hdr m x)) (max_class m) = Some k}"

definition lists_ok :: "jlos_memory_manager \<Rightarrow> u64 set \<Rightarrow> bool" where
  "lists_ok m L \<longleftrightarrow> max_class m < 32 \<and> (\<forall>k. distinct (class_head m k) \<and> set (class_head m k) = free_in m L k)
     \<and> (\<forall>k. bit (size_bitmap m) k \<longleftrightarrow> class_head m k \<noteq> [])"

definition layout_ok :: "jlos_memory_manager \<Rightarrow> bool" where
  "layout_ok m \<longleftrightarrow> tiles (hdr m) (unat (heap_start m)) (chunk_head m) (unat (heap_current m))
     \<and> unat (heap_current m) - unat (heap_start m) < 2 ^ 32
     \<and> mm_tail m = (if chunk_head m = [] then None else Some (last (chunk_head m)))"

definition coalesced :: "jlos_memory_manager \<Rightarrow> u64 set \<Rightarrow> bool" where
  "coalesced m L \<longleftrightarrow> successively (\<lambda>x y. x \<in> L \<or> y \<in> L \<or> allocated (hdr m x) \<or> allocated (hdr m y)) (chunk_head m)"

definition heap_inv :: "jlos_memory_manager \<Rightarrow> u64 set \<Rightarrow> bool" where
  "heap_inv m L \<longleftrightarrow> layout_ok m \<and> lists_ok m L \<and> coalesced m L"

lemma heap_invD:
  assumes "heap_inv m L"
  shows "tiles (hdr m) (unat (heap_start m)) (chunk_head m) (unat (heap_current m))"
    and "unat (heap_current m) - unat (heap_start m) < 2 ^ 32" and "distinct (chunk_head m)"
    and "mm_tail m = (if chunk_head m = [] then None else Some (last (chunk_head m)))"
    and "max_class m < 32" and "\<And>k. distinct (class_head m k)" and "\<And>k. set (class_head m k) = free_in m L k"
    and "\<And>k. bit (size_bitmap m) k \<longleftrightarrow> class_head m k \<noteq> []"
    and "\<And>x. x \<in> set (chunk_head m) \<Longrightarrow> unat (csize (hdr m x)) < 2 ^ 32"
    and "\<And>x. x \<in> set (chunk_head m) \<Longrightarrow> \<exists>k. mm_size_to_class (csize (hdr m x)) (max_class m) = Some k \<and> k \<le> max_class m"
proof -
  show t: "tiles (hdr m) (unat (heap_start m)) (chunk_head m) (unat (heap_current m))"
    and d: "unat (heap_current m) - unat (heap_start m) < 2 ^ 32"
    and "mm_tail m = (if chunk_head m = [] then None else Some (last (chunk_head m)))"
    and c: "max_class m < 32" and "\<And>k. distinct (class_head m k)" and "\<And>k. set (class_head m k) = free_in m L k"
    and "\<And>k. bit (size_bitmap m) k \<longleftrightarrow> class_head m k \<noteq> []"
    using assms by (auto simp: heap_inv_def layout_ok_def lists_ok_def)
  show "distinct (chunk_head m)" by (rule tiles_distinct [OF t])
  show b: "unat (csize (hdr m x)) < 2 ^ 32" if "x \<in> set (chunk_head m)" for x
    using tiles_mem [OF t that] d by linarith
  show "\<exists>k. mm_size_to_class (csize (hdr m x)) (max_class m) = Some k \<and> k \<le> max_class m" if "x \<in> set (chunk_head m)" for x
    by (rule size_class [OF b [OF that] c])
qed

lemma bitmap_add: "k < 32 \<Longrightarrow> bit (b OR 2 ^ k :: u32) j \<longleftrightarrow> bit b j \<or> j = k"
  by (auto simp: bit_or_iff bit_exp_iff)

lemma bitmap_drop: "k < 32 \<Longrightarrow> bit (b AND NOT (2 ^ k) :: u32) j \<longleftrightarrow> bit b j \<and> j \<noteq> k"
  using bit_imp_le_length [of b j] by (auto simp: bit_and_iff bit_not_iff bit_exp_iff)

text \<open>Taking a chunk off its list and putting one on a list.\<close>

lemma clear_if_empty_fields [simp]:
  "chunk_head (clear_if_empty k m) = chunk_head m" "hdr (clear_if_empty k m) = hdr m" "class_head (clear_if_empty k m) = class_head m"
  "max_class (clear_if_empty k m) = max_class m" "mm_tail (clear_if_empty k m) = mm_tail m"
  "heap_start (clear_if_empty k m) = heap_start m" "heap_current (clear_if_empty k m) = heap_current m"
  by (simp_all add: clear_if_empty_def)

lemma clear_if_empty_bit:
  "k < 32 \<Longrightarrow> bit (size_bitmap (clear_if_empty k m)) j \<longleftrightarrow> bit (size_bitmap m) j \<and> (j = k \<longrightarrow> class_head m k \<noteq> [])"
  by (auto simp: clear_if_empty_def bitmap_drop)

lemma remove_chunk_inv:
  assumes inv: "heap_inv m L" and x: "x \<in> set (chunk_head m)" "x \<notin> L" "\<not> allocated (hdr m x)"
    and k: "mm_size_to_class (csize (hdr m x)) (max_class m) = Some k"
  shows "heap_inv (mm_class_remove_chunk k x m) (insert x L)"
proof -
  let ?m = "mm_class_remove_chunk k x m"
  note I = heap_invD [OF inv]
  have k32: "k < 32" using I(10) [OF x(1)] k I(5) by auto
  have other: "x \<notin> set (class_head m j)" if "j \<noteq> k" for j using I(7) k that by (auto simp: free_in_def)
  have ch: "class_head ?m j = removeAll x (class_head m j)" for j by (simp add: mm_class_remove_chunk_def)
  have "bit (size_bitmap ?m) j \<longleftrightarrow> class_head ?m j \<noteq> []" for j
    using I(8) other k32 by (cases "j = k") (auto simp: mm_class_remove_chunk_def clear_if_empty_bit removeAll_id)
  moreover have "set (class_head ?m j) = free_in ?m (insert x L) j" for j
    using I(7) [of j] unfolding ch by (auto simp: free_in_def mm_class_remove_chunk_def)
  moreover have "distinct (class_head ?m j)" for j unfolding ch by (rule distinct_removeAll [OF I(6)])
  ultimately have "lists_ok ?m (insert x L)" using I(5) by (simp add: lists_ok_def mm_class_remove_chunk_def)
  moreover have "coalesced ?m (insert x L)" using inv
    by (auto simp: heap_inv_def coalesced_def mm_class_remove_chunk_def elim!: successively_mono)
  moreover have "layout_ok ?m" using inv by (simp add: heap_inv_def layout_ok_def mm_class_remove_chunk_def)
  ultimately show ?thesis by (simp add: heap_inv_def)
qed

lemma add_chunk_inv:
  assumes inv: "heap_inv m {x}" and x: "chunk_head m = as @ x # bs" "\<not> allocated (hdr m x)"
    and k: "mm_size_to_class (csize (hdr m x)) (max_class m) = Some k"
    and nb: "as \<noteq> [] \<Longrightarrow> allocated (hdr m (last as))" "bs \<noteq> [] \<Longrightarrow> allocated (hdr m (hd bs))"
  shows "heap_inv (mm_class_add k x m) {}"
proof -
  let ?m = "mm_class_add k x m"
  note I = heap_invD [OF inv]
  have xin: "x \<in> set (chunk_head m)" using x(1) by simp
  have k32: "k < 32" using I(10) [OF xin] k I(5) by auto
  have new: "x \<notin> set (class_head m j)" for j using I(7) by (auto simp: free_in_def)
  have "lists_ok ?m {}"
    using I(5-8) new k32 k x(2) xin
    by (auto simp: lists_ok_def mm_class_add_def bitmap_add free_in_def)
  moreover have "coalesced ?m {}"
  proof -
    have c: "successively (\<lambda>u v. u = x \<or> v = x \<or> allocated (hdr m u) \<or> allocated (hdr m v)) (as @ x # bs)"
      using inv x(1) by (simp add: heap_inv_def coalesced_def)
    have "x \<notin> set as" "x \<notin> set bs" using I(3) x(1) by auto
    then have "successively (\<lambda>u v. allocated (hdr m u) \<or> allocated (hdr m v)) as"
      "successively (\<lambda>u v. allocated (hdr m u) \<or> allocated (hdr m v)) bs"
      using c by (auto simp: successively_append_iff successively_Cons elim!: successively_mono)
    then show ?thesis using nb x(1)
      by (auto simp: coalesced_def mm_class_add_def successively_append_iff successively_Cons)
  qed
  moreover have "layout_ok ?m" using inv by (simp add: heap_inv_def layout_ok_def mm_class_add_def)
  ultimately show ?thesis by (simp add: heap_inv_def)
qed

section \<open>Allocation\<close>

lemma bitmap_find_result:
  assumes inv: "heap_inv m L" and t: "t < 32"
  shows "case mm_bitmap_find t m of None \<Rightarrow> (\<forall>k\<ge>t. class_head m k = [])
     | Some k \<Rightarrow> t \<le> k \<and> class_head m k \<noteq> [] \<and> (\<forall>j. t \<le> j \<longrightarrow> j < k \<longrightarrow> class_head m j = [])"
proof -
  let ?w = "size_bitmap m AND push_bit t (NOT 0)"
  have b: "bit ?w k \<longleftrightarrow> t \<le> k \<and> class_head m k \<noteq> []" for k
    using heap_invD(8) [OF inv, of k] bit_imp_le_length [of "size_bitmap m" k]
    by (auto simp: bit_and_iff bit_push_bit_iff bit_not_iff bit_mask_iff)
  show ?thesis
  proof (cases "?w = 0")
    case True
    then show ?thesis using b t by (auto simp: mm_bitmap_find_def Let_def)
  next
    case False
    note c = builtin_ctz_props [OF False]
    show ?thesis using False c(2,3) t b by (auto simp: mm_bitmap_find_def Let_def)
  qed
qed

lemma remove_head_eq:
  assumes inv: "heap_inv m {}" and k: "class_head m k = x # rest"
  shows "mm_class_remove_head k m = (Some x, mm_class_remove_chunk k x m)"
proof -
  note I = heap_invD [OF inv]
  have "x \<in> set (class_head m k)" using k by simp
  then have "mm_size_to_class (csize (hdr m x)) (max_class m) = Some k" using I(7) by (auto simp: free_in_def)
  then have "x \<notin> set (class_head m j)" if "j \<noteq> k" for j using I(7) that by (auto simp: free_in_def)
  moreover have "x \<notin> set rest" using I(6) [of k] k by simp
  ultimately have "(class_head m)(k := rest) = (\<lambda>j. removeAll x (class_head m j))"
    using k by (auto simp: fun_eq_iff removeAll_id)
  then show ?thesis using k by (simp add: mm_class_remove_head_def mm_class_remove_chunk_def)
qed

lemma split_list_at: "x \<in> set xs \<Longrightarrow> distinct xs \<Longrightarrow> \<exists>as bs. xs = as @ x # bs \<and> x \<notin> set as \<and> x \<notin> set bs"
  by (metis distinct_append split_list_first disjoint_insert(2) distinct.simps(2) list.simps(15))

lemma neighbours_allocated:
  assumes "coalesced m {}" "chunk_head m = as @ x # bs" "\<not> allocated (hdr m x)"
  shows "as \<noteq> [] \<longrightarrow> allocated (hdr m (last as))" "bs \<noteq> [] \<longrightarrow> allocated (hdr m (hd bs))"
  using assms by (auto simp: coalesced_def successively_append_iff successively_Cons)

lemma insert_after_split: "x \<notin> set as \<Longrightarrow> insert_after x n (as @ x # bs) = as @ x # n # bs"
  by (induction as) auto

lemma coalesced_parts:
  assumes "coalesced m L" "chunk_head m = as @ xs @ bs" "L \<subseteq> set xs" "distinct (chunk_head m)"
  shows "successively (\<lambda>u v. allocated (hdr m u) \<or> allocated (hdr m v)) as"
    "successively (\<lambda>u v. allocated (hdr m u) \<or> allocated (hdr m v)) bs"
proof -
  have n: "set as \<inter> L = {}" "set bs \<inter> L = {}" using assms(2-4) by auto
  have s: "successively (\<lambda>x y. x \<in> L \<or> y \<in> L \<or> allocated (hdr m x) \<or> allocated (hdr m y)) as"
    "successively (\<lambda>x y. x \<in> L \<or> y \<in> L \<or> allocated (hdr m x) \<or> allocated (hdr m y)) bs"
    using assms(1,2) by (auto simp: coalesced_def successively_append_iff)
  show "successively (\<lambda>u v. allocated (hdr m u) \<or> allocated (hdr m v)) as"
    "successively (\<lambda>u v. allocated (hdr m u) \<or> allocated (hdr m v)) bs"
    using s n by (auto elim!: successively_mono)
qed

lemma set_hdr_fields [simp]:
  "chunk_head (set_hdr x u m) = chunk_head m" "class_head (set_hdr x u m) = class_head m" "max_class (set_hdr x u m) = max_class m"
  "mm_tail (set_hdr x u m) = mm_tail m" "heap_start (set_hdr x u m) = heap_start m" "heap_current (set_hdr x u m) = heap_current m"
  "size_bitmap (set_hdr x u m) = size_bitmap m" "hdr (set_hdr x u m) y = (if y = x then u (hdr m x) else hdr m y)"
  by (simp_all add: set_hdr_def)

lemma layout_mark: "layout_ok (set_hdr x (\<lambda>c. c\<lparr>allocated := b\<rparr>) m) = layout_ok m"
  using tiles_cong [of "chunk_head m" "hdr (set_hdr x (\<lambda>c. c\<lparr>allocated := b\<rparr>) m)" "hdr m"] by (simp add: layout_ok_def)

lemma mark_allocated_inv:
  assumes inv: "heap_inv m {x}" and x: "chunk_head m = as @ x # bs"
  shows "heap_inv (set_hdr x (\<lambda>c. c\<lparr>allocated := True\<rparr>) m) {}"
proof -
  let ?m = "set_hdr x (\<lambda>c. c\<lparr>allocated := True\<rparr>) m"
  note I = heap_invD [OF inv]
  have xin: "x \<in> set (chunk_head m)" using x by simp
  have "layout_ok ?m" using inv by (simp add: heap_inv_def layout_mark)
  moreover have "free_in ?m {} k = free_in m {x} k" for k by (auto simp: free_in_def split: if_splits)
  then have "lists_ok ?m {}" using inv by (simp add: heap_inv_def lists_ok_def)
  moreover have "coalesced ?m {}"
  proof -
    have n: "x \<notin> set as" "x \<notin> set bs" using I(3) x by auto
    have "coalesced m {x}" using inv by (simp add: heap_inv_def)
    from coalesced_parts [OF this, of as "[x]" bs] x I(3)
    have "successively (\<lambda>u v. allocated (hdr ?m u) \<or> allocated (hdr ?m v)) as"
      "successively (\<lambda>u v. allocated (hdr ?m u) \<or> allocated (hdr ?m v)) bs"
      by (auto elim!: successively_mono)
    then show ?thesis using x by (auto simp: coalesced_def successively_append_iff successively_Cons)
  qed
  ultimately show ?thesis by (simp add: heap_inv_def)
qed

text \<open>What a chunk handed out looks like: it is allocated, and no other allocated chunk has changed.\<close>

definition hands_out :: "jlos_memory_manager \<Rightarrow> u64 \<Rightarrow> jlos_memory_manager \<Rightarrow> bool" where
  "hands_out m x m' \<longleftrightarrow> heap_inv m' {} \<and> x \<in> set (chunk_head m') \<and> allocated (hdr m' x)
     \<and> (\<forall>y\<in>set (chunk_head m). allocated (hdr m y) \<longrightarrow> y \<noteq> x \<and> y \<in> set (chunk_head m') \<and> hdr m' y = hdr m y)
     \<and> heap_start m' = heap_start m"

lemma split_result:
  assumes inv: "heap_inv m {x}" and x: "chunk_head m = as @ x # bs" "\<not> allocated (hdr m x)"
    and nb: "bs \<noteq> [] \<longrightarrow> allocated (hdr m (hd bs))" and sz: "16 \<le> unat sz" "unat sz < 2 ^ 32"
  obtains m' where "malloc_split x sz m = Some m'" "hands_out m x m'" "heap_current m' = heap_current m"
    "csize (hdr m' x) = (if unat sz + 64 \<le> unat (csize (hdr m x)) then sz else csize (hdr m x))"
proof -
  note I = heap_invD [OF inv]
  have xin: "x \<in> set (chunk_head m)" using x by simp
  have n: "x \<notin> set as" "x \<notin> set bs" using I(3) x by auto
  note tm = tiles_mem [OF I(1) xin]
  have guard: "sz + CHUNK_HDR + JLOS_MM_MIN_ALLOC \<le> csize (hdr m x) \<longleftrightarrow> unat sz + 64 \<le> unat (csize (hdr m x))"
  proof -
    have "unat (sz + (CHUNK_HDR + JLOS_MM_MIN_ALLOC)) = unat sz + unat (CHUNK_HDR + JLOS_MM_MIN_ALLOC)"
      using sz(2) by (intro unat_plus_noov) simp
    then show ?thesis by (simp add: word_le_nat_alt add.assoc)
  qed
  show thesis
  proof (cases "unat sz + 64 \<le> unat (csize (hdr m x))")
    case False
    let ?m = "set_hdr x (\<lambda>c. c\<lparr>allocated := True\<rparr>) m"
    have "heap_inv ?m {}" by (rule mark_allocated_inv [OF inv x(1)])
    then have "hands_out m x ?m" using x by (auto simp: hands_out_def)
    then show thesis using that [of ?m] False guard by (simp add: malloc_split_def)
  next
    case True
    let ?t = "x + CHUNK_HDR + sz" and ?r = "csize (hdr m x) - sz - CHUNK_HDR"
    have hc: "unat (heap_current m) < 2 ^ 64" using unsigned_less [where 'a = nat and w = "heap_current m"] by simp
    have "unat (x + CHUNK_HDR) = unat x + 48" using tm hc by (subst unat_plus_noov) auto
    then have ut: "unat ?t = unat x + 48 + unat sz" using tm hc True by (subst unat_plus_noov) auto
    have "unat (csize (hdr m x) - sz) = unat (csize (hdr m x)) - unat sz" using True by (intro unat_minus_noov) (simp add: word_le_nat_alt)
    then have ur: "unat ?r = unat (csize (hdr m x)) - unat sz - 48" using True by (subst unat_minus_noov) (simp_all add: word_le_nat_alt)
    define m1 where "m1 = m\<lparr>chunk_head := as @ x # ?t # bs, mm_tail := (if bs = [] then Some ?t else mm_tail m),
       hdr := (hdr m)(?t := \<lparr>allocated = False, csize = ?r\<rparr>, x := (hdr m x)\<lparr>csize := sz, allocated := True\<rparr>)\<rparr>"
    obtain c where c: "tiles (hdr m) (unat (heap_start m)) as c" "tiles (hdr m) c (x # bs) (unat (heap_current m))"
      using I(1) x(1) tiles_append by metis
    have tnew: "?t \<notin> set as" "?t \<notin> set bs" "?t \<noteq> x"
    proof -
      have "unat ?t \<noteq> unat x" using ut by linarith
      then show "?t \<noteq> x" by metis
      show "?t \<notin> set as" using tiles_mem [OF c(1), of ?t] c(2) ut by auto
      show "?t \<notin> set bs" using tiles_mem [of "hdr m" "c + 48 + unat (csize (hdr m x))" bs "unat (heap_current m)" ?t] c(2) ut True by auto
    qed
    have ta: "tiles (hdr m1) (unat (heap_start m)) as c" "tiles (hdr m1) (c + 48 + unat (csize (hdr m x))) bs (unat (heap_current m))"
    proof -
      have h: "hdr m1 y = hdr m y" if "y \<noteq> x" "y \<noteq> ?t" for y using that by (simp add: m1_def)
      have ca: "tiles (hdr m1) a as b = tiles (hdr m) a as b" for a b by (rule tiles_cong) (metis h n(1) tnew(1))
      have cb: "tiles (hdr m1) a bs b = tiles (hdr m) a bs b" for a b by (rule tiles_cong) (metis h n(2) tnew(2))
      show "tiles (hdr m1) (unat (heap_start m)) as c" unfolding ca by (rule c(1))
      show "tiles (hdr m1) (c + 48 + unat (csize (hdr m x))) bs (unat (heap_current m))" unfolding cb using c(2) by simp
    qed
    have til: "tiles (hdr m1) (unat (heap_start m1)) (chunk_head m1) (unat (heap_current m1))"
    proof -
      have "tiles (hdr m1) c (x # ?t # bs) (unat (heap_current m))"
        using ta(2) c(2) ut ur True sz tnew by (simp add: m1_def add.assoc)
      then show ?thesis using ta(1) by (auto simp: m1_def tiles_append)
    qed
    have lay: "layout_ok m1" using til I(2,4) x(1) by (auto simp: layout_ok_def m1_def)
    have "free_in m1 {?t} k = free_in m {x} k" for k using x(1) tnew n by (auto simp: free_in_def m1_def)
    then have lis: "lists_ok m1 {?t}" using inv by (auto simp: heap_inv_def lists_ok_def) (auto simp: m1_def)
    have "coalesced m {x}" using inv by (simp add: heap_inv_def)
    from coalesced_parts [OF this, of as "[x]" bs] x I(3)
    have "successively (\<lambda>u v. allocated (hdr m1 u) \<or> allocated (hdr m1 v)) as"
      "successively (\<lambda>u v. allocated (hdr m1 u) \<or> allocated (hdr m1 v)) bs"
      using tnew n by (auto simp: m1_def elim!: successively_mono)
    note su = successively_mono [OF this(1), where Q = "\<lambda>u v. u \<in> {?t} \<or> v \<in> {?t} \<or> allocated (hdr m1 u) \<or> allocated (hdr m1 v)"]
      successively_mono [OF this(2), where Q = "\<lambda>u v. u \<in> {?t} \<or> v \<in> {?t} \<or> allocated (hdr m1 u) \<or> allocated (hdr m1 v)"]
    have "allocated (hdr m1 x)" "chunk_head m1 = as @ x # ?t # bs" by (simp_all add: m1_def)
    then have "coalesced m1 {?t}" using su by (simp add: coalesced_def successively_append_iff successively_Cons)
    with lay lis have inv1: "heap_inv m1 {?t}" by (simp add: heap_inv_def)
    have cm: "chunk_head m1 = (as @ [x]) @ ?t # bs" by (simp add: m1_def)
    then obtain k where k: "mm_size_to_class (csize (hdr m1 ?t)) (max_class m1) = Some k" using heap_invD(10) [OF inv1, of ?t] by auto
    have hb: "hd bs \<noteq> ?t" "hd bs \<noteq> x" if "bs \<noteq> []" using hd_in_set [OF that] tnew(2) n(2) by metis+
    have inv2: "heap_inv (mm_class_add k ?t m1) {}"
      by (rule add_chunk_inv [OF inv1 cm _ k]) (use tnew n nb hb in \<open>auto simp: m1_def\<close>)
    have eq: "malloc_split x sz m = Some (mm_class_add k ?t m1)"
    proof -
      have "mm_tail m = Some x \<longleftrightarrow> bs = []" using I(4) x(1) n by (cases bs rule: rev_cases) auto
      then show ?thesis using guard True k tnew insert_after_split [OF n(1)] x(1)
        by (auto simp: malloc_split_def m1_def mm_class_add_def set_hdr_def fun_upd_twist Let_def)
    qed
    have "hands_out m x (mm_class_add k ?t m1)"
      using inv2 x tnew by (auto simp: hands_out_def mm_class_add_def m1_def)
    then show thesis using that [OF eq] True tnew by (simp add: mm_class_add_def m1_def)
  qed
qed

section \<open>Growing\<close>



section \<open>Merging\<close>

definition merged :: "jlos_memory_manager \<Rightarrow> u64 list \<Rightarrow> u64 \<Rightarrow> u64 \<Rightarrow> u64 list \<Rightarrow> jlos_memory_manager \<Rightarrow> bool" where
  "merged m as p q bs m' \<longleftrightarrow> heap_inv m' {p} \<and> chunk_head m' = as @ p # bs \<and> \<not> allocated (hdr m' p)
     \<and> unat (csize (hdr m' p)) = unat (csize (hdr m p)) + 48 + unat (csize (hdr m q))
     \<and> (\<forall>y. y \<noteq> p \<longrightarrow> hdr m' y = hdr m y) \<and> heap_start m' = heap_start m \<and> heap_current m' = heap_current m"

lemma merge_result:
  assumes inv: "heap_inv m {c}" and ch: "chunk_head m = as @ p # q # bs" and pq: "f = p \<and> c = q \<or> f = q \<and> c = p"
    and free: "\<not> allocated (hdr m p)" "\<not> allocated (hdr m q)"
  obtains m' where "merge_chunks f p q m = Some m'" "merged m as p q bs m'"
proof -
  note I = heap_invD [OF inv]
  have d: "p \<noteq> q" "p \<notin> set as" "q \<notin> set as" "p \<notin> set bs" "q \<notin> set bs" using I(3) ch by auto
  have fin: "f \<in> set (chunk_head m)" "f \<notin> {c}" "\<not> allocated (hdr m f)" and fc: "insert f {c} = {p, q}" using pq ch free d by auto
  obtain k where k: "mm_size_to_class (csize (hdr m f)) (max_class m) = Some k" using I(10) [OF fin(1)] by auto
  define m0 where "m0 = mm_class_remove_chunk k f m"
  have inv0: "heap_inv m0 {p, q}" using remove_chunk_inv [OF inv fin k] fc by (simp add: m0_def)
  have m0: "hdr m0 = hdr m" "chunk_head m0 = chunk_head m" "mm_tail m0 = mm_tail m" "heap_start m0 = heap_start m"
    "heap_current m0 = heap_current m" "max_class m0 = max_class m" by (simp_all add: m0_def mm_class_remove_chunk_def)
  have pin: "p \<in> set (chunk_head m)" "q \<in> set (chunk_head m)" using ch by auto
  obtain e where e: "tiles (hdr m) (unat (heap_start m)) as e" "tiles (hdr m) e (p # q # bs) (unat (heap_current m))"
    using I(1) ch tiles_append by metis
  have up: "unat (csize (hdr m p) + (csize (hdr m q) + CHUNK_HDR)) = unat (csize (hdr m p)) + 48 + unat (csize (hdr m q))"
  proof -
    have "unat (csize (hdr m q) + CHUNK_HDR) = unat (csize (hdr m q)) + 48" using I(9) [OF pin(2)] by (subst unat_plus_noov) simp_all
    then show ?thesis using I(9) [OF pin(1)] I(9) [OF pin(2)] by (subst unat_plus_noov) simp_all
  qed
  define m1 where "m1 = m0\<lparr>hdr := (hdr m)(p := (hdr m p)\<lparr>csize := csize (hdr m p) + (csize (hdr m q) + CHUNK_HDR)\<rparr>),
     chunk_head := as @ p # bs, mm_tail := (if bs = [] then Some p else mm_tail m)\<rparr>"
  have tc: "tiles (hdr m1) a ys b = tiles (hdr m) a ys b" if "p \<notin> set ys" for a b ys
    by (rule tiles_cong) (use that in \<open>auto simp: m1_def\<close>)
  have "tiles (hdr m1) e (p # bs) (unat (heap_current m))" using e(2) up tc [OF d(4)] by (simp add: m1_def add.assoc)
  then have "layout_ok m1" using e(1) tc [OF d(2)] I(2,4) ch by (auto simp: layout_ok_def tiles_append m1_def m0)
  moreover have fi: "free_in m1 {p} j = free_in m0 {p, q} j" for j using ch d by (auto simp: free_in_def m1_def m0)
  have "lists_ok m1 {p}" using inv0 by (simp add: heap_inv_def lists_ok_def fi) (simp add: m1_def)
  moreover have "coalesced m1 {p}"
  proof -
    have "coalesced m0 {p, q}" using inv0 by (simp add: heap_inv_def)
    note su = coalesced_parts [OF this, of as "[p, q]" bs, unfolded m0]
    have al: "allocated (hdr m1 u) = allocated (hdr m u)" for u by (simp add: m1_def)
    have "successively (\<lambda>u v. u \<in> {p} \<or> v \<in> {p} \<or> allocated (hdr m1 u) \<or> allocated (hdr m1 v)) as"
      "successively (\<lambda>u v. u \<in> {p} \<or> v \<in> {p} \<or> allocated (hdr m1 u) \<or> allocated (hdr m1 v)) bs"
      unfolding al using su ch I(3) by (auto elim!: successively_mono)
    moreover have "chunk_head m1 = as @ p # bs" by (simp add: m1_def)
    ultimately show ?thesis by (simp add: coalesced_def successively_append_iff successively_Cons)
  qed
  ultimately have "heap_inv m1 {p}" by (simp add: heap_inv_def)
  then have mg: "merged m as p q bs m1" using up free by (simp add: merged_def m1_def m0)
  have tq: "mm_tail m = Some q \<longleftrightarrow> bs = []" using I(4) ch d by (cases bs rule: rev_cases) auto
  have "removeAll q (chunk_head m) = as @ p # bs" using ch d by (simp add: removeAll_id)
  then have "merge_chunks f p q m = Some m1" using k tq
    by (auto simp: merge_chunks_def Let_def m0_def [symmetric] m0 set_hdr_def m1_def)
  then show thesis using mg by (rule that)
qed

lemma chunk_before_none: "x \<notin> set ys \<Longrightarrow> chunk_before x (z # ys) = None"
  by (induction ys arbitrary: z) auto

lemma chunk_before_split: "x \<notin> set as \<Longrightarrow> x \<notin> set bs \<Longrightarrow> chunk_before x (as @ x # bs) = (if as = [] then None else Some (last as))"
proof (induction as)
  case Nil
  then show ?case by (simp add: chunk_before_none)
next
  case (Cons a as)
  then show ?case by (cases as) auto
qed

lemma chunk_after_split: "x \<notin> set as \<Longrightarrow> x \<notin> set bs \<Longrightarrow> chunk_after x (as @ x # bs) = (if bs = [] then None else Some (hd bs))"
proof (induction as)
  case Nil
  then show ?case by (cases bs) auto
next
  case (Cons a as)
  then show ?case by (cases as) auto
qed

lemma mark_free_inv:
  assumes inv: "heap_inv m {}" and x: "x \<in> set (chunk_head m)" "allocated (hdr m x)"
  shows "heap_inv (set_hdr x (\<lambda>c. c\<lparr>allocated := False\<rparr>) m) {x}"
proof -
  let ?m = "set_hdr x (\<lambda>c. c\<lparr>allocated := False\<rparr>) m"
  have "layout_ok ?m" using inv by (simp add: heap_inv_def layout_mark)
  moreover have "free_in ?m {x} k = free_in m {} k" for k using x(2) by (auto simp: free_in_def)
  then have "lists_ok ?m {x}" using inv by (simp add: heap_inv_def lists_ok_def)
  moreover have "coalesced ?m {x}" using inv by (auto simp: heap_inv_def coalesced_def elim!: successively_mono)
  ultimately show ?thesis by (simp add: heap_inv_def)
qed

section \<open>A small heap\<close>

text \<open>One page: a free chunk of 80 bytes, an allocated one of 100 bytes and the free rest.\<close>

definition small_heap :: jlos_memory_manager where
  "small_heap = \<lparr>mm_addr = 0, chunk_head = [0x1000, 0x1080, 0x1114], mm_tail = Some 0x1114,
     heap_start = 0x1000, heap_end = 0x2000, heap_current = 0x2000, size_bitmap = 0x108, max_class = 8,
     class_head = (\<lambda>k. if k = 3 then [0x1000] else if k = 8 then [0x1114] else []),
     hdr = (\<lambda>x. if x = 0x1000 then \<lparr>allocated = False, csize = 80\<rparr>
                 else if x = 0x1080 then \<lparr>allocated = True, csize = 100\<rparr> else \<lparr>allocated = False, csize = 0xEBC\<rparr>)\<rparr>"

lemma small_heap_class:
  "mm_size_to_class 80 8 = Some 3" "mm_size_to_class 100 8 = Some 3" "mm_size_to_class 200 8 = Some 4" "mm_size_to_class 0xEBC 8 = Some 8"
  by code_simp+

lemma small_heap_inv: "heap_inv small_heap {}"
proof -
  have b: "bit (0x108 :: u32) k \<longleftrightarrow> k = 3 \<or> k = 8" for k
  proof -
    have "(0x108 :: u32) = 2 ^ 3 OR 2 ^ 8" by simp
    then show ?thesis by (simp only: bit_or_iff bit_exp_iff) auto
  qed
  have fr: "x \<in> free_in small_heap {} k \<longleftrightarrow> x = 0x1000 \<and> k = 3 \<or> x = 0x1114 \<and> k = 8" for x k
  proof -
    consider "x = 0x1000" | "x = 0x1080" | "x = 0x1114" | "x \<notin> {0x1000, 0x1080, 0x1114}" by blast
    then show ?thesis by cases (auto simp: free_in_def small_heap_def small_heap_class)
  qed
  have "free_in small_heap {} k = (if k = 3 then {0x1000} else if k = 8 then {0x1114} else {})" for k
    by (rule set_eqI) (simp add: fr)
  moreover have "class_head small_heap k = (if k = 3 then [0x1000] else if k = 8 then [0x1114] else [])" for k
    by (simp add: small_heap_def)
  ultimately have "distinct (class_head small_heap k) \<and> set (class_head small_heap k) = free_in small_heap {} k" for k
    by simp
  moreover have "bit (size_bitmap small_heap) k \<longleftrightarrow> class_head small_heap k \<noteq> []" for k using b [of k] by (simp add: small_heap_def)
  moreover have "max_class small_heap < 32" by (simp add: small_heap_def)
  ultimately have "lists_ok small_heap {}" by (simp add: lists_ok_def)
  moreover have "layout_ok small_heap" "coalesced small_heap {}"
    by (simp_all add: layout_ok_def coalesced_def small_heap_def)
  ultimately show ?thesis by (simp add: heap_inv_def)
qed

section \<open>The two operations\<close>

lemma claim_result:
  assumes inv: "heap_inv m {}" and x: "x \<in> set (chunk_head m)" "\<not> allocated (hdr m x)" and k: "mm_size_to_class (csize (hdr m x)) (max_class m) = Some k"
    and sz: "16 \<le> unat sz" "unat sz < 2 ^ 32"
  obtains m' where "malloc_split x sz (mm_class_remove_chunk k x m) = Some m'" "hands_out m x m'" "heap_current m' = heap_current m"
    "csize (hdr m' x) = (if unat sz + 64 \<le> unat (csize (hdr m x)) then sz else csize (hdr m x))"
proof -
  let ?m = "mm_class_remove_chunk k x m"
  have same: "hdr ?m = hdr m" "chunk_head ?m = chunk_head m" "heap_start ?m = heap_start m" "heap_current ?m = heap_current m"
    by (simp_all add: mm_class_remove_chunk_def)
  obtain as bs where ab: "chunk_head m = as @ x # bs" using split_list [OF x(1)] by blast
  have inv1: "heap_inv ?m {x}" using remove_chunk_inv [OF inv x(1) _ x(2) k] by simp
  have nb: "bs \<noteq> [] \<longrightarrow> allocated (hdr ?m (hd bs))" using neighbours_allocated(2) [OF _ ab x(2)] inv by (simp add: heap_inv_def same)
  obtain m' where "malloc_split x sz ?m = Some m'" "hands_out ?m x m'" "heap_current m' = heap_current ?m"
    "csize (hdr m' x) = (if unat sz + 64 \<le> unat (csize (hdr ?m x)) then sz else csize (hdr ?m x))"
    using split_result [OF inv1 _ _ nb sz] ab x(2) same by metis
  then show thesis using that by (simp add: hands_out_def same)
qed

lemma malloc_found:
  assumes inv: "heap_inv m {}" and sz: "unat sz < 2 ^ 32"
    and t: "mm_size_to_class (if sz < 16 then 16 else sz) (max_class m) = Some t" and f: "mm_bitmap_find t m = Some k"
  shows "\<exists>x m'. jlos_memory_manager_malloc c own sz m v = Some (Some (x + CHUNK_HDR), m', v)
     \<and> x = hd (class_head m k) \<and> hands_out m x m' \<and> t \<le> k \<and> (t < k \<longrightarrow> unat sz \<le> unat (csize (hdr m' x)))
     \<and> csize (hdr m' x) = (if max 16 (unat sz) + 64 \<le> unat (csize (hdr m x)) then if sz < 16 then 16 else sz else csize (hdr m x))"
proof -
  let ?s = "if sz < 16 then 16 else sz"
  note I = heap_invD [OF inv]
  have us: "unat ?s = max 16 (unat sz)" by (auto simp: word_less_nat_alt)
  then have s: "16 \<le> unat ?s" "unat ?s < 2 ^ 32" using sz by auto
  have "t \<le> max_class m" using size_class [OF s(2) I(5)] t by auto
  then have t32: "t < 32" using I(5) by simp
  then have fk: "t \<le> k" "class_head m k \<noteq> []" using bitmap_find_result [OF inv t32] f by auto
  then obtain x rest where ck: "class_head m k = x # rest" by (cases "class_head m k") auto
  then have "x \<in> free_in m {} k" using I(7) [of k] by auto
  then have x: "x \<in> set (chunk_head m)" "\<not> allocated (hdr m x)" "mm_size_to_class (csize (hdr m x)) (max_class m) = Some k"
    by (auto simp: free_in_def)
  obtain m' where m': "malloc_split x ?s (mm_class_remove_chunk k x m) = Some m'" "hands_out m x m'"
    "csize (hdr m' x) = (if unat ?s + 64 \<le> unat (csize (hdr m x)) then ?s else csize (hdr m x))"
    using claim_result [OF inv x s] by metis
  have "malloc_take ?s m = Some (Some x, mm_class_remove_chunk k x m)"
    using t f remove_head_eq [OF inv ck] by (simp add: malloc_take_def)
  then have "jlos_memory_manager_malloc c own sz m v = Some (Some (x + CHUNK_HDR), m', v)"
    using m'(1) by (simp add: jlos_memory_manager_malloc_def Let_def)
  moreover have "unat sz \<le> unat (csize (hdr m' x))" if "t < k"
    using class_mono [OF t x(3) that s(2) I(9) [OF x(1)]] m'(3) us by auto
  ultimately show ?thesis using m'(2,3) ck fk(1) us by (intro exI [of _ x] exI [of _ m']) simp
qed






text \<open>The state in the middle of a release: chunk \<open>c\<close> is free, in limbo, and covers the block of \<open>x\<close>.\<close>

definition covers :: "jlos_memory_manager \<Rightarrow> u64 \<Rightarrow> u64 list \<Rightarrow> u64 \<Rightarrow> u64 list \<Rightarrow> jlos_memory_manager \<Rightarrow> bool" where
  "covers m x as c bs m' \<longleftrightarrow> heap_inv m' {c} \<and> chunk_head m' = as @ c # bs \<and> \<not> allocated (hdr m' c)
     \<and> unat c \<le> unat x \<and> unat x + unat (csize (hdr m x)) \<le> unat c + unat (csize (hdr m' c))
     \<and> (\<forall>y\<in>set (chunk_head m). allocated (hdr m y) \<and> y \<noteq> x \<longrightarrow> y \<in> set (as @ bs) \<and> hdr m' y = hdr m y)
     \<and> (\<forall>y\<in>set (as @ bs). hdr m' y = hdr m y) \<and> (as \<noteq> [] \<longrightarrow> allocated (hdr m (last as)))"

lemma before_result:
  assumes inv: "heap_inv m {}" and x: "chunk_head m = as @ x # bs" "allocated (hdr m x)"
  defines "m1 \<equiv> set_hdr x (\<lambda>c. c\<lparr>allocated := False\<rparr>) m"
  obtains c as' m2 where "merge_before x m1 = Some (c, m2)" "covers m x as' c bs m2"
proof -
  note I = heap_invD [OF inv]
  have d: "x \<notin> set as" "x \<notin> set bs" using I(3) x(1) by auto
  have inv1: "heap_inv m1 {x}" unfolding m1_def by (rule mark_free_inv [OF inv _ x(2)]) (simp add: x(1))
  have ch: "chunk_head m1 = as @ x # bs" and h: "hdr m1 y = (if y = x then (hdr m x)\<lparr>allocated := False\<rparr> else hdr m y)" for y
    by (simp_all add: m1_def x(1))
  have nb: "chunk_before x (chunk_head m1) = (if as = [] then None else Some (last as))" unfolding ch by (rule chunk_before_split [OF d])
  show thesis
  proof (cases "as = [] \<or> allocated (hdr m (last as))")
    case True
    have la: "last as \<noteq> x" if "as \<noteq> []" using last_in_set [OF that] d(1) by metis
    have "merge_before x m1 = Some (x, m1)" using nb True la by (auto simp: merge_before_def h)
    moreover have hs: "hdr m1 y = hdr m y" if "y \<in> set (as @ bs)" for y using that d h by auto
    have "covers m x as x bs m1" unfolding covers_def using inv1 ch True x(1) hs by (auto simp: h)
    ultimately show thesis by (rule that)
  next
    case False
    then obtain as' p where p: "as = as' @ [p]" "\<not> allocated (hdr m p)" by (metis append_butlast_last_id)
    have px: "p \<noteq> x" "p \<notin> set as'" "p \<notin> set bs" using I(3) x(1) p by auto
    have chp: "chunk_head m1 = as' @ p # x # bs" using ch p by simp
    have fr: "\<not> allocated (hdr m1 p)" "\<not> allocated (hdr m1 x)" using p(2) by (simp_all add: h)
    obtain m2 where m2: "merge_chunks p p x m1 = Some m2" "merged m1 as' p x bs m2"
      using merge_result [OF inv1 chp _ fr, of p] by auto
    have "merge_before x m1 = Some (p, m2)" using nb p m2(1) px by (simp add: merge_before_def h)
    moreover have "covers m x as' p bs m2"
    proof -
      obtain e where "tiles (hdr m) e (p # x # bs) (unat (heap_current m))" using I(1) x(1) p(1) tiles_append by (metis append_Cons append_assoc append_Nil)
      then have ux: "unat x = unat p + 48 + unat (csize (hdr m p))" by simp
      have "as' \<noteq> [] \<longrightarrow> allocated (hdr m (last as'))"
        using neighbours_allocated(1) [of m as' p "x # bs"] inv x(1) p by (simp add: heap_inv_def)
      moreover have "hdr m2 y = hdr m y" if "y \<noteq> p" "y \<noteq> x" for y using m2(2) that by (simp add: merged_def h)
      ultimately show ?thesis using m2(2) ux x(1) p px d by (auto simp: covers_def merged_def h)
    qed
    ultimately show thesis by (rule that)
  qed
qed

lemma after_result:
  assumes cv: "covers m x as c bs m2" and inv: "heap_inv m {}" and xs: "chunk_head m = us @ x # bs"
  obtains bs' m3 where "merge_after c m2 = Some m3" "covers m x as c bs' m3" "bs' \<noteq> [] \<longrightarrow> allocated (hdr m (hd bs'))"
proof -
  have C: "heap_inv m2 {c}" "chunk_head m2 = as @ c # bs" "\<not> allocated (hdr m2 c)" "\<forall>y\<in>set (as @ bs). hdr m2 y = hdr m y"
    using cv by (auto simp: covers_def)
  have d: "c \<notin> set as" "c \<notin> set bs" "distinct bs" using heap_invD(3) [OF C(1)] C(2) by auto
  have na: "chunk_after c (chunk_head m2) = (if bs = [] then None else Some (hd bs))" unfolding C(2) by (rule chunk_after_split [OF d(1,2)])
  show thesis
  proof (cases "bs = [] \<or> allocated (hdr m (hd bs))")
    case True
    have "hdr m2 (hd bs) = hdr m (hd bs)" if "bs \<noteq> []" using C(4) hd_in_set [OF that] by simp
    then have "merge_after c m2 = Some m2" using na True by (auto simp: merge_after_def)
    then show thesis using that [OF _ cv] True by blast
  next
    case False
    then obtain q bs' where q: "bs = q # bs'" "\<not> allocated (hdr m q)" by (cases bs) auto
    have hq: "hdr m2 q = hdr m q" using C(4) q(1) by simp
    have chq: "chunk_head m2 = as @ c # q # bs'" using C(2) q(1) by simp
    obtain m3 where m3: "merge_chunks q c q m2 = Some m3" "merged m2 as c q bs' m3"
      using merge_result [OF C(1) chq, of q] C(3) hq q(2) by auto
    have "merge_after c m2 = Some m3" using na q hq m3(1) by (simp add: merge_after_def)
    moreover have "covers m x as c bs' m3" using cv m3(2) q d by (fastforce simp: covers_def merged_def)
    moreover have "bs' \<noteq> [] \<longrightarrow> allocated (hdr m (hd bs'))"
      using neighbours_allocated(2) [of m "us @ [x]" q bs'] inv xs q by (simp add: heap_inv_def)
    ultimately show thesis by (rule that)
  qed
qed

text \<open>
  C7: releasing a block gives its chunk back: the invariant holds again, with the chunk joined to its free
  neighbours so that no two free chunks touch, a free chunk covers the block, and no other allocated
  chunk has changed. Releasing never gets stuck.
\<close>

theorem heap_free_correct:
  assumes inv: "heap_inv m {}" and x: "x \<in> set (chunk_head m)" "allocated (hdr m x)"
  shows "\<exists>m' z. jlos_memory_manager_free (x + CHUNK_HDR) m = Some m' \<and> heap_inv m' {}
     \<and> z \<in> set (chunk_head m') \<and> \<not> allocated (hdr m' z) \<and> unat z \<le> unat x
     \<and> unat x + unat (csize (hdr m x)) \<le> unat z + unat (csize (hdr m' z))
     \<and> (\<forall>y\<in>set (chunk_head m). allocated (hdr m y) \<and> y \<noteq> x \<longrightarrow> y \<in> set (chunk_head m') \<and> hdr m' y = hdr m y)"
proof -
  note I = heap_invD [OF inv] and tm = tiles_mem [OF heap_invD(1) [OF inv] x(1)]
  obtain us bs where ub: "chunk_head m = us @ x # bs" using split_list [OF x(1)] by blast
  have hc: "unat (heap_current m) < 2 ^ 64" using unsigned_less [where 'a = nat and w = "heap_current m"] by simp
  have ux: "unat (x + CHUNK_HDR) = unat x + 48" using tm hc by (subst unat_plus_noov) auto
  then have "unat (x + CHUNK_HDR) \<noteq> 0" by simp
  then have guard: "x + CHUNK_HDR \<noteq> 0" "\<not> x + CHUNK_HDR < heap_start m" "\<not> heap_current m \<le> x + CHUNK_HDR"
    using tm ux by (auto simp: word_less_nat_alt word_le_nat_alt)
  obtain c as m2 where b: "merge_before x (set_hdr x (\<lambda>c. c\<lparr>allocated := False\<rparr>) m) = Some (c, m2)" "covers m x as c bs m2"
    using before_result [OF inv ub x(2)] by blast
  obtain bs' m3 where e: "merge_after c m2 = Some m3" "covers m x as c bs' m3" "bs' \<noteq> [] \<longrightarrow> allocated (hdr m (hd bs'))"
    using after_result [OF b(2) inv ub] by blast
  have C: "heap_inv m3 {c}" "chunk_head m3 = as @ c # bs'" "\<not> allocated (hdr m3 c)" "\<forall>y\<in>set (as @ bs'). hdr m3 y = hdr m y"
    "as \<noteq> [] \<longrightarrow> allocated (hdr m (last as))" using e(2) by (auto simp: covers_def)
  obtain k where k: "mm_size_to_class (csize (hdr m3 c)) (max_class m3) = Some k" using heap_invD(10) [OF C(1), of c] C(2) by auto
  have "as \<noteq> [] \<Longrightarrow> allocated (hdr m3 (last as))" "bs' \<noteq> [] \<Longrightarrow> allocated (hdr m3 (hd bs'))" using C(4,5) e(3) by simp_all
  then have inv3: "heap_inv (mm_class_add k c m3) {}" by (rule add_chunk_inv [OF C(1-3) k])
  have "jlos_memory_manager_free (x + CHUNK_HDR) m = Some (mm_class_add k c m3)"
    using guard x(1) b(1) e(1) k by (simp add: jlos_memory_manager_free_def Let_def)
  then show ?thesis using inv3 e(2) by (intro exI [of _ "mm_class_add k c m3"] exI [of _ c]) (auto simp: covers_def mm_class_add_def)
qed

theorem heap_free_correct_witness:
  "\<exists>m' z. jlos_memory_manager_free 0x10B0 small_heap = Some m' \<and> heap_inv m' {} \<and> z \<in> set (chunk_head m')
     \<and> \<not> allocated (hdr m' z) \<and> unat z \<le> 0x1080 \<and> 0x1080 + 100 \<le> unat z + unat (csize (hdr m' z))"
  using heap_free_correct [OF small_heap_inv, of "0x1080"] by (auto simp: small_heap_def)

text \<open>
  C25: a request can be answered with a chunk that is too small. A class holds chunks of different sizes, and the
  allocation takes the first chunk of the class of the request without looking at its size: when that
  chunk is smaller than the request, it is handed out as it is, and the block that the caller takes itself to own reaches
  over the header of the next chunk, or past the end of the heap.
\<close>

theorem heap_malloc_undersized:
  assumes inv: "heap_inv m {}" and sz: "16 \<le> unat sz" "unat sz < 2 ^ 32"
    and t: "mm_size_to_class sz (max_class m) = Some t" and x: "class_head m t = x # rest" "unat (csize (hdr m x)) < unat sz"
  shows "\<exists>m'. jlos_memory_manager_malloc c own sz m v = Some (Some (x + CHUNK_HDR), m', v)
     \<and> csize (hdr m' x) = csize (hdr m x)
     \<and> (case chunk_after x (chunk_head m) of
          Some y \<Rightarrow> unat y < unat x + 48 + unat sz
        | None \<Rightarrow> unat (heap_current m) < unat x + 48 + unat sz)"
proof -
  note I = heap_invD [OF inv]
  have s16: "(if sz < 16 then 16 else sz) = sz" using sz(1) by (auto simp: word_less_nat_alt)
  have "t \<le> max_class m" using size_class [OF sz(2) I(5)] t by auto
  then have "t < 32" using I(5) by simp
  from bitmap_find_result [OF inv this] have f: "mm_bitmap_find t m = Some t"
    using x(1) by (auto split: option.splits)
  have "x \<in> free_in m {} t" using I(7) [of t] x(1) by auto
  then have xin: "x \<in> set (chunk_head m)" by (simp add: free_in_def)
  then obtain as bs where ab: "chunk_head m = as @ x # bs" "x \<notin> set as" "x \<notin> set bs" using split_list_at I(3) by metis
  obtain e where "tiles (hdr m) e (x # bs) (unat (heap_current m))" using I(1) ab(1) tiles_append by metis
  then have "case chunk_after x (chunk_head m) of Some y \<Rightarrow> unat y < unat x + 48 + unat sz
        | None \<Rightarrow> unat (heap_current m) < unat x + 48 + unat sz"
    using x(2) unfolding ab(1) chunk_after_split [OF ab(2,3)] by (cases bs) auto
  then show ?thesis using malloc_found [OF inv sz(2) _ f, of c own v] t x sz s16 by auto
qed

theorem heap_malloc_undersized_witness:
  "\<exists>m'. jlos_memory_manager_malloc 0 0 100 small_heap (small_machine 1) = Some (Some 0x1030, m', (small_machine 1))
     \<and> csize (hdr m' 0x1000) = 80 \<and> unat (0x1080 :: u64) < 0x1000 + 48 + 100"
proof -
  have t: "mm_size_to_class 100 (max_class small_heap) = Some 3" using small_heap_class by (simp add: small_heap_def)
  show ?thesis
    using heap_malloc_undersized [OF small_heap_inv _ _ t, of "0x1000" "[]" 0 0 "small_machine 1"] by (auto simp: small_heap_def)
qed

end
