(* ===== verification/Spec2Isabelle.thy ===== *)
theory Spec2Isabelle
  imports Intrusive_List Bitmap Ringbuf Sort_Search Hash_Chain Timer_Wheel Page_Init Spinlock Sync Heap_Props
begin

text \<open>
  A verification library for the johnbeauty-os kernel, a small multiprocessor kernel in C. Paths below
  are relative to the source tree.

  \<^bold>\<open>The parts and how they fit together.\<close> The kernel's containers (\<open>dsa/\<close>) and freestanding C routines
  (\<open>common/\<close>) carry everything else. The page frame allocator (\<open>kernel/page_frame_allocator.c\<close>) hands out
  physical frames from buddy lists and per-CPU caches. The page tables (\<open>arch/x86/paging.c\<close>,
  \<open>kernel/paging.c\<close>) take their tables and pages from it and keep its reference counts, and the chunk heap
  (\<open>kernel/memory_manager.c\<close>) grows by frames that it maps. The scheduler (\<open>kernel/multitask.c\<close>) runs tasks
  from per-CPU queues, with the timer wheel for sleepers and the hash chains for the pid table;
  semaphores, mutexes and condition variables (\<open>kernel/sync.c\<close>) park tasks on wait queues and wake them
  through the scheduler. Ticket locks (\<open>arch/x86/spinlock.c\<close>) protect each of these structures.

  \<^bold>\<open>The theories.\<close> Data are records and datatypes with the fields of the source, machine integers are
  words of their width, and pointers are addresses or indices into a store. State is passed explicitly.
  An endless halt loop, an access out of range and undefined behaviour are the value \<open>None\<close>. A section under
  a spin lock is one step, which \<open>Spinlock\<close> justifies; where the code drops a lock in the middle of an
  operation, the sections on both sides are definitions of their own.

  \<^item> \<open>Jlos_Prelude\<close>: generic lemmas on lists, words and bit counts.
  \<^item> \<open>Intrusive_List\<close>: \<open>dsa/list.h\<close> and \<open>dsa/list_lru.h\<close> on an explicit store of links. The operations refine
    lists, walks in both directions visit the nodes in order, and the LRU list is a queue. The interface of a queue is stated here.
  \<^item> \<open>C_Types\<close>: \<open>common/types.c\<close> (memory and string routines on byte memory) and \<open>common/lib/udivdi3.c\<close>
    (64-bit division by shifts).
  \<^item> \<open>Bitmap\<close>, \<open>Ringbuf\<close>, \<open>Sort_Search\<close>, \<open>Hash_Chain\<close>, \<open>Timer_Wheel\<close>: \<open>dsa/bitmap.c\<close>, \<open>dsa/ringbuf.c\<close>,
    \<open>dsa/sort.c\<close> with \<open>dsa/search.c\<close> and the exception table, \<open>dsa/hash_chain.c\<close>, \<open>dsa/timer_wheel.c\<close>. The ring buffer
    refines a bounded byte queue, the wheel fires exactly the timers that are due, the hash table
    refines a finite map from keys to nodes.
  \<^item> \<open>Page_Frame\<close> holds the definitions of the frame allocator, \<open>Buddy\<close> its invariant and the steps of the free
    lists, \<open>Page_Alloc\<close> allocation and release, \<open>Page_Init\<close> the start from the boot memory map, with the release of the boot page tables' root.
  \<^item> \<open>Spinlock\<close>: the ticket lock as a step relation over CPUs; mutual exclusion holds on
    every reachable state, and along every run the CPUs enter in the order of their tickets.
  \<^item> \<open>Sched\<close> holds the definitions of tasks, run queues, forking, exit, signals and descriptors, \<open>Sched_Inv\<close> the
    invariant and its preservation, \<open>Sched_Props\<close> and \<open>Sched_Life\<close> what scheduling, forking, waking, exit and
    signals do. Of a saved context (\<open>arch/x86/switch.S\<close>) the model keeps whether it resumes inside the scheduler
    or in an entry stub, which decides when a CPU forgets the task it switched from.
  \<^item> \<open>Sync\<close>: \<open>kernel/sync.c\<close> on top of the scheduler, with two runs in which a wake-up goes wrong.
  \<^item> \<open>Paging\<close> holds the definitions of the page tables; \<open>Paging_Inv\<close> describes the tree of tables and what a
    change of one entry does to it, and states what the tables need from the frame allocator;
    \<open>Paging_Maps\<close> the invariant of several address spaces with reference counts; \<open>Paging_Ops\<close> and
    \<open>Paging_Unmap\<close> the effect of mapping and unmapping; \<open>Paging_Props\<close> the properties, with the
    rewriting of entries for copy-on-write.
  \<^item> \<open>Heap\<close> holds the definitions of the chunk heap, \<open>Heap_Props\<close> its invariant and properties.

  \<^bold>\<open>Interfaces.\<close> The locale \<open>fifo_queue\<close> is interpreted on the LRU list and on the wait queues, \<open>sort_order\<close> and
  \<open>search_order\<close> on the exception table, \<open>keyed_nodes\<close> on the pid table, and \<open>frame_source\<close>, the laws that the page
  tables rely on, on the frame allocator.

  \<^bold>\<open>Bounds and fuel.\<close> Loops over lists and counters are structural. The merge and split loops of the buddy
  lists run over the eleven orders, the search loops over the interval that is left. The division loop ends
  because its shift is bounded by the 64 bits of a word. Loops over address ranges that can wrap around are
  partial functions. The heap's class loop is bounded by its 32 classes. The theorems on releasing frames
  and on page tables need a managed range within 4 GiB, because the code truncates physical addresses to 32 bits; the
  theorem on unmapping needs fewer than 256 pages in the page table, because the count of a table has
  eight bits, and \<open>present_count_wraps\<close> shows what happens at 256.

  \<^bold>\<open>Not modelled.\<close> The 32-bit page tables and the page fault handler, which needs the areas of an address space
  (\<open>kernel/vma.c\<close>, on the red-black trees of \<open>dsa/rbtree.c\<close>). The slab caches in front of the chunk heap,
  pipes and message queues, system calls, the file systems and the network stack. Drivers, platform and
  boot code, the arm64 port, the console and the user programs are device access, assembly or
  copies of interfaces that are modelled for x86-64.
\<close>

end
